(* ===== verification/Base.thy ===== *)
theory Base
  imports Main "HOL-Library.Word"
begin

text \<open>
  The prelude of the development: names for the machine types of the Go sources, the
  collections of rewrite rules the component theories share, and generic lemmas on lists, maps
  and words.
\<close>

unbundle bit_operations_syntax

subsection \<open>Machine types\<close>

text \<open>\<open>uint8\<close>, \<open>uint32\<close>, \<open>uint64\<close> and \<open>byte\<close> of the sources; \<open>int\<close> and \<open>int64\<close>
  quantities that only count or hold Unix seconds are \<^typ>\<open>nat\<close> or \<^typ>\<open>int\<close>.\<close>

type_synonym u8 = "8 word"
type_synonym u32 = "32 word"
type_synonym u64 = "64 word"
type_synonym byte = "8 word"
type_synonym bytes = "byte list"

subsection \<open>Collections of rules\<close>

named_theorems shard_simps \<open>lookups, updates and sizes of sharded maps\<close>
named_theorems queue_simps \<open>fields of a swap queue after an operation\<close>
named_theorems codec_simps \<open>decoding what an encoder wrote\<close>

subsection \<open>Lists\<close>

lemma sum_list_list_update_nat:
  fixes xs :: "nat list"
  assumes "i < length xs"
  shows "sum_list (xs[i := y]) + xs ! i = sum_list xs + y"
  using assms
proof (induction xs arbitrary: i)
  case Nil
  then show ?case by simp
next
  case (Cons x xs)
  then show ?case by (cases i) auto
qed

lemma fold_invariant:
  assumes "P s" and "\<And>x s. x \<in> set xs \<Longrightarrow> P s \<Longrightarrow> P (f x s)"
  shows "P (fold f xs s)"
  using assms by (induction xs arbitrary: s) auto

lemma fold_snoc_map: "fold (\<lambda>x acc. acc @ [f x]) xs acc = acc @ map f xs"
  by (induction xs arbitrary: acc) auto

lemma nth_list_update_case:
  "i < length xs \<Longrightarrow> xs[j := y] ! i = (if i = j then y else xs ! i)"
  by (auto simp: nth_list_update)

subsection \<open>Maps\<close>

text \<open>A Go \<open>map\<close> is a partial function; \<open>len\<close> of it is the size of its domain.\<close>

definition map_len :: "('k \<rightharpoonup> 'v) \<Rightarrow> nat" where
  "map_len m = card (dom m)"

lemma map_len_empty [simp]: "map_len (\<lambda>_. None) = 0"
  by (simp add: map_len_def)

lemma map_len_upd: "finite (dom m) \<Longrightarrow> map_len (m(k \<mapsto> v)) = (if k \<in> dom m then map_len m else Suc (map_len m))"
  by (simp add: map_len_def insert_absorb)

lemma map_len_del: "finite (dom m) \<Longrightarrow> map_len (m(k := None)) = (if k \<in> dom m then map_len m - 1 else map_len m)"
  by (simp add: map_len_def)

text \<open>Ranging over a Go map visits every key once, in an order the runtime picks.\<close>

definition is_order :: "'k list \<Rightarrow> ('k \<rightharpoonup> 'v) \<Rightarrow> bool" where
  "is_order ks m \<longleftrightarrow> distinct ks \<and> set ks = dom m"

lemma is_order_D: "is_order ks m \<Longrightarrow> k \<in> set ks \<longleftrightarrow> m k \<noteq> None"
  by (auto simp: is_order_def)

lemma map_of_order: "is_order ks m \<Longrightarrow> map_of (map (\<lambda>k. (k, the (m k))) ks) = m"
proof
  fix k assume o: "is_order ks m"
  have "map_of (map (\<lambda>k. (k, the (m k))) ks) k = (if k \<in> set ks then Some (the (m k)) else None)"
    by (induction ks) auto
  then show "map_of (map (\<lambda>k. (k, the (m k))) ks) k = m k"
    using is_order_D [OF o, of k] by (cases "m k") auto
qed

subsection \<open>Words\<close>

lemma unat_and_le: "unat (x AND y :: 'a::len word) \<le> unat y"
  by (rule word_and_le1 [THEN word_le_nat_alt [THEN iffD1]])

end
