(* ===== verification/Swap_Queue.thy ===== *)
theory Swap_Queue
  imports Base
begin

text \<open>
  The double-buffered mailbox of \<^verbatim>\<open>pkg/queue/swap_queue.go\<close>, which carries the events of a role,
  of an actor, of the account service, the save requests of the logon service and the outgoing
  packets of a client session.  First the record and its operations as the code has them, then
  the interface \<open>mailbox\<close> its clients rely on, with the interpretation on the operations.
\<close>

subsection \<open>State and operations\<close>

datatype queue_err = ErrQueueFull | ErrQueueClosed

text \<open>
  \<open>sq_write\<close> and \<open>sq_read\<close> are the two slices with their capacities; a cell of \<open>sq_read\<close> is
  \<^term>\<open>None\<close> once \<open>clear\<close> has put the zero value there.  \<open>sq_sig\<close> is the one-slot signal channel.
  \<open>sq_grow\<close> is a parameter of the model: the capacity the runtime's \<open>append\<close> gives a full slice
  of the given capacity when it reallocates it.
\<close>

record 'a swap_queue =
  sq_write :: "'a list"
  sq_wcap :: nat
  sq_read :: "'a option list"
  sq_rcap :: nat
  sq_sig :: bool
  sq_maxSize :: nat
  sq_size :: nat
  sq_closed :: bool
  sq_grow :: "nat \<Rightarrow> nat"

definition NewSwapQueue :: "(nat \<Rightarrow> nat) \<Rightarrow> nat \<Rightarrow> nat \<Rightarrow> 'a swap_queue" where
  "NewSwapQueue grow sz maxSize =
     \<lparr>sq_write = [], sq_wcap = sz, sq_read = [], sq_rcap = sz, sq_sig = False,
      sq_maxSize = maxSize, sq_size = sz, sq_closed = False, sq_grow = grow\<rparr>"

text \<open>\<open>append(s.write, data)\<close>: in place while there is room, into a larger array otherwise.\<close>

definition append_write :: "'a swap_queue \<Rightarrow> 'a \<Rightarrow> 'a swap_queue" where
  "append_write q x =
     q\<lparr>sq_write := sq_write q @ [x],
       sq_wcap := (if length (sq_write q) < sq_wcap q then sq_wcap q
                   else sq_grow q (sq_wcap q))\<rparr>"

definition pushData :: "'a swap_queue \<Rightarrow> 'a \<Rightarrow> 'a swap_queue \<times> queue_err option" where
  "pushData q x =
     (if sq_closed q then (q, Some ErrQueueClosed)
      else if length (sq_write q) \<ge> sq_maxSize q then (q, Some ErrQueueFull)
      else (append_write q x, None))"

text \<open>The non-blocking send on the one-slot channel: a second signal is dropped.\<close>

definition Wake :: "'a swap_queue \<Rightarrow> 'a swap_queue" where
  "Wake q = q\<lparr>sq_sig := True\<rparr>"

definition Push :: "'a swap_queue \<Rightarrow> 'a \<Rightarrow> 'a swap_queue \<times> queue_err option" where
  "Push q x = (case pushData q x of (q', err) \<Rightarrow> (Wake q', err))"

definition Close :: "'a swap_queue \<Rightarrow> 'a swap_queue" where
  "Close q = (if sq_closed q then q else Wake (q\<lparr>sq_closed := True\<rparr>))"

text \<open>A receive from \<open>Sig()\<close>: \<^term>\<open>None\<close> when the channel is empty and the receiver blocks.\<close>

definition recv_Sig :: "'a swap_queue \<Rightarrow> 'a swap_queue option" where
  "recv_Sig q = (if sq_sig q then Some (q\<lparr>sq_sig := False\<rparr>) else None)"

text \<open>
  \<open>Range\<close> swaps the slices under the lock, runs the callback over the slice it took without the
  lock, then clears that slice and drops it when it outgrew the initial size.  The callback acts
  on the state of its caller, which holds this queue too: a callback may push to it.
\<close>

definition Range_swap :: "'a swap_queue \<Rightarrow> 'a swap_queue" where
  "Range_swap q =
     q\<lparr>sq_write := [], sq_wcap := sq_rcap q,
       sq_read := map Some (sq_write q), sq_rcap := sq_wcap q\<rparr>"

definition Range_finish :: "'a swap_queue \<Rightarrow> 'a swap_queue" where
  "Range_finish q =
     (let q1 = q\<lparr>sq_read := map (\<lambda>_. None) (sq_read q)\<rparr>
      in if sq_rcap q1 > sq_size q1 then q1\<lparr>sq_read := [], sq_rcap := sq_size q1\<rparr> else q1)"

definition Range ::
    "('a \<Rightarrow> 'a swap_queue \<times> 's \<Rightarrow> 'a swap_queue \<times> 's) \<Rightarrow> 'a swap_queue \<times> 's \<Rightarrow> 'a swap_queue \<times> 's" where
  "Range f qs =
     (case qs of (q, s) \<Rightarrow>
        if sq_write q = [] then (q, s)
        else (case fold f (sq_write q) (Range_swap q, s) of (q2, s2) \<Rightarrow> (Range_finish q2, s2)))"

text \<open>A callback that leaves the queue alone and appends what it sees to a log.\<close>

definition collect :: "'a \<Rightarrow> 'a swap_queue \<times> 'a list \<Rightarrow> 'a swap_queue \<times> 'a list" where
  "collect x qs = (fst qs, snd qs @ [x])"

definition drain :: "'a swap_queue \<Rightarrow> 'a list \<times> 'a swap_queue" where
  "drain q = (case Range collect (q, []) of (q', xs) \<Rightarrow> (xs, q'))"

subsection \<open>Well-formed queues\<close>

definition swap_ok :: "'a swap_queue \<Rightarrow> bool" where
  "swap_ok q \<longleftrightarrow> length (sq_write q) \<le> sq_maxSize q
     \<and> length (sq_write q) \<le> sq_wcap q \<and> length (sq_read q) \<le> sq_rcap q
     \<and> sq_rcap q \<le> sq_size q \<and> set (sq_read q) \<subseteq> {None}
     \<and> (\<forall>n. n < sq_grow q n)"

lemma pushData_cases:
  obtains (closed) "sq_closed q" "pushData q x = (q, Some ErrQueueClosed)"
  | (full) "\<not> sq_closed q" "sq_maxSize q \<le> length (sq_write q)" "pushData q x = (q, Some ErrQueueFull)"
  | (room) "\<not> sq_closed q" "length (sq_write q) < sq_maxSize q" "pushData q x = (append_write q x, None)"
  by (cases "sq_closed q"; cases "length (sq_write q) < sq_maxSize q") (auto simp: pushData_def)

lemma append_write_fields [queue_simps]:
  "sq_write (append_write q x) = sq_write q @ [x]"
  "sq_read (append_write q x) = sq_read q"
  "sq_rcap (append_write q x) = sq_rcap q"
  "sq_maxSize (append_write q x) = sq_maxSize q"
  "sq_size (append_write q x) = sq_size q"
  "sq_closed (append_write q x) = sq_closed q"
  "sq_grow (append_write q x) = sq_grow q"
  "sq_sig (append_write q x) = sq_sig q"
  by (simp_all add: append_write_def)

lemma Wake_fields [queue_simps]:
  "sq_write (Wake q) = sq_write q" "sq_wcap (Wake q) = sq_wcap q"
  "sq_read (Wake q) = sq_read q" "sq_rcap (Wake q) = sq_rcap q"
  "sq_maxSize (Wake q) = sq_maxSize q" "sq_size (Wake q) = sq_size q"
  "sq_closed (Wake q) = sq_closed q" "sq_grow (Wake q) = sq_grow q" "sq_sig (Wake q)"
  by (simp_all add: Wake_def)

lemma Push_room [queue_simps]:
  "\<not> sq_closed q \<Longrightarrow> length (sq_write q) < sq_maxSize q \<Longrightarrow> Push q x = (Wake (append_write q x), None)"
  by (simp add: Push_def pushData_def)

lemma Push_full [queue_simps]:
  "\<not> sq_closed q \<Longrightarrow> sq_maxSize q \<le> length (sq_write q) \<Longrightarrow> Push q x = (Wake q, Some ErrQueueFull)"
  by (simp add: Push_def pushData_def)

lemma Push_closed [queue_simps]: "sq_closed q \<Longrightarrow> Push q x = (Wake q, Some ErrQueueClosed)"
  by (simp add: Push_def pushData_def)

lemma Push_frame [queue_simps]:
  "sq_maxSize (fst (Push q x)) = sq_maxSize q" "sq_size (fst (Push q x)) = sq_size q"
  "sq_closed (fst (Push q x)) = sq_closed q" "sq_read (fst (Push q x)) = sq_read q"
  "sq_rcap (fst (Push q x)) = sq_rcap q" "sq_grow (fst (Push q x)) = sq_grow q"
  by (cases rule: pushData_cases [of q x]; simp add: Push_def queue_simps)+

lemma Close_fields [queue_simps]:
  "sq_write (Close q) = sq_write q" "sq_maxSize (Close q) = sq_maxSize q" "sq_closed (Close q)"
  by (simp_all add: Close_def Wake_def)

lemma swap_ok_new: "(\<And>n. n < grow n) \<Longrightarrow> swap_ok (NewSwapQueue grow sz maxSize)"
  by (simp add: swap_ok_def NewSwapQueue_def)

lemma swap_ok_append:
  "swap_ok q \<Longrightarrow> length (sq_write q) < sq_maxSize q \<Longrightarrow> swap_ok (append_write q x)"
  by (auto simp: swap_ok_def append_write_def Suc_le_eq intro: le_less_trans)

lemma swap_ok_Wake: "swap_ok (Wake q) = swap_ok q"
  by (simp add: swap_ok_def Wake_def)

lemma swap_ok_Push: "swap_ok q \<Longrightarrow> swap_ok (fst (Push q x))"
  by (cases rule: pushData_cases [of q x]) (simp_all add: Push_def swap_ok_Wake swap_ok_append)

lemma swap_ok_Close: "swap_ok q \<Longrightarrow> swap_ok (Close q)"
  by (simp add: Close_def swap_ok_Wake) (simp add: swap_ok_def)

text \<open>During a \<open>Range\<close> the slice taken may exceed the initial size; pushes keep the rest.\<close>

definition ranging :: "'a swap_queue \<Rightarrow> bool" where
  "ranging q \<longleftrightarrow> length (sq_write q) \<le> sq_maxSize q \<and> length (sq_write q) \<le> sq_wcap q
     \<and> length (sq_read q) \<le> sq_rcap q \<and> (\<forall>n. n < sq_grow q n)"

lemma ranging_swap: "swap_ok q \<Longrightarrow> ranging (Range_swap q)"
  by (simp add: ranging_def swap_ok_def Range_swap_def)

lemma swap_ok_finish: "ranging q \<Longrightarrow> swap_ok (Range_finish q)"
  by (auto simp: ranging_def swap_ok_def Range_finish_def Let_def)

lemma swap_ok_Range:
  assumes "swap_ok q" and "\<And>x q s. ranging q \<Longrightarrow> ranging (fst (f x (q, s)))"
  shows "swap_ok (fst (Range f (q, s)))"
proof -
  have "ranging (fst (fold f (sq_write q) (Range_swap q, s)))"
    by (rule fold_invariant [where P = "\<lambda>qs. ranging (fst qs)"])
       (simp_all add: ranging_swap assms(1) assms(2) split: prod.splits, metis assms(2) prod.collapse)
  then show ?thesis
    using assms(1) by (auto simp: Range_def swap_ok_finish split: prod.splits)
qed

lemma fold_collect: "fold collect xs (q, acc) = (q, acc @ xs)"
  by (induction xs arbitrary: acc) (simp_all add: collect_def)

lemma drain_eq: "drain q = (sq_write q, if sq_write q = [] then q else Range_finish (Range_swap q))"
  by (simp add: drain_def Range_def fold_collect)

lemma Range_finish_fields [queue_simps]:
  "sq_write (Range_finish q) = sq_write q" "sq_maxSize (Range_finish q) = sq_maxSize q"
  "sq_closed (Range_finish q) = sq_closed q" "sq_size (Range_finish q) = sq_size q"
  "sq_wcap (Range_finish q) = sq_wcap q" "sq_sig (Range_finish q) = sq_sig q"
  by (simp_all add: Range_finish_def Let_def)

lemma Range_swap_fields [queue_simps]:
  "sq_write (Range_swap q) = []" "sq_maxSize (Range_swap q) = sq_maxSize q"
  "sq_closed (Range_swap q) = sq_closed q" "sq_size (Range_swap q) = sq_size q"
  "sq_wcap (Range_swap q) = sq_rcap q" "sq_rcap (Range_swap q) = sq_wcap q"
  "sq_sig (Range_swap q) = sq_sig q"
  by (simp_all add: Range_swap_def)

lemma swap_ok_drain: "swap_ok q \<Longrightarrow> swap_ok (snd (drain q))"
  by (simp add: drain_eq swap_ok_finish ranging_swap)

subsection \<open>The mailbox interface\<close>

text \<open>
  What the owners of a queue rely on: a bounded first-in first-out mailbox.  \<open>push\<close> tells
  whether it accepted the element, \<open>take\<close> hands everything over and empties the box.
\<close>

locale mailbox =
  fixes push :: "'a \<Rightarrow> 'q \<Rightarrow> 'q \<times> bool"
    and take_all :: "'q \<Rightarrow> 'a list \<times> 'q"
    and shut :: "'q \<Rightarrow> 'q"
    and contents :: "'q \<Rightarrow> 'a list"
    and limit :: "'q \<Rightarrow> nat"
    and is_shut :: "'q \<Rightarrow> bool"
    and invar :: "'q \<Rightarrow> bool"
  assumes push_contents: "invar q \<Longrightarrow>
      contents (fst (push x q)) = (if snd (push x q) then contents q @ [x] else contents q)"
    and push_accepts: "invar q \<Longrightarrow> snd (push x q) \<longleftrightarrow> \<not> is_shut q \<and> length (contents q) < limit q"
    and push_limit: "limit (fst (push x q)) = limit q"
    and push_shut: "is_shut (fst (push x q)) = is_shut q"
    and take_contents: "invar q \<Longrightarrow> fst (take_all q) = contents q \<and> contents (snd (take_all q)) = []"
    and take_limit: "limit (snd (take_all q)) = limit q"
    and take_shut: "is_shut (snd (take_all q)) = is_shut q"
    and shut_shut: "is_shut (shut q)"
    and shut_contents: "contents (shut q) = contents q"
    and shut_limit: "limit (shut q) = limit q"
    and invar_push: "invar q \<Longrightarrow> invar (fst (push x q))"
    and invar_take: "invar q \<Longrightarrow> invar (snd (take_all q))"
    and invar_shut: "invar q \<Longrightarrow> invar (shut q)"
    and invar_bound: "invar q \<Longrightarrow> length (contents q) \<le> limit q"
begin

text \<open>Several pushes in a row, by one producer or interleaved by several.\<close>

fun push_list :: "'a list \<Rightarrow> 'q \<Rightarrow> 'q" where
  "push_list [] q = q"
| "push_list (x # xs) q = push_list xs (fst (push x q))"

lemma push_list_frame:
  "limit (push_list xs q) = limit q" "is_shut (push_list xs q) = is_shut q"
  by (induction xs arbitrary: q) (simp_all add: push_limit push_shut)

lemma invar_push_list: "invar q \<Longrightarrow> invar (push_list xs q)"
  by (induction xs arbitrary: q) (simp_all add: invar_push)

lemma push_list_contents:
  "invar q \<Longrightarrow> \<not> is_shut q \<Longrightarrow>
     contents (push_list xs q) = contents q @ take (limit q - length (contents q)) xs"
proof (induction xs arbitrary: q)
  case Nil
  then show ?case by simp
next
  case (Cons x xs)
  let ?q = "fst (push x q)"
  have IH: "contents (push_list xs ?q) = contents ?q @ take (limit q - length (contents ?q)) xs"
    using Cons.IH [of ?q] Cons.prems by (simp add: invar_push push_shut push_limit)
  show ?case
  proof (cases "length (contents q) < limit q")
    case True
    then have "contents ?q = contents q @ [x]"
      using Cons.prems by (simp add: push_contents push_accepts)
    moreover have "limit q - length (contents q) = Suc (limit q - Suc (length (contents q)))"
      using True by simp
    ultimately show ?thesis using IH by simp
  next
    case False
    then have "contents ?q = contents q"
      using Cons.prems by (simp add: push_contents push_accepts)
    then show ?thesis using IH False by simp
  qed
qed

lemma push_list_shut: "invar q \<Longrightarrow> is_shut q \<Longrightarrow> contents (push_list xs q) = contents q"
  by (induction xs arbitrary: q) (simp_all add: invar_push push_shut push_contents push_accepts)

lemma push_list_take:
  assumes "invar q" and "\<not> is_shut q"
  shows "fst (take_all (push_list xs q)) = contents q @ take (limit q - length (contents q)) xs"
  using assms by (simp add: take_contents invar_push_list push_list_contents)

text \<open>Shutting the box keeps what it holds, and nothing enters it afterwards.\<close>

lemma shut_then_take:
  assumes "invar q"
  shows "fst (take_all (push_list xs (shut q))) = contents q"
  using assms by (simp add: take_contents invar_push_list invar_shut push_list_shut shut_shut shut_contents)

end

definition offer :: "'a \<Rightarrow> 'a swap_queue \<Rightarrow> 'a swap_queue \<times> bool" where
  "offer x q = (case Push q x of (q', err) \<Rightarrow> (q', err = None))"

lemma offer_simps:
  "fst (offer x q) = fst (Push q x)" "snd (offer x q) = (snd (Push q x) = None)"
  by (simp_all add: offer_def split: prod.splits)

interpretation sq: mailbox offer drain Close sq_write sq_maxSize sq_closed swap_ok
proof (unfold_locales, goal_cases)
  case (1 q x)
  then show ?case
    by (cases rule: pushData_cases [of q x]) (simp_all add: offer_simps Push_def queue_simps)
next
  case (2 q x)
  then show ?case
    by (cases rule: pushData_cases [of q x]) (simp_all add: offer_simps Push_def)
qed (simp_all add: offer_simps queue_simps drain_eq swap_ok_Push swap_ok_Close swap_ok_finish
       ranging_swap, simp add: swap_ok_def)

subsection \<open>Properties\<close>

text \<open>The pushes of one or more producers in the order the lock admits them.\<close>

definition push_all :: "'a list \<Rightarrow> 'a swap_queue \<Rightarrow> 'a swap_queue" where
  "push_all xs q = fold (\<lambda>x q. fst (Push q x)) xs q"

lemma push_all_push_list: "push_all xs q = sq.push_list xs q"
  unfolding push_all_def by (induction xs arbitrary: q) (simp_all add: offer_simps)

text \<open>
  C1. A mailbox that is open hands over, in order, what it held followed by the longest prefix
  of the pushed elements that fits its limit; whatever is pushed after it is closed is refused,
  and what it held then is still handed over.
\<close>

theorem push_then_range:
  assumes "swap_ok q"
  shows "fst (drain (push_all xs q)) =
      sq_write q @ (if sq_closed q then [] else take (sq_maxSize q - length (sq_write q)) xs)
    \<and> fst (drain (push_all xs (Close q))) = sq_write q"
  using assms sq.push_list_take [of q xs] sq.shut_then_take [of q xs] sq.push_list_shut [of q xs]
    sq.take_contents [of "push_all xs q"] sq.invar_push_list [of q xs]
  by (cases "sq_closed q") (simp_all add: push_all_push_list)

theorem push_then_range_witness:
  "swap_ok (NewSwapQueue (\<lambda>n. 2 * n + 1) 2 3 :: nat swap_queue)
   \<and> fst (drain (push_all [10, 20, 30, 40 :: nat] (NewSwapQueue (\<lambda>n. 2 * n + 1) 2 3))) = [10, 20, 30]"
proof -
  have ok: "swap_ok (NewSwapQueue (\<lambda>n. 2 * n + 1) 2 3 :: nat swap_queue)"
    by (rule swap_ok_new) simp
  show ?thesis
    using ok push_then_range [OF ok, of "[10, 20, 30, 40]"] by (simp add: NewSwapQueue_def)
qed

text \<open>
  Memory: after a \<open>Range\<close> that found elements neither slice keeps more than the initial
  capacity, and the slice that was handed out keeps no element alive, however far the queue had
  grown and whatever the callback pushed meanwhile.
\<close>

theorem Range_releases:
  assumes "swap_ok q" and "sq_write q \<noteq> []" and "drain q = (xs, q')"
  shows "sq_wcap q' \<le> sq_size q \<and> sq_rcap q' \<le> sq_size q \<and> set (sq_read q') \<subseteq> {None}"
  using assms swap_ok_drain [OF assms(1)]
  by (auto simp: drain_eq queue_simps) (auto simp: swap_ok_def queue_simps)

theorem Range_releases_witness:
  "sq_wcap (push_all [1, 2, 3, 4 :: nat] (NewSwapQueue (\<lambda>n. 2 * n + 1) 2 9)) = 5
   \<and> sq_rcap (snd (drain (push_all [1, 2, 3, 4 :: nat] (NewSwapQueue (\<lambda>n. 2 * n + 1) 2 9)))) \<le> 2"
proof -
  let ?q = "push_all [1, 2, 3, 4 :: nat] (NewSwapQueue (\<lambda>n. 2 * n + 1) 2 9)"
  have ok: "swap_ok ?q"
    unfolding push_all_push_list by (rule sq.invar_push_list) (rule swap_ok_new, simp)
  have w: "sq_wcap ?q = 5" "sq_write ?q = [1, 2, 3, 4]" "sq_size ?q = 2"
    by (simp_all add: push_all_def NewSwapQueue_def Push_def pushData_def append_write_def Wake_def)
  then show ?thesis
    using Range_releases [OF ok, of "fst (drain ?q)" "snd (drain ?q)"] by simp
qed

end
