(* ===== verification/Swap_Queue_Conc.thy ===== *)
theory Swap_Queue_Conc
  imports Swap_Queue
begin

text \<open>
  The swap queue under concurrency: any number of producers in \<open>Push\<close>, the owner in
  \<open>Close\<close> followed by closing its quit channel (\<open>saver.close\<close>), and the single consumer in its
  loop of receiving the signal and calling \<open>Range\<close>, with the last \<open>Range\<close> after the quit
  channel is closed (\<open>saver.run\<close>).  Each atomic action of the code is one step, so every
  interleaving of mutex, atomic flag and channel operations is a run of this machine.
\<close>

subsection \<open>Program counters and the shared state\<close>

datatype 'a prod_pc =
    P_idle
  | P_lock 'a                     \<comment> \<open>at \<open>s.mtx.Lock()\<close> of \<open>pushData\<close>\<close>
  | P_load 'a                     \<comment> \<open>at \<open>s.closed.Load()\<close>\<close>
  | P_store 'a bool               \<comment> \<open>the flag is read; at the length test and the append\<close>
  | P_unlock "queue_err option"   \<comment> \<open>at the deferred unlock\<close>
  | P_wake "queue_err option"     \<comment> \<open>at \<open>s.Wake()\<close>\<close>

datatype close_pc =
    C_cas        \<comment> \<open>at the compare-and-swap of \<open>Close\<close>\<close>
  | C_wake       \<comment> \<open>at \<open>s.Wake()\<close>\<close>
  | C_quit       \<comment> \<open>at \<open>close(s.closeCh)\<close>\<close>
  | C_end

datatype 'a cons_pc =
    K_select                  \<comment> \<open>at the \<open>select\<close> of the consumer loop\<close>
  | K_lock bool               \<comment> \<open>at \<open>s.mtx.Lock()\<close> of \<open>Range\<close>; the flag marks the last \<open>Range\<close>\<close>
  | K_swap bool               \<comment> \<open>the lock is held\<close>
  | K_unlock "'a list" bool   \<comment> \<open>the slices are swapped; elements still to be handled\<close>
  | K_call "'a list" bool     \<comment> \<open>in the callback loop\<close>
  | K_stop

datatype holder = Producer nat | Consumer

record 'a qsys =
  qs_q :: "'a swap_queue"
  qs_mtx :: "holder option"
  qs_prod :: "nat \<Rightarrow> 'a prod_pc"
  qs_close :: close_pc
  qs_cons :: "'a cons_pc"
  qs_accepted :: "'a list"    \<comment> \<open>every element a push accepted, in order\<close>
  qs_delivered :: "'a list"   \<comment> \<open>every element the callback was given, in order\<close>

text \<open>\<open>pushData\<close> after its atomic load: the rest of the body for the value that was read.\<close>

definition push_body :: "'a swap_queue \<Rightarrow> bool \<Rightarrow> 'a \<Rightarrow> 'a swap_queue \<times> queue_err option" where
  "push_body q c x =
     (if c then (q, Some ErrQueueClosed)
      else if length (sq_write q) \<ge> sq_maxSize q then (q, Some ErrQueueFull)
      else (append_write q x, None))"

lemma push_body_pushData: "push_body q (sq_closed q) x = pushData q x"
  by (simp add: push_body_def pushData_def)

definition qinit :: "(nat \<Rightarrow> nat) \<Rightarrow> nat \<Rightarrow> nat \<Rightarrow> 'a qsys" where
  "qinit grow sz maxSize =
     \<lparr>qs_q = NewSwapQueue grow sz maxSize, qs_mtx = None, qs_prod = (\<lambda>_. P_idle),
      qs_close = C_cas, qs_cons = K_select, qs_accepted = [], qs_delivered = []\<rparr>"

inductive qstep :: "'a qsys \<Rightarrow> 'a qsys \<Rightarrow> bool" where
  push_call: "qs_prod s i = P_idle \<Longrightarrow> qstep s (s\<lparr>qs_prod := (qs_prod s)(i := P_lock x)\<rparr>)"
| push_lock: "qs_prod s i = P_lock x \<Longrightarrow> qs_mtx s = None \<Longrightarrow>
    qstep s (s\<lparr>qs_mtx := Some (Producer i), qs_prod := (qs_prod s)(i := P_load x)\<rparr>)"
| push_load: "qs_prod s i = P_load x \<Longrightarrow>
    qstep s (s\<lparr>qs_prod := (qs_prod s)(i := P_store x (sq_closed (qs_q s)))\<rparr>)"
| push_store: "qs_prod s i = P_store x c \<Longrightarrow> push_body (qs_q s) c x = (q', err) \<Longrightarrow>
    qstep s (s\<lparr>qs_q := q', qs_prod := (qs_prod s)(i := P_unlock err),
      qs_accepted := qs_accepted s @ (if err = None then [x] else [])\<rparr>)"
| push_unlock: "qs_prod s i = P_unlock err \<Longrightarrow>
    qstep s (s\<lparr>qs_mtx := None, qs_prod := (qs_prod s)(i := P_wake err)\<rparr>)"
| push_wake: "qs_prod s i = P_wake err \<Longrightarrow>
    qstep s (s\<lparr>qs_q := Wake (qs_q s), qs_prod := (qs_prod s)(i := P_idle)\<rparr>)"
| close_cas: "qs_close s = C_cas \<Longrightarrow>
    qstep s (if sq_closed (qs_q s) then s\<lparr>qs_close := C_quit\<rparr>
             else s\<lparr>qs_q := (qs_q s)\<lparr>sq_closed := True\<rparr>, qs_close := C_wake\<rparr>)"
| close_wake: "qs_close s = C_wake \<Longrightarrow> qstep s (s\<lparr>qs_q := Wake (qs_q s), qs_close := C_quit\<rparr>)"
| close_quit: "qs_close s = C_quit \<Longrightarrow> qstep s (s\<lparr>qs_close := C_end\<rparr>)"
| cons_sig: "qs_cons s = K_select \<Longrightarrow> recv_Sig (qs_q s) = Some q' \<Longrightarrow>
    qstep s (s\<lparr>qs_q := q', qs_cons := K_lock False\<rparr>)"
| cons_quit: "qs_cons s = K_select \<Longrightarrow> qs_close s = C_end \<Longrightarrow>
    qstep s (s\<lparr>qs_cons := K_lock True\<rparr>)"
| cons_lock: "qs_cons s = K_lock fin \<Longrightarrow> qs_mtx s = None \<Longrightarrow>
    qstep s (s\<lparr>qs_mtx := Some Consumer, qs_cons := K_swap fin\<rparr>)"
| cons_swap: "qs_cons s = K_swap fin \<Longrightarrow>
    qstep s (s\<lparr>qs_q := (if sq_write (qs_q s) = [] then qs_q s else Range_swap (qs_q s)),
      qs_cons := K_unlock (sq_write (qs_q s)) fin\<rparr>)"
| cons_unlock: "qs_cons s = K_unlock xs fin \<Longrightarrow>
    qstep s (s\<lparr>qs_mtx := None,
      qs_cons := (if xs = [] then if fin then K_stop else K_select else K_call xs fin)\<rparr>)"
| cons_call: "qs_cons s = K_call (x # xs) fin \<Longrightarrow>
    qstep s (s\<lparr>qs_delivered := qs_delivered s @ [x], qs_cons := K_call xs fin\<rparr>)"
| cons_finish: "qs_cons s = K_call [] fin \<Longrightarrow>
    qstep s (s\<lparr>qs_q := Range_finish (qs_q s), qs_cons := (if fin then K_stop else K_select)\<rparr>)"

inductive qreach :: "(nat \<Rightarrow> nat) \<Rightarrow> nat \<Rightarrow> nat \<Rightarrow> 'a qsys \<Rightarrow> bool"
  for grow :: "nat \<Rightarrow> nat" and sz :: nat and maxSize :: nat where
  start: "qreach grow sz maxSize (qinit grow sz maxSize)"
| step: "qreach grow sz maxSize s \<Longrightarrow> qstep s t \<Longrightarrow> qreach grow sz maxSize t"

subsection \<open>The invariant\<close>

fun in_crit :: "'a prod_pc \<Rightarrow> bool" where
  "in_crit (P_load x) = True"
| "in_crit (P_store x c) = True"
| "in_crit (P_unlock e) = True"
| "in_crit _ = False"

fun cons_crit :: "'a cons_pc \<Rightarrow> bool" where
  "cons_crit (K_swap f) = True"
| "cons_crit (K_unlock xs f) = True"
| "cons_crit _ = False"

fun taken :: "'a cons_pc \<Rightarrow> 'a list" where
  "taken (K_unlock xs f) = xs"
| "taken (K_call xs f) = xs"
| "taken _ = []"

fun last_range :: "'a cons_pc \<Rightarrow> bool" where
  "last_range (K_lock f) = f"
| "last_range (K_swap f) = f"
| "last_range (K_unlock xs f) = f"
| "last_range (K_call xs f) = f"
| "last_range K_stop = True"
| "last_range K_select = False"

fun swapped :: "'a cons_pc \<Rightarrow> bool" where
  "swapped (K_unlock xs f) = True"
| "swapped (K_call xs f) = True"
| "swapped K_stop = True"
| "swapped _ = False"

text \<open>A producer that appended and has still to signal.\<close>

definition will_wake :: "(nat \<Rightarrow> 'a prod_pc) \<Rightarrow> bool" where
  "will_wake p \<longleftrightarrow> (\<exists>i. p i \<in> {P_unlock None, P_wake None})"

definition mutex_ok :: "holder option \<Rightarrow> (nat \<Rightarrow> 'a prod_pc) \<Rightarrow> 'a cons_pc \<Rightarrow> bool" where
  "mutex_ok m p c \<longleftrightarrow> (\<forall>i. in_crit (p i) \<longleftrightarrow> m = Some (Producer i)) \<and> (cons_crit c \<longleftrightarrow> m = Some Consumer)"

definition mutex_inv :: "'a qsys \<Rightarrow> bool" where
  "mutex_inv s \<longleftrightarrow> mutex_ok (qs_mtx s) (qs_prod s) (qs_cons s)"

definition fifo_inv :: "'a qsys \<Rightarrow> bool" where
  "fifo_inv s \<longleftrightarrow> qs_accepted s = qs_delivered s @ taken (qs_cons s) @ sq_write (qs_q s)"

definition wake_inv :: "'a qsys \<Rightarrow> bool" where
  "wake_inv s \<longleftrightarrow> (sq_write (qs_q s) \<noteq> [] \<and> (qs_cons s = K_select \<or> swapped (qs_cons s))
     \<longrightarrow> sq_sig (qs_q s) \<or> will_wake (qs_prod s))"

definition close_inv :: "'a qsys \<Rightarrow> bool" where
  "close_inv s \<longleftrightarrow> (qs_close s \<noteq> C_cas \<longrightarrow> sq_closed (qs_q s))
     \<and> (last_range (qs_cons s) \<longrightarrow> qs_close s = C_end)
     \<and> (last_range (qs_cons s) \<and> swapped (qs_cons s) \<longrightarrow>
          sq_write (qs_q s) = [] \<and> (\<forall>i x. qs_prod s i \<noteq> P_store x False))"

lemmas conc_inv_defs = mutex_inv_def fifo_inv_def wake_inv_def close_inv_def

definition conc_inv :: "'a qsys \<Rightarrow> bool" where
  "conc_inv s \<longleftrightarrow> mutex_inv s \<and> fifo_inv s \<and> wake_inv s \<and> close_inv s"

lemma conc_inv_init: "conc_inv (qinit grow sz maxSize)"
  by (simp add: conc_inv_def conc_inv_defs mutex_ok_def qinit_def NewSwapQueue_def)

lemma push_body_write: "push_body q c x = (q', err) \<Longrightarrow>
    sq_write q' = sq_write q @ (if err = None then [x] else []) \<and> sq_closed q' = sq_closed q
    \<and> sq_sig q' = sq_sig q \<and> (err = None \<longrightarrow> \<not> c)"
  by (auto simp: push_body_def queue_simps split: if_splits)

text \<open>Moves that keep, take or give up the lock.\<close>

lemma producer_stays: "mutex_ok m p c \<Longrightarrow> p i = pc \<Longrightarrow> in_crit pc' = in_crit pc \<Longrightarrow> mutex_ok m (p(i := pc')) c"
  by (auto simp: mutex_ok_def)

lemma producer_enters: "mutex_ok None p c \<Longrightarrow> in_crit pc \<Longrightarrow> mutex_ok (Some (Producer i)) (p(i := pc)) c"
  by (auto simp: mutex_ok_def)

lemma producer_leaves:
  "mutex_ok m p c \<Longrightarrow> p i = pc \<Longrightarrow> in_crit pc \<Longrightarrow> \<not> in_crit pc' \<Longrightarrow> mutex_ok None (p(i := pc')) c"
  unfolding mutex_ok_def by (metis fun_upd_apply holder.distinct(1) holder.inject option.distinct(1) option.inject)

lemma consumer_stays: "mutex_ok m p c \<Longrightarrow> cons_crit c' = cons_crit c \<Longrightarrow> mutex_ok m p c'"
  by (simp add: mutex_ok_def)

lemma consumer_enters: "mutex_ok None p c \<Longrightarrow> cons_crit c' \<Longrightarrow> mutex_ok (Some Consumer) p c'"
  by (simp add: mutex_ok_def)

lemma consumer_leaves: "mutex_ok m p c \<Longrightarrow> cons_crit c \<Longrightarrow> \<not> cons_crit c' \<Longrightarrow> mutex_ok None p c'"
  by (simp add: mutex_ok_def)

lemmas mutex_moves = producer_stays producer_enters producer_leaves
  consumer_stays consumer_enters consumer_leaves

lemma mutex_excludes: "mutex_ok m p c \<Longrightarrow> cons_crit c \<Longrightarrow> \<not> in_crit (p i)"
  by (auto simp: mutex_ok_def)

lemma mutex_inv_step: "qstep s t \<Longrightarrow> mutex_inv s \<Longrightarrow> mutex_inv t"
  by (induction rule: qstep.induct) (auto simp: mutex_inv_def elim: mutex_moves)

lemma fifo_inv_step: "qstep s t \<Longrightarrow> fifo_inv s \<Longrightarrow> fifo_inv t"
  by (induction rule: qstep.induct)
     (auto simp: fifo_inv_def queue_simps recv_Sig_def dest: push_body_write split: if_splits)

lemma close_inv_step:
  assumes "qstep s t" and "mutex_inv s" and "close_inv s"
  shows "close_inv t"
  using assms
proof (induction rule: qstep.induct)
  case (push_store s i x c q' err)
  then show ?case
    using push_body_write [OF push_store.hyps(2)]
    by (cases c; cases err) (auto simp: close_inv_def)
next
  case (cons_swap s fin)
  then have "\<not> in_crit (qs_prod s i)" for i
    using mutex_excludes [of "qs_mtx s" "qs_prod s" "qs_cons s"] by (simp add: mutex_inv_def)
  then have "qs_prod s i \<noteq> P_store x False" for i x
    by (metis in_crit.simps(2))
  then show ?case
    using cons_swap by (auto simp: close_inv_def queue_simps)
qed (auto simp: close_inv_def queue_simps recv_Sig_def split: if_splits)

lemma will_wake_other:
  "will_wake p \<Longrightarrow> p i \<notin> {P_unlock None, P_wake None} \<Longrightarrow> will_wake (p(i := pc'))"
  unfolding will_wake_def by (metis fun_upd_other)

lemma will_wake_self: "pc \<in> {P_unlock None, P_wake None} \<Longrightarrow> will_wake (p(i := pc))"
  unfolding will_wake_def by (metis fun_upd_same)

lemma wake_inv_step:
  assumes "qstep s t" and "mutex_inv s" and "wake_inv s"
  shows "wake_inv t"
  using assms
proof (induction rule: qstep.induct)
  case (push_store s i x c q' err)
  then show ?case
    using push_body_write [OF push_store.hyps(2)]
    by (cases err) (auto simp: wake_inv_def will_wake_other will_wake_self)
next
  case (push_unlock s i err)
  then show ?case
    by (cases err) (auto simp: wake_inv_def will_wake_other will_wake_self)
qed (auto simp: wake_inv_def queue_simps recv_Sig_def will_wake_other split: if_splits)

lemma conc_inv_step: "qstep s t \<Longrightarrow> conc_inv s \<Longrightarrow> conc_inv t"
  using mutex_inv_step fifo_inv_step wake_inv_step close_inv_step by (auto simp: conc_inv_def)

lemma qreach_inv: "qreach grow sz maxSize s \<Longrightarrow> conc_inv s"
  by (induction rule: qreach.induct) (auto intro: conc_inv_init conc_inv_step)

subsection \<open>Running the machine\<close>

text \<open>The same steps as a function of a scheduling decision, \<^term>\<open>None\<close> where the step is blocked.\<close>

datatype 'a move = M_prod nat 'a | M_close | M_sig | M_quit | M_cons

definition set_prod :: "'a qsys \<Rightarrow> nat \<Rightarrow> 'a prod_pc \<Rightarrow> 'a qsys" where
  "set_prod s i pc = s\<lparr>qs_prod := (qs_prod s)(i := pc)\<rparr>"

fun qmove :: "'a move \<Rightarrow> 'a qsys \<Rightarrow> 'a qsys option" where
  "qmove (M_prod i x) s =
     (case qs_prod s i of
        P_idle \<Rightarrow> Some (set_prod s i (P_lock x))
      | P_lock y \<Rightarrow> if qs_mtx s = None then Some (set_prod (s\<lparr>qs_mtx := Some (Producer i)\<rparr>) i (P_load y)) else None
      | P_load y \<Rightarrow> Some (set_prod s i (P_store y (sq_closed (qs_q s))))
      | P_store y c \<Rightarrow> (case push_body (qs_q s) c y of (q', err) \<Rightarrow>
          Some (set_prod (s\<lparr>qs_q := q', qs_accepted := qs_accepted s @ (if err = None then [y] else [])\<rparr>) i (P_unlock err)))
      | P_unlock err \<Rightarrow> Some (set_prod (s\<lparr>qs_mtx := None\<rparr>) i (P_wake err))
      | P_wake err \<Rightarrow> Some (set_prod (s\<lparr>qs_q := Wake (qs_q s)\<rparr>) i P_idle))"
| "qmove M_close s =
     (case qs_close s of
        C_cas \<Rightarrow> Some (if sq_closed (qs_q s) then s\<lparr>qs_close := C_quit\<rparr>
                       else s\<lparr>qs_q := (qs_q s)\<lparr>sq_closed := True\<rparr>, qs_close := C_wake\<rparr>)
      | C_wake \<Rightarrow> Some (s\<lparr>qs_q := Wake (qs_q s), qs_close := C_quit\<rparr>)
      | C_quit \<Rightarrow> Some (s\<lparr>qs_close := C_end\<rparr>)
      | C_end \<Rightarrow> None)"
| "qmove M_sig s =
     (case recv_Sig (qs_q s) of
        Some q' \<Rightarrow> if qs_cons s = K_select then Some (s\<lparr>qs_q := q', qs_cons := K_lock False\<rparr>) else None
      | None \<Rightarrow> None)"
| "qmove M_quit s =
     (if qs_cons s = K_select \<and> qs_close s = C_end then Some (s\<lparr>qs_cons := K_lock True\<rparr>) else None)"
| "qmove M_cons s =
     (case qs_cons s of
        K_lock fin \<Rightarrow> if qs_mtx s = None then Some (s\<lparr>qs_mtx := Some Consumer, qs_cons := K_swap fin\<rparr>) else None
      | K_swap fin \<Rightarrow> Some (s\<lparr>qs_q := (if sq_write (qs_q s) = [] then qs_q s else Range_swap (qs_q s)),
                            qs_cons := K_unlock (sq_write (qs_q s)) fin\<rparr>)
      | K_unlock xs fin \<Rightarrow> Some (s\<lparr>qs_mtx := None,
                            qs_cons := (if xs = [] then if fin then K_stop else K_select else K_call xs fin)\<rparr>)
      | K_call ys fin \<Rightarrow> (case ys of
            [] \<Rightarrow> Some (s\<lparr>qs_q := Range_finish (qs_q s), qs_cons := (if fin then K_stop else K_select)\<rparr>)
          | y # ys' \<Rightarrow> Some (s\<lparr>qs_delivered := qs_delivered s @ [y], qs_cons := K_call ys' fin\<rparr>))
      | _ \<Rightarrow> None)"

fun qrun :: "'a move list \<Rightarrow> 'a qsys \<Rightarrow> 'a qsys option" where
  "qrun [] s = Some s"
| "qrun (m # ms) s = (case qmove m s of Some t \<Rightarrow> qrun ms t | None \<Rightarrow> None)"

lemma set_prod_update: "set_prod (s\<lparr>qs_q := q\<rparr>) i pc = s\<lparr>qs_q := q, qs_prod := (qs_prod s)(i := pc)\<rparr>"
  "set_prod (s\<lparr>qs_mtx := m\<rparr>) i pc = s\<lparr>qs_mtx := m, qs_prod := (qs_prod s)(i := pc)\<rparr>"
  "set_prod (s\<lparr>qs_q := q, qs_accepted := a\<rparr>) i pc = s\<lparr>qs_q := q, qs_prod := (qs_prod s)(i := pc), qs_accepted := a\<rparr>"
  by (simp_all add: set_prod_def)

lemma qmove_store_step:
  "qs_prod s i = P_store y c \<Longrightarrow> qmove (M_prod i x) s = Some t \<Longrightarrow> qstep s t"
  using push_store [of s i y c "fst (push_body (qs_q s) c y)" "snd (push_body (qs_q s) c y)"]
  by (auto simp: set_prod_update split: prod.splits if_splits)

lemma qmove_prod_step: "qmove (M_prod i x) s = Some t \<Longrightarrow> qstep s t"
proof (cases "qs_prod s i")
  case (P_store y c)
  then show "qmove (M_prod i x) s = Some t \<Longrightarrow> qstep s t" by (rule qmove_store_step)
qed (auto simp: set_prod_def split: if_splits intro: qstep.intros)

lemma qmove_cons_step: "qmove M_cons s = Some t \<Longrightarrow> qstep s t"
proof (cases "qs_cons s")
  case (K_swap fin)
  then show "qmove M_cons s = Some t \<Longrightarrow> qstep s t" using cons_swap [OF K_swap] by simp
next
  case (K_unlock xs fin)
  then show "qmove M_cons s = Some t \<Longrightarrow> qstep s t" using cons_unlock [OF K_unlock] by simp
next
  case (K_call xs fin)
  then show "qmove M_cons s = Some t \<Longrightarrow> qstep s t"
    using cons_finish [of s fin] by (cases xs) (auto intro: cons_call)
qed (auto split: if_splits intro: cons_lock)

lemma qmove_step: "qmove m s = Some t \<Longrightarrow> qstep s t"
proof (cases m)
  case (M_prod i x)
  moreover assume "qmove m s = Some t"
  ultimately show ?thesis by (simp only: qmove_prod_step)
next
  case M_close
  moreover assume "qmove m s = Some t"
  ultimately show ?thesis
    using close_cas [of s] by (auto split: close_pc.splits intro: close_wake close_quit)
next
  case M_cons
  moreover assume "qmove m s = Some t"
  ultimately show ?thesis by (simp only: qmove_cons_step)
qed (auto split: option.splits if_splits intro: cons_sig cons_quit)

lemma qrun_reach: "qreach grow sz maxSize s \<Longrightarrow> qrun ms s = Some t \<Longrightarrow> qreach grow sz maxSize t"
  by (induction ms arbitrary: s) (auto split: option.splits dest: qmove_step intro: qreach.step)

lemmas qrun_eval = qinit_def NewSwapQueue_def set_prod_def push_body_def append_write_def
  Wake_def recv_Sig_def Range_swap_def Range_finish_def

subsection \<open>Properties\<close>

text \<open>
  C2. Exactly-once delivery, shutdown included: in every reachable state the accepted elements
  are the delivered ones followed by those in the consumer's hands and those still queued, in
  that order; once the consumer has stopped after a \<open>Close\<close>, every accepted element has been
  delivered, even one whose push was between its check of \<open>closed\<close> and its append when the flag
  was set.
\<close>

theorem close_loses_nothing:
  assumes "qreach grow sz maxSize s"
  shows "qs_accepted s = qs_delivered s @ taken (qs_cons s) @ sq_write (qs_q s)
    \<and> (qs_cons s = K_stop \<longrightarrow> qs_delivered s = qs_accepted s)"
  using qreach_inv [OF assms] by (auto simp: conc_inv_def fifo_inv_def close_inv_def)

text \<open>A push caught between its check and its append by a concurrent close.\<close>

definition race_moves :: "nat move list" where
  "race_moves =
     [M_prod 0 7, M_prod 0 7, M_prod 0 7, M_close, M_close, M_close, M_quit,
      M_prod 0 7, M_prod 0 7, M_cons, M_cons, M_cons, M_cons, M_cons]"

theorem close_loses_nothing_witness:
  "\<exists>s. qrun race_moves (qinit Suc 1 1) = Some s \<and> qs_cons s = K_stop
     \<and> qs_accepted s = [7] \<and> qs_delivered s = [7]"
proof -
  obtain s where s: "qrun race_moves (qinit Suc 1 1) = Some s" "qs_cons s = K_stop" "qs_accepted s = [7]"
    by (simp add: race_moves_def qrun_eval)
  from qrun_reach [OF qreach.start s(1)] have "qs_delivered s = qs_accepted s"
    using close_loses_nothing [of Suc 1 1 s] s(2) by blast
  with s show ?thesis by metis
qed

text \<open>
  C3. No lost wake-up: whenever the consumer waits at its \<open>select\<close> while elements are queued,
  the signal is set or a producer that appended is still on its way to set it.
\<close>

theorem no_lost_wakeup:
  assumes "qreach grow sz maxSize s" and "qs_cons s = K_select" and "sq_write (qs_q s) \<noteq> []"
  shows "sq_sig (qs_q s) \<or> (\<exists>i. qs_prod s i \<in> {P_unlock None, P_wake None})"
  using qreach_inv [OF assms(1)] assms(2,3) by (simp add: conc_inv_def wake_inv_def will_wake_def)

theorem no_lost_wakeup_witness:
  "\<exists>s. qrun (replicate 5 (M_prod 0 (7::nat))) (qinit Suc 1 1) = Some s
     \<and> sq_write (qs_q s) = [7] \<and> \<not> sq_sig (qs_q s) \<and> (\<exists>i. qs_prod s i \<in> {P_unlock None, P_wake None})"
proof -
  obtain s where s: "qrun (replicate 5 (M_prod 0 (7::nat))) (qinit Suc 1 1) = Some s"
    "qs_cons s = K_select" "sq_write (qs_q s) = [7]" "\<not> sq_sig (qs_q s)"
    by (simp add: numeral_eq_Suc qrun_eval)
  from qrun_reach [OF qreach.start s(1)] have "\<exists>i. qs_prod s i \<in> {P_unlock None, P_wake None}"
    using no_lost_wakeup [of Suc 1 1 s] s(2-4) by force
  with s show ?thesis by metis
qed

end
