(* ===== verification/Bytes.thy ===== *)
theory Bytes
  imports Base "HOL-Library.Monad_Syntax"
begin

text \<open>
  What the source uses of Go's \<^verbatim>\<open>encoding/binary\<close> and of slices: fixed-width integers read and
  written in little-endian and big-endian order, a write at an offset, \<^verbatim>\<open>copy\<close>.  An index or a slice
  bound out of range panics; here a panic is the value \<^const>\<open>None\<close>.
\<close>

fun le_bytes :: "nat \<Rightarrow> 'a::len word \<Rightarrow> bytes" where
  "le_bytes 0 w = []"
| "le_bytes (Suc n) w = ucast w # le_bytes n (drop_bit 8 w)"

fun le_value :: "bytes \<Rightarrow> 'a::len word" where
  "le_value [] = 0"
| "le_value (b # bs) = ucast b OR push_bit 8 (le_value bs)"

lemma length_le_bytes [simp]: "length (le_bytes n w) = n"
  by (induction n arbitrary: w) auto

lemma le_value_bytes: "le_value (le_bytes n w) = take_bit (8 * n) w"
proof (induction n arbitrary: w)
  case (Suc n)
  have "ucast (ucast w :: u8) OR push_bit 8 (take_bit (8 * n) (drop_bit 8 w)) = take_bit (8 * Suc n) w"
    by (rule bit_word_eqI) (auto simp: bit_simps)
  then show ?case
    by (simp add: Suc)
qed simp

lemma ucast_take_bit_u8: "8 \<le> m \<Longrightarrow> ucast (take_bit m w) = (ucast w :: u8)"
  by (rule bit_word_eqI) (simp add: bit_simps)

lemma le_bytes_take_bit: "8 * k \<le> m \<Longrightarrow> le_bytes k (take_bit m w) = le_bytes k w"
proof (induction k arbitrary: m w)
  case (Suc k)
  then show ?case
    using Suc.IH [of "m - 8" "drop_bit 8 w"] by (simp add: drop_bit_take_bit ucast_take_bit_u8)
qed simp

lemma le_bytes_value: "8 * length bs \<le> LENGTH('a::len) \<Longrightarrow> le_bytes (length bs) (le_value bs :: 'a word) = bs"
proof (induction bs)
  case (Cons b bs)
  have no_bit: "\<not> bit b (n + 8)" for n
    using bit_imp_le_length [of b "n + 8"] by auto
  have "ucast (ucast b OR push_bit 8 (le_value bs) :: 'a word) = b"
    using Cons.prems by (intro bit_word_eqI) (auto simp: bit_simps)
  moreover have "drop_bit 8 (ucast b OR push_bit 8 (le_value bs) :: 'a word) = take_bit (LENGTH('a) - 8) (le_value bs)"
    using Cons.prems no_bit by (intro bit_word_eqI) (simp add: bit_simps less_diff_conv add.commute)
  ultimately show ?case
    using Cons by (simp add: le_bytes_take_bit)
qed simp

definition put_le32 :: "u32 \<Rightarrow> bytes" where
  "put_le32 w = le_bytes 4 w"

definition put_le64 :: "u64 \<Rightarrow> bytes" where
  "put_le64 w = le_bytes 8 w"

definition put_be32 :: "u32 \<Rightarrow> bytes" where
  "put_be32 w = rev (le_bytes 4 w)"

definition get_le32 :: "bytes \<Rightarrow> u32 option" where
  "get_le32 bs = (if length bs < 4 then None else Some (le_value (take 4 bs)))"

definition get_le64 :: "bytes \<Rightarrow> u64 option" where
  "get_le64 bs = (if length bs < 8 then None else Some (le_value (take 8 bs)))"

definition get_be32 :: "bytes \<Rightarrow> u32 option" where
  "get_be32 bs = (if length bs < 4 then None else Some (le_value (rev (take 4 bs))))"

definition get_u8 :: "bytes \<Rightarrow> nat \<Rightarrow> u8 option" where
  "get_u8 bs i = (if i < length bs then Some (bs ! i) else None)"

definition put_at :: "nat \<Rightarrow> bytes \<Rightarrow> bytes \<Rightarrow> bytes option" where
  "put_at off bs dst =
     (if off + length bs \<le> length dst
      then Some (take off dst @ bs @ drop (off + length bs) dst) else None)"

definition copy_at :: "nat \<Rightarrow> bytes \<Rightarrow> bytes \<Rightarrow> bytes option" where
  "copy_at off src dst =
     (if off \<le> length dst
      then Some (take off dst @ take (length dst - off) src @ drop (off + length src) dst) else None)"

lemma length_put [simp]:
  "length (put_le32 w) = 4" "length (put_le64 x) = 8" "length (put_be32 w) = 4"
  by (simp_all add: put_le32_def put_le64_def put_be32_def)

lemma get_put_le32 [codec_simps]: "get_le32 (put_le32 w @ bs) = Some w"
  by (simp add: get_le32_def put_le32_def le_value_bytes take_bit_word_eq_self)

lemma get_put_le64 [codec_simps]: "get_le64 (put_le64 w @ bs) = Some w"
  by (simp add: get_le64_def put_le64_def le_value_bytes take_bit_word_eq_self)

lemma get_put_be32 [codec_simps]: "get_be32 (put_be32 w @ bs) = Some w"
  by (simp add: get_be32_def put_be32_def le_value_bytes take_bit_word_eq_self)

lemma get_u8_append [codec_simps]:
  "get_u8 (xs @ ys) i = (if i < length xs then Some (xs ! i) else get_u8 ys (i - length xs))"
  by (auto simp: get_u8_def nth_append)

lemma get_u8_Cons [codec_simps]:
  "get_u8 (x # ys) i = (if i = 0 then Some x else get_u8 ys (i - 1))"
  by (cases i) (auto simp: get_u8_def)

lemma get_short [codec_simps]:
  "length bs < 4 \<Longrightarrow> get_le32 bs = None" "length bs < 8 \<Longrightarrow> get_le64 bs = None"
  "length bs < 4 \<Longrightarrow> get_be32 bs = None"
  by (simp_all add: get_le32_def get_le64_def get_be32_def)

lemma get_long [codec_simps]:
  "4 \<le> length bs \<Longrightarrow> get_le32 bs = Some (le_value (take 4 bs))"
  "8 \<le> length bs \<Longrightarrow> get_le64 bs = Some (le_value (take 8 bs))"
  "4 \<le> length bs \<Longrightarrow> get_be32 bs = Some (le_value (rev (take 4 bs)))"
  "i < length bs \<Longrightarrow> get_u8 bs i = Some (bs ! i)"
  by (simp_all add: get_le32_def get_le64_def get_be32_def get_u8_def)

text \<open>A value below \<^verbatim>\<open>2^32\<close> survives the conversion to \<^verbatim>\<open>uint32\<close>.\<close>

lemma unat_of_nat_u32: "n < 2 ^ 32 \<Longrightarrow> unat (word_of_nat n :: u32) = n"
  by (simp add: unat_of_nat take_bit_nat_eq_self_iff)

end
