(* ===== verification/Frame.thy ===== *)
theory Frame
  imports Bytes
begin

text \<open>
  The wire format of \<^verbatim>\<open>src/pkg/gnet/gmsg/message.go\<close>: the fixed head, a frame
  (a four-byte length, the head, the body) and the loop that decodes a batch of frames, with the
  counters of \<^verbatim>\<open>src/pkg/gnet/gmetrics/metrics.go\<close> that the loop updates.
\<close>

section \<open>Head and message\<close>

definition Normal :: u8 where "Normal = 0"
definition Forward :: u8 where "Forward = 1"
definition Broadcast :: u8 where "Broadcast = 2"

definition FrameLenSize :: nat where "FrameLenSize = 4"
definition FrameBodyHeadSize :: nat where "FrameBodyHeadSize = 4 + 8 + 8 + 1 + 1 + 1 + 1 + 1"

record head =
  ActorID :: u64
  SesID :: u64
  MsgID :: u32
  Flag :: u8
  FromSer :: u8
  FromSerID :: u8
  ToSer :: u8
  ToSerID :: u8

record 'u message =
  Head :: head
  Data :: bytes
  U :: "'u option"
  reply :: string

definition SetReply :: "'u message \<Rightarrow> string \<Rightarrow> 'u message" where
  "SetReply s str = s\<lparr>reply := str\<rparr>"

definition Reply :: "'u message \<Rightarrow> string" where
  "Reply s = reply s"

datatype decode_err = Err_head_small | Err_missing_length | Err_sub_small

definition Head_EncodeTo :: "head \<Rightarrow> bytes \<Rightarrow> nat \<Rightarrow> bytes option" where
  "Head_EncodeTo h dst bodySize = do {
     dst \<leftarrow> put_at 0 (put_le32 (word_of_nat bodySize)) dst;
     dst \<leftarrow> put_at 4 (put_le32 (MsgID h)) dst;
     dst \<leftarrow> put_at 8 (put_le64 (ActorID h)) dst;
     dst \<leftarrow> put_at 16 (put_le64 (SesID h)) dst;
     dst \<leftarrow> put_at 24 [FromSer h] dst;
     dst \<leftarrow> put_at 25 [FromSerID h] dst;
     dst \<leftarrow> put_at 26 [ToSer h] dst;
     dst \<leftarrow> put_at 27 [ToSerID h] dst;
     put_at 28 [Flag h] dst
   }"

definition Head_Decode :: "bytes \<Rightarrow> (decode_err + head) option" where
  "Head_Decode buf =
     (if length buf < FrameBodyHeadSize then Some (Inl Err_head_small)
      else do {
        msgID \<leftarrow> get_le32 buf;
        actorID \<leftarrow> get_le64 (drop 4 buf);
        sesID \<leftarrow> get_le64 (drop 12 buf);
        fromSer \<leftarrow> get_u8 buf 20;
        fromSerID \<leftarrow> get_u8 buf 21;
        toSer \<leftarrow> get_u8 buf 22;
        toSerID \<leftarrow> get_u8 buf 23;
        flag \<leftarrow> get_u8 buf 24;
        Some (Inr \<lparr>ActorID = actorID, SesID = sesID, MsgID = msgID, Flag = flag, FromSer = fromSer,
                   FromSerID = fromSerID, ToSer = toSer, ToSerID = toSerID\<rparr>)
      })"

definition Message_EncodeTo :: "'u message \<Rightarrow> bytes \<Rightarrow> nat \<Rightarrow> bytes option" where
  "Message_EncodeTo s dst bodySize = do {
     dst \<leftarrow> Head_EncodeTo (Head s) dst bodySize;
     copy_at (FrameLenSize + FrameBodyHeadSize) (Data s) dst
   }"

definition Message_Decode :: "bytes \<Rightarrow> (decode_err + 'u message) option" where
  "Message_Decode buf =
     (if length buf < FrameBodyHeadSize then Some (Inl Err_head_small)
      else do {
        r \<leftarrow> Head_Decode buf;
        Some (case r of
            Inl err \<Rightarrow> Inl err
          | Inr h \<Rightarrow> Inr \<lparr>Head = h, Data = drop FrameBodyHeadSize buf, U = None, reply = []\<rparr>)
      })"

section \<open>Receive-side counters\<close>

record sub_metrics =
  Subject :: string
  DecodeErr :: nat
  MsgCounters :: "u32 \<rightharpoonup> nat"

definition NewSubMetrics :: "string \<Rightarrow> sub_metrics" where
  "NewSubMetrics subject = \<lparr>Subject = subject, DecodeErr = 0, MsgCounters = Map.empty\<rparr>"

definition GetSubMetrics :: "(string \<rightharpoonup> sub_metrics) \<Rightarrow> string \<Rightarrow> (string \<rightharpoonup> sub_metrics) \<times> sub_metrics" where
  "GetSubMetrics m subject = (case m subject of
       Some sm \<Rightarrow> (m, sm)
     | None \<Rightarrow> let sm = NewSubMetrics subject in (m(subject \<mapsto> sm), sm))"

definition GetMsgCounter :: "sub_metrics \<Rightarrow> u32 \<Rightarrow> sub_metrics \<times> nat" where
  "GetMsgCounter sm msgID = (case MsgCounters sm msgID of
       Some c \<Rightarrow> (sm, c)
     | None \<Rightarrow> (sm\<lparr>MsgCounters := (MsgCounters sm)(msgID \<mapsto> 0)\<rparr>, 0))"

definition inc_msg :: "sub_metrics \<Rightarrow> u32 \<Rightarrow> sub_metrics" where
  "inc_msg sm msgID = (let (sm, c) = GetMsgCounter sm msgID
     in sm\<lparr>MsgCounters := (MsgCounters sm)(msgID \<mapsto> Suc c)\<rparr>)"

definition inc_err :: "sub_metrics \<Rightarrow> sub_metrics" where
  "inc_err sm = sm\<lparr>DecodeErr := Suc (DecodeErr sm)\<rparr>"

section \<open>The batch decoder\<close>

text \<open>
  \<^verbatim>\<open>rest\<close> is \<^verbatim>\<open>buf[offset:]\<close>; the loop state is the subject's counters and the state the callback
  works on.
\<close>

function decode_loop ::
  "bytes \<Rightarrow> string \<Rightarrow> ('u message \<Rightarrow> 's \<Rightarrow> 's) \<Rightarrow> sub_metrics \<times> 's \<Rightarrow> ((sub_metrics \<times> 's) \<times> decode_err option) option"
where
  "decode_loop rest rep callback (sm, s) =
     (if rest = [] then Some ((sm, s), None)
      else if length rest < 4 then Some ((inc_err sm, s), Some Err_missing_length)
      else do {
        n \<leftarrow> get_le32 rest;
        let subSize = unat n;
        let rest1 = drop 4 rest;
        if length rest1 < subSize then Some ((inc_err sm, s), Some Err_sub_small)
        else do {
          r \<leftarrow> Message_Decode (take subSize rest1);
          case r of
            Inl err \<Rightarrow> decode_loop (drop subSize rest1) rep callback (inc_err sm, s)
          | Inr msg \<Rightarrow> decode_loop (drop subSize rest1) rep callback
              (inc_msg sm (MsgID (Head msg)), callback (SetReply msg rep) s)
        }
      })"
  by pat_completeness auto
termination
  by (relation "measure (\<lambda>(rest, _, _, _). length rest)") auto

declare decode_loop.simps [simp del]

definition DecodeManyAndHandle ::
  "bytes \<Rightarrow> string \<Rightarrow> string \<Rightarrow> ('u message \<Rightarrow> 's \<Rightarrow> 's) \<Rightarrow> (string \<rightharpoonup> sub_metrics) \<times> 's \<Rightarrow>
     (((string \<rightharpoonup> sub_metrics) \<times> 's) \<times> decode_err option) option"
where
  "DecodeManyAndHandle buf subName rep callback = (\<lambda>(m, s). do {
     let (m, sm) = GetSubMetrics m subName;
     ((sm, s), err) \<leftarrow> decode_loop buf rep callback (sm, s);
     Some ((m(subName \<mapsto> sm), s), err)
   })"


section \<open>Frames\<close>

definition head_bytes :: "head \<Rightarrow> bytes" where
  "head_bytes h = put_le32 (MsgID h) @ put_le64 (ActorID h) @ put_le64 (SesID h) @
     [FromSer h, FromSerID h, ToSer h, ToSerID h, Flag h]"

definition frame :: "'u message \<Rightarrow> bytes" where
  "frame m = put_le32 (word_of_nat (FrameBodyHeadSize + length (Data m))) @ head_bytes (Head m) @ Data m"

definition frame_fits :: "'u message \<Rightarrow> bool" where
  "frame_fits m = (FrameBodyHeadSize + length (Data m) < 2 ^ 32)"

definition received :: "string \<Rightarrow> 'u message \<Rightarrow> 'v message" where
  "received rep m = \<lparr>Head = Head m, Data = Data m, U = None, reply = rep\<rparr>"

lemma length_head_bytes [simp]: "length (head_bytes h) = 25"
  by (simp add: head_bytes_def)

lemma length_frame [simp]: "length (frame m) = 29 + length (Data m)"
  by (simp add: frame_def)

lemma put_at_0: "length bs \<le> length dst \<Longrightarrow> put_at 0 bs dst = Some (bs @ drop (length bs) dst)"
  by (simp add: put_at_def)

lemma put_at_prefix:
  "length pre = off \<Longrightarrow> off + length bs \<le> length dst \<Longrightarrow>
   put_at off bs (pre @ drop off dst) = Some ((pre @ bs) @ drop (off + length bs) dst)"
  by (simp add: put_at_def add.commute)

lemma put_at_length: "put_at off bs dst = Some d \<Longrightarrow> length d = length dst \<and> off + length bs \<le> length dst"
  by (auto simp: put_at_def split: if_splits)

lemma SetReply_fields [simp]:
  "frame (SetReply m r) = frame m" "frame_fits (SetReply m r) = frame_fits m" "reply (SetReply m r) = r"
  by (simp_all add: SetReply_def frame_def frame_fits_def)

lemma Head_EncodeTo_eq [codec_simps]:
  "29 \<le> length dst \<Longrightarrow> Head_EncodeTo h dst n = Some (put_le32 (word_of_nat n) @ head_bytes h @ drop 29 dst)"
  unfolding Head_EncodeTo_def by (simp add: put_at_0 put_at_prefix del: append_assoc) (simp add: head_bytes_def)

lemma Head_EncodeTo_panic: "length dst < 29 \<Longrightarrow> Head_EncodeTo h dst n = None"
proof (rule ccontr)
  assume short: "length dst < 29" and "Head_EncodeTo h dst n \<noteq> None"
  then obtain d where "Head_EncodeTo h dst n = Some d"
    by auto
  then have "29 \<le> length dst"
    unfolding Head_EncodeTo_def bind_eq_Some_conv by (elim exE conjE) (drule put_at_length, simp)+
  then show False
    using short by simp
qed

lemma Message_EncodeTo_frame:
  "length dst = FrameLenSize + (FrameBodyHeadSize + length (Data m)) \<Longrightarrow>
   Message_EncodeTo m dst (FrameBodyHeadSize + length (Data m)) = Some (frame m)"
  by (simp add: Message_EncodeTo_def FrameLenSize_def FrameBodyHeadSize_def codec_simps copy_at_def frame_def)

lemma Head_Decode_bytes [codec_simps]: "Head_Decode (head_bytes h @ data) = Some (Inr h)"
  by (simp add: Head_Decode_def FrameBodyHeadSize_def head_bytes_def codec_simps)

lemma Message_Decode_bytes [codec_simps]:
  "Message_Decode (head_bytes h @ data) = Some (Inr \<lparr>Head = h, Data = data, U = None, reply = []\<rparr>)"
  by (simp add: Message_Decode_def codec_simps FrameBodyHeadSize_def)


section \<open>Decoding concatenated frames\<close>

definition deliver :: "string \<Rightarrow> ('v message \<Rightarrow> 's \<Rightarrow> 's) \<Rightarrow> 'u message \<Rightarrow> sub_metrics \<times> 's \<Rightarrow> sub_metrics \<times> 's" where
  "deliver rep callback m = (\<lambda>(sm, s). (inc_msg sm (MsgID (Head m)), callback (received rep m) s))"

lemma decode_loop_empty [simp]: "decode_loop [] rep callback st = Some (st, None)"
  by (cases st) (simp add: decode_loop.simps)

lemma Head_Decode_total: "\<exists>r. Head_Decode buf = Some r"
  by (simp add: Head_Decode_def FrameBodyHeadSize_def codec_simps)

lemma Message_Decode_total: "\<exists>r. Message_Decode buf = Some r"
  using Head_Decode_total [of buf] by (auto simp: Message_Decode_def)

lemma decode_loop_missing:
  "rest \<noteq> [] \<Longrightarrow> length rest < 4 \<Longrightarrow> decode_loop rest rep callback (sm, s) = Some ((inc_err sm, s), Some Err_missing_length)"
  by (simp add: decode_loop.simps)

lemma decode_loop_small:
  "get_le32 rest = Some n \<Longrightarrow> length rest - 4 < unat n \<Longrightarrow>
   decode_loop rest rep callback (sm, s) = Some ((inc_err sm, s), Some Err_sub_small)"
  by (subst decode_loop.simps) (auto simp: get_le32_def split: if_splits)

lemma decode_loop_more:
  "get_le32 rest = Some n \<Longrightarrow> unat n \<le> length rest - 4 \<Longrightarrow> Message_Decode (take (unat n) (drop 4 rest)) = Some r \<Longrightarrow>
   decode_loop rest rep callback (sm, s) = decode_loop (drop (4 + unat n) rest) rep callback
     (case r of Inl err \<Rightarrow> (inc_err sm, s)
      | Inr msg \<Rightarrow> (inc_msg sm (MsgID (Head msg)), callback (SetReply msg rep) s))"
  by (subst decode_loop.simps) (auto simp: get_le32_def Let_def add.commute split: if_splits sum.split)

lemma decode_loop_cases [case_names empty missing small more]:
  fixes rest :: bytes
  obtains "rest = []"
  | "rest \<noteq> []" "length rest < 4"
  | n where "get_le32 rest = Some n" "length rest - 4 < unat n"
  | n r where "get_le32 rest = Some n" "4 \<le> length rest" "unat n \<le> length rest - 4"
      "(Message_Decode (take (unat n) (drop 4 rest)) :: (decode_err + 'u message) option) = Some r"
  using Message_Decode_total by (metis get_long(1) not_le_imp_less)

lemma decode_loop_total: "\<exists>st' err. decode_loop rest rep (callback :: 'u message \<Rightarrow> 's \<Rightarrow> 's) st = Some (st', err)"
proof (induction rest arbitrary: st rule: length_induct)
  case (1 rest)
  obtain sm s where st: "st = (sm, s)"
    by (cases st)
  show ?case
  proof (cases rest rule: decode_loop_cases [where 'u = 'u])
    case (more n r)
    then show ?thesis
      unfolding st decode_loop_more [OF more(1,3,4)] by (intro 1 [rule_format]) simp
  qed (auto simp: st decode_loop_missing decode_loop_small)
qed

lemma decode_loop_frame:
  assumes "frame_fits m"
  shows "decode_loop (frame m @ rest) rep callback st = decode_loop rest rep callback (deliver rep callback m st)"
proof -
  obtain sm s where st: "st = (sm, s)"
    by (cases st)
  define n where "n = (word_of_nat (25 + length (Data m)) :: u32)"
  have size: "unat n = 25 + length (Data m)"
    unfolding n_def using assms by (intro unat_of_nat_u32) (simp add: frame_fits_def FrameBodyHeadSize_def)
  have len: "get_le32 (frame m @ rest) = Some n"
    by (simp add: frame_def get_put_le32 FrameBodyHeadSize_def n_def)
  have enough: "unat n \<le> length (frame m @ rest) - 4"
    by (simp add: size)
  have msg: "Message_Decode (take (unat n) (drop 4 (frame m @ rest))) =
      Some (Inr \<lparr>Head = Head m, Data = Data m, U = None, reply = []\<rparr>)"
    by (simp add: size frame_def Message_Decode_bytes)
  have "drop (4 + unat n) (frame m @ rest) = rest"
    by (simp add: size frame_def)
  then show ?thesis
    unfolding st decode_loop_more [OF len enough msg] by (simp add: deliver_def received_def SetReply_def)
qed

lemma decode_loop_frames:
  "\<forall>m \<in> set ms. frame_fits m \<Longrightarrow>
   decode_loop (concat (map frame ms) @ rest) rep callback st =
   decode_loop rest rep callback (fold (deliver rep callback) ms st)"
  by (induction ms arbitrary: st) (auto simp: decode_loop_frame)

lemma length_concat_frames: "length (concat (map frame ms)) = (\<Sum>m\<leftarrow>ms. 29 + length (Data m))"
  by (induction ms) auto


text \<open>Counters and deliveries of a run of complete frames.\<close>

lemma inc_msg_fields [simp]:
  "DecodeErr (inc_msg sm i) = DecodeErr sm" "Subject (inc_msg sm i) = Subject sm"
  by (auto simp: inc_msg_def GetMsgCounter_def split: option.splits prod.splits)

lemma inc_err_fields [simp]: "DecodeErr (inc_err sm) = Suc (DecodeErr sm)" "MsgCounters (inc_err sm) = MsgCounters sm"
  by (simp_all add: inc_err_def)

definition counter :: "sub_metrics \<Rightarrow> u32 \<Rightarrow> nat" where
  "counter sm i = (case MsgCounters sm i of None \<Rightarrow> 0 | Some c \<Rightarrow> c)"

lemma counter_inc_msg: "counter (inc_msg sm i) j = counter sm j + (if i = j then 1 else 0)"
  by (auto simp: counter_def inc_msg_def GetMsgCounter_def split: option.splits)

lemma fold_deliver:
  "fold (deliver rep callback) ms (sm, s) =
     (fold (\<lambda>m sm. inc_msg sm (MsgID (Head m))) ms sm, fold (\<lambda>m. callback (received rep m)) ms s)"
  by (induction ms arbitrary: sm s) (auto simp: deliver_def)

lemma decode_many_frames:
  assumes "\<forall>m \<in> set ms. frame_fits m"
  shows "\<exists>M'. DecodeManyAndHandle (concat (map frame ms)) sub rep callback (M, s) =
    Some ((M', fold (\<lambda>m. callback (received rep m)) ms s), None)"
  using decode_loop_frames [OF assms, of "[]" rep callback "(snd (GetSubMetrics M sub), s)"]
  by (cases "GetSubMetrics M sub") (simp add: DecodeManyAndHandle_def fold_deliver)

lemma fold_inc_msg:
  "DecodeErr (fold (\<lambda>m sm. inc_msg sm (MsgID (Head m))) ms sm) = DecodeErr sm"
  "counter (fold (\<lambda>m sm. inc_msg sm (MsgID (Head m))) ms sm) j =
     counter sm j + length (filter (\<lambda>m. MsgID (Head m) = j) ms)"
  by (induction ms arbitrary: sm) (auto simp: counter_inc_msg)

lemma GetSubMetrics_hit: "GetSubMetrics m sub = (m', sm) \<Longrightarrow> m' sub = Some sm \<and> (\<forall>k. k \<noteq> sub \<longrightarrow> m' k = m k)"
  by (auto simp: GetSubMetrics_def Let_def split: option.splits)

text \<open>
  The decoder as the inverse of the encoder: whatever it accepts without counting an error is the
  concatenation of the frames of the messages it delivered.
\<close>

lemma take_25_pieces:
  assumes "25 \<le> length buf"
  shows "take 25 buf = take 4 buf @ take 8 (drop 4 buf) @ take 8 (drop 12 buf) @
    [buf ! 20, buf ! 21, buf ! 22, buf ! 23, buf ! 24]"
proof -
  have "take 20 buf = take 4 buf @ take 8 (drop 4 buf) @ take 8 (drop 12 buf)"
    using take_add [of 4 8 buf] take_add [of 12 8 buf] by simp
  moreover have "take 21 buf = take 20 buf @ [buf ! 20]" "take 22 buf = take 21 buf @ [buf ! 21]"
    "take 23 buf = take 22 buf @ [buf ! 22]" "take 24 buf = take 23 buf @ [buf ! 23]"
    "take 25 buf = take 24 buf @ [buf ! 24]"
    using assms take_Suc_conv_app_nth [of 20 buf] take_Suc_conv_app_nth [of 21 buf] take_Suc_conv_app_nth [of 22 buf]
      take_Suc_conv_app_nth [of 23 buf] take_Suc_conv_app_nth [of 24 buf] by simp_all
  ultimately show ?thesis
    by simp
qed

lemma put_get_le:
  "length bs = 4 \<Longrightarrow> put_le32 (le_value bs) = bs" "length bs = 8 \<Longrightarrow> put_le64 (le_value bs) = bs"
  using le_bytes_value [of bs, where 'a = 32] le_bytes_value [of bs, where 'a = 64]
  by (simp_all add: put_le32_def put_le64_def)

lemma Head_Decode_canonical:
  "Head_Decode buf = Some (Inr h) \<Longrightarrow> head_bytes h = take 25 buf \<and> 25 \<le> length buf"
  by (auto simp: Head_Decode_def FrameBodyHeadSize_def head_bytes_def codec_simps take_25_pieces put_get_le
      split: if_splits)

lemma Message_Decode_canonical:
  assumes "Message_Decode buf = Some (Inr m)"
  shows "buf = head_bytes (Head m) @ Data m \<and> U m = None"
proof -
  obtain h where h: "Head_Decode buf = Some (Inr h)" "m = \<lparr>Head = h, Data = drop 25 buf, U = None, reply = []\<rparr>"
    using assms Head_Decode_total [of buf] by (cases "the (Head_Decode buf)")
      (auto simp: Message_Decode_def FrameBodyHeadSize_def split: if_splits)
  then show ?thesis
    using Head_Decode_canonical [OF h(1)] by simp
qed

lemma DecodeErr_mono:
  "decode_loop rest rep (callback :: 'u message \<Rightarrow> 's \<Rightarrow> 's) (sm, s) = Some ((sm', s'), err) \<Longrightarrow>
   DecodeErr sm + (if err = None then 0 else 1) \<le> DecodeErr sm'"
proof (induction rest arbitrary: sm s rule: length_induct)
  case (1 rest)
  show ?case
  proof (cases rest rule: decode_loop_cases [where 'u = 'u])
    case (more n r)
    have "length (drop (4 + unat n) rest) < length rest"
      using more by simp
    note IH = 1(1) [rule_format, OF this]
    show ?thesis
      using 1(2) unfolding decode_loop_more [OF more(1,3,4)]
      by (auto split: sum.splits dest!: IH)
  qed (use 1(2) in \<open>auto simp: decode_loop_missing decode_loop_small\<close>)
qed

lemma frame_of_piece:
  assumes "get_le32 rest = Some n" "unat n \<le> length rest - 4"
    "Message_Decode (take (unat n) (drop 4 rest)) = Some (Inr m)"
  shows "rest = frame m @ drop (4 + unat n) rest" "frame_fits m"
proof -
  have piece: "take (unat n) (drop 4 rest) = head_bytes (Head m) @ Data m"
    using Message_Decode_canonical [OF assms(3)] by simp
  have "length (take (unat n) (drop 4 rest)) = unat n"
    using assms(2) by simp
  then have len: "unat n = 25 + length (Data m)"
    unfolding piece by simp
  have four: "4 \<le> length rest" and n: "n = le_value (take 4 rest)"
    using assms(1) by (auto simp: get_le32_def split: if_splits)
  have "word_of_nat (25 + length (Data m)) = n"
    by (simp flip: len)
  then have "put_le32 (word_of_nat (25 + length (Data m))) = take 4 rest"
    using four n put_get_le(1) [of "take 4 rest"] by simp
  then have "frame m = take (4 + unat n) rest"
    unfolding frame_def FrameBodyHeadSize_def take_add by (simp add: piece)
  then show "rest = frame m @ drop (4 + unat n) rest"
    by simp
  show "frame_fits m"
    using unsigned_less [of n, where ?'a = nat] by (simp add: frame_fits_def FrameBodyHeadSize_def len)
qed

definition gather :: "'u message \<Rightarrow> 'u message list \<Rightarrow> 'u message list" where
  "gather m ms = ms @ [m]"

lemma decode_loop_canonical:
  "decode_loop rest rep (gather :: 'u message \<Rightarrow> 'u message list \<Rightarrow> 'u message list) (sm, acc) = Some ((sm', ms), None) \<Longrightarrow>
   DecodeErr sm' = DecodeErr sm \<Longrightarrow>
   \<exists>new. ms = acc @ new \<and> rest = concat (map frame new) \<and> (\<forall>m \<in> set new. frame_fits m \<and> reply m = rep)"
proof (induction rest arbitrary: sm acc rule: length_induct)
  case (1 rest)
  show ?case
  proof (cases rest rule: decode_loop_cases [where 'u = 'u])
    case (more n r)
    have shorter: "length (drop (4 + unat n) rest) < length rest"
      using more by simp
    note run = 1(2) [unfolded decode_loop_more [OF more(1,3,4)]]
    show ?thesis
    proof (cases r)
      case (Inl err)
      then show ?thesis
        using run 1(3) DecodeErr_mono [of "drop (4 + unat n) rest" rep gather "inc_err sm" acc sm' ms None] by simp
    next
      case (Inr m)
      let ?m = "SetReply m rep"
      have "\<exists>new. ms = gather ?m acc @ new \<and> drop (4 + unat n) rest = concat (map frame new) \<and>
          (\<forall>m \<in> set new. frame_fits m \<and> reply m = rep)"
        using run 1(3) 
        by (intro 1(1) [rule_format, OF shorter, of "inc_msg sm (MsgID (Head m))"]) (simp_all add: Inr)
      then obtain new where new: "ms = gather ?m acc @ new" "drop (4 + unat n) rest = concat (map frame new)"
        "\<forall>m \<in> set new. frame_fits m \<and> reply m = rep"
        by blast
      have "rest = frame m @ concat (map frame new)" "frame_fits m"
        using frame_of_piece [OF more(1,3)] more(4) Inr new(2) by auto
      then show ?thesis
        using new by (intro exI [of _ "?m # new"]) (simp add: gather_def)
    qed
  qed (use 1(2) in \<open>auto simp: decode_loop_missing decode_loop_small\<close>)
qed

lemma decode_loop_cut:
  assumes "frame_fits m" "0 < k" "k < length (frame m)"
  shows "\<exists>err. decode_loop (take k (frame m)) rep callback (sm, s) = Some ((inc_err sm, s), Some err)"
proof (cases "k < 4")
  case True
  then show ?thesis
    using assms by (subst decode_loop_missing) (auto simp flip: length_0_conv)
next
  case False
  define n where "n = (word_of_nat (25 + length (Data m)) :: u32)"
  have size: "unat n = 25 + length (Data m)"
    unfolding n_def using assms(1) by (intro unat_of_nat_u32) (simp add: frame_fits_def FrameBodyHeadSize_def)
  have "get_le32 (take k (frame m)) = Some n"
    using False by (simp add: frame_def get_put_le32 FrameBodyHeadSize_def n_def)
  moreover have "length (take k (frame m)) - 4 < unat n"
    using assms(3) False by (simp add: size)
  ultimately show ?thesis
    by (simp add: decode_loop_small)
qed

section \<open>Properties\<close>

text \<open>
  C4. A batch of frames is decoded completely and in order: on the bytes of any sequence of messages
  (each body shorter than the 32-bit length field allows) the decoder calls the callback once per
  message, in the order of the batch, with the head and the body unchanged, no local object and the
  reply subject of the packet; it reports no error, counts no decode error, and adds to the counter of
  each message number exactly the number of messages with that number.
\<close>

theorem batch_roundtrip:
  assumes "\<forall>m \<in> set ms. frame_fits m"
  shows "\<exists>sm'. DecodeManyAndHandle (concat (map frame ms)) sub rep callback (M, s) =
       Some ((M(sub \<mapsto> sm'), fold (\<lambda>m. callback (received rep m)) ms s), None) \<and>
     DecodeErr sm' = DecodeErr (snd (GetSubMetrics M sub)) \<and>
     (\<forall>i. counter sm' i = counter (snd (GetSubMetrics M sub)) i + length (filter (\<lambda>m. MsgID (Head m) = i) ms))"
  using decode_loop_frames [OF assms, of "[]" rep callback]
  by (auto simp: DecodeManyAndHandle_def GetSubMetrics_def Let_def fold_deliver fold_inc_msg split: option.split)

definition demo_msg :: "u32 \<Rightarrow> bytes \<Rightarrow> unit message" where
  "demo_msg i body = \<lparr>Head = \<lparr>ActorID = 7, SesID = 0x0102030405060708, MsgID = i, Flag = Forward, FromSer = 3,
     FromSerID = 1, ToSer = 2, ToSerID = 9\<rparr>, Data = body, U = None, reply = []\<rparr>"

lemma demo_msg_fields [simp]:
  "MsgID (Head (demo_msg i body)) = i" "Data (demo_msg i body) = body"
  "frame_fits (demo_msg i body) = (25 + length body < 2 ^ 32)"
  by (simp_all add: demo_msg_def frame_fits_def FrameBodyHeadSize_def)

lemma first_metrics [simp]:
  "GetSubMetrics Map.empty sub = ([sub \<mapsto> NewSubMetrics sub], NewSubMetrics sub)"
  "DecodeErr (NewSubMetrics sub) = 0" "counter (NewSubMetrics sub) i = 0"
  by (simp_all add: GetSubMetrics_def NewSubMetrics_def counter_def Let_def)

theorem batch_roundtrip_witness:
  "\<exists>sm'. DecodeManyAndHandle (concat (map frame [demo_msg 11 [1, 2, 3], demo_msg 12 [], demo_msg 11 [255]]))
       ''msg'' ''r'' gather (Map.empty, []) =
     Some ((Map.empty(''msg'' \<mapsto> sm'),
       map (received ''r'') [demo_msg 11 [1, 2, 3], demo_msg 12 [], demo_msg 11 [255]] :: unit message list), None) \<and>
     DecodeErr sm' = 0 \<and> counter sm' 11 = 2 \<and> counter sm' 12 = 1"
proof -
  have "\<forall>m \<in> set [demo_msg 11 [1, 2, 3], demo_msg 12 [], demo_msg 11 [255]]. frame_fits m"
    by simp
  from batch_roundtrip [OF this, of "''msg''" "''r''" gather Map.empty "[]"] show ?thesis
    by (elim exE conjE, intro exI conjI) (assumption | simp add: gather_def)+
qed


text \<open>
  A packet cut inside a frame loses only that frame: for a batch followed by a proper, non-empty
  prefix of one more frame, the decoder delivers exactly the complete messages, reports an error,
  counts one decode error, and never panics.
\<close>

theorem truncated_batch:
  assumes "\<forall>m \<in> set ms. frame_fits m" and "frame_fits m" and "0 < k" and "k < length (frame m)"
  shows "\<exists>sm' err. DecodeManyAndHandle (concat (map frame ms) @ take k (frame m)) sub rep callback (M, s) =
       Some ((M(sub \<mapsto> sm'), fold (\<lambda>m. callback (received rep m)) ms s), Some err) \<and>
     DecodeErr sm' = Suc (DecodeErr (snd (GetSubMetrics M sub)))"
proof -
  obtain M' sm where sm: "GetSubMetrics M sub = (M', sm)"
    by (cases "GetSubMetrics M sub")
  then have M': "M'(sub \<mapsto> x) = M(sub \<mapsto> x)" for x
    using GetSubMetrics_hit [OF sm] by auto
  have "\<exists>err. decode_loop (concat (map frame ms) @ take k (frame m)) rep callback (sm, s) =
      Some ((inc_err (fold (\<lambda>m sm. inc_msg sm (MsgID (Head m))) ms sm), fold (\<lambda>m. callback (received rep m)) ms s), Some err)"
    unfolding decode_loop_frames [OF assms(1)] fold_deliver by (rule decode_loop_cut [OF assms(2-4)])
  then show ?thesis
    by (auto simp: DecodeManyAndHandle_def sm M' fold_inc_msg)
qed

theorem truncated_batch_witness:
  "\<exists>sm' err. DecodeManyAndHandle (concat (map frame [demo_msg 11 [1, 2]]) @ take 30 (frame (demo_msg 12 [3, 4])))
       ''msg'' [] gather (Map.empty, []) =
     Some ((Map.empty(''msg'' \<mapsto> sm'), [received [] (demo_msg 11 [1, 2])] :: unit message list), Some err) \<and>
     DecodeErr sm' = 1"
proof -
  have "\<forall>m \<in> set [demo_msg 11 [1, 2]]. frame_fits m" "frame_fits (demo_msg 12 [3, 4])" "0 < (30::nat)"
    "30 < length (frame (demo_msg 12 [3, 4]))"
    by simp_all
  from truncated_batch [OF this, of "''msg''" "[]" gather Map.empty "[]"] show ?thesis
    by (simp add: gather_def)
qed

text \<open>
  The decoder accepts only what the encoder produces: when it reports no error and counts no decode
  error, the packet is exactly the concatenation of the frames of the messages it delivered, and each
  of them fits its length field.
\<close>

theorem decode_canonical:
  assumes "DecodeManyAndHandle buf sub rep gather (M, []) = Some ((M', ms), None)"
    and "GetSubMetrics M sub = (M0, sm)" and "M' sub = Some sm'" and "DecodeErr sm' = DecodeErr sm"
  shows "buf = concat (map frame ms) \<and> (\<forall>m \<in> set ms. frame_fits m \<and> reply m = rep)"
proof -
  have "decode_loop buf rep gather (sm, []) = Some ((sm', ms), None)"
    using assms by (auto simp: DecodeManyAndHandle_def bind_eq_Some_conv)
  from decode_loop_canonical [OF this assms(4)] show ?thesis
    by auto
qed

theorem decode_canonical_witness:
  "\<exists>ms :: unit message list. map Head ms = map Head [demo_msg 11 [1, 2], demo_msg 12 []] \<and> map reply ms = [''r'', ''r''] \<and>
     frame (demo_msg 11 [1, 2]) @ frame (demo_msg 12 []) = concat (map frame ms)"
proof -
  let ?ms = "[received ''r'' (demo_msg 11 [1, 2]), received ''r'' (demo_msg 12 [])] :: unit message list"
  let ?sm = "inc_msg (inc_msg (NewSubMetrics ''s'') 11) 12"
  have run: "DecodeManyAndHandle (frame (demo_msg 11 [1, 2]) @ frame (demo_msg 12 [])) ''s'' ''r'' gather (Map.empty, []) =
      Some (([''s'' \<mapsto> ?sm], ?ms), None)"
    using decode_loop_frames [of "[demo_msg 11 [1, 2], demo_msg 12 []]" "[]" "''r''"
      "gather :: unit message \<Rightarrow> _" "(NewSubMetrics ''s'', [])"]
    by (simp add: DecodeManyAndHandle_def deliver_def gather_def)
  from decode_canonical [OF this first_metrics(1), of ?sm] show ?thesis
    by (intro exI [of _ ?ms]) (simp add: received_def)
qed

end
