(* ===== verification/Batcher.thy ===== *)
theory Batcher
  imports Frame
begin

text \<open>
  The sending side of the message bus: the byte-buffer pool of \<^verbatim>\<open>src/pkg/gnet/pool/pool.go\<close>
  (\<^verbatim>\<open>src/pkg/gnet/pub/pool.go\<close> instantiates it) and the stream batcher of
  \<^verbatim>\<open>src/pkg/gnet/pub/batcher.go\<close>.  A pooled buffer is its backing array and its length, so a reused
  buffer carries the bytes of earlier batches.  Each operation is atomic here: the code runs them
  under the batcher's mutex, apart from the calls of the flush function.
\<close>

section \<open>The buffer pool\<close>

record buffer =
  mem :: bytes
  blen :: nat

definition bcap :: "buffer \<Rightarrow> nat" where
  "bcap b = length (mem b)"

definition bdata :: "buffer \<Rightarrow> bytes" where
  "bdata b = take (blen b) (mem b)"

definition reslice :: "buffer \<Rightarrow> nat \<Rightarrow> buffer option" where
  "reslice b n = (if n \<le> bcap b then Some (b\<lparr>blen := n\<rparr>) else None)"

record bytes_pool =
  pool_free :: "buffer list"
  pool_size :: nat

definition NewBytesPoll :: "nat \<Rightarrow> bytes_pool" where
  "NewBytesPoll bufSize = \<lparr>pool_free = [], pool_size = bufSize\<rparr>"

text \<open>
  \<^verbatim>\<open>sync.Pool\<close> hands out any pooled value or makes a new one: \<^verbatim>\<open>pick\<close> is that choice.
\<close>

definition BytesPool_Get :: "nat option \<Rightarrow> bytes_pool \<Rightarrow> buffer \<times> bytes_pool" where
  "BytesPool_Get pick p = (case pick of
       Some i \<Rightarrow> if i < length (pool_free p)
         then (pool_free p ! i, p\<lparr>pool_free := take i (pool_free p) @ drop (Suc i) (pool_free p)\<rparr>)
         else (\<lparr>mem = replicate (pool_size p) 0, blen = 0\<rparr>, p)
     | None \<Rightarrow> (\<lparr>mem = replicate (pool_size p) 0, blen = 0\<rparr>, p))"

definition BytesPool_Put :: "buffer \<Rightarrow> bytes_pool \<Rightarrow> bytes_pool" where
  "BytesPool_Put b p = (if bcap b > 10 * pool_size p then p
     else p\<lparr>pool_free := b\<lparr>blen := 0\<rparr> # pool_free p\<rparr>)"

section \<open>The batcher\<close>

definition batchCount :: nat where "batchCount = 500"
definition buffSize :: nat where "buffSize = 1024 * batchCount"

definition GetBuffer :: "nat option \<Rightarrow> bytes_pool \<Rightarrow> buffer \<times> bytes_pool" where
  "GetBuffer = BytesPool_Get"

definition FreeBuffer :: "buffer \<Rightarrow> bytes_pool \<Rightarrow> bytes_pool" where
  "FreeBuffer = BytesPool_Put"

datatype batcherState = stateRunning | stateClosing | stateStopped

datatype bus_err = ErrClosed | ErrArg

record batcher =
  tb_buf :: "buffer option"
  tb_count :: nat
  tb_state :: batcherState
  tb_loop :: bool

record flushTask =
  ft_buf :: bytes
  ft_pBuf :: "buffer option"
  ft_count :: nat

definition NewBatcher :: batcher where
  "NewBatcher = \<lparr>tb_buf = None, tb_count = 0, tb_state = stateRunning, tb_loop = True\<rparr>"

text \<open>
  The world of an operation: the batcher, the shared pool, and the state of the flush function
  (a function of the data and the count).
\<close>

record 's bworld =
  bw_tb :: batcher
  bw_pool :: bytes_pool
  bw_out :: 's

definition run_task :: "(bytes \<Rightarrow> nat \<Rightarrow> 's \<Rightarrow> 's) \<Rightarrow> flushTask \<Rightarrow> bytes_pool \<times> 's \<Rightarrow> bytes_pool \<times> 's" where
  "run_task flushFn t = (\<lambda>(pool, s).
     let s = flushFn (ft_buf t) (ft_count t) s
     in (case ft_pBuf t of None \<Rightarrow> pool | Some b \<Rightarrow> FreeBuffer b pool, s))"

definition Add_buf :: "nat option \<Rightarrow> batcher \<Rightarrow> bytes_pool \<Rightarrow> buffer \<times> bytes_pool" where
  "Add_buf pick tb pool = (case tb_buf tb of
       Some b \<Rightarrow> (b, pool)
     | None \<Rightarrow> let (b, pool) = GetBuffer pick pool in (b\<lparr>blen := 0\<rparr>, pool))"

definition Add_spill ::
  "nat option \<Rightarrow> nat \<Rightarrow> buffer \<Rightarrow> nat \<Rightarrow> bytes_pool \<Rightarrow> flushTask list \<times> buffer \<times> nat \<times> bytes_pool"
where
  "Add_spill pick frameSize b count pool =
     (if blen b + frameSize > bcap b \<and> blen b > 0
      then let (b', pool) = GetBuffer pick pool
           in ([\<lparr>ft_buf = bdata b, ft_pBuf = Some b, ft_count = count\<rparr>], b'\<lparr>blen := 0\<rparr>, 0, pool)
      else ([], b, count, pool))"

definition Add_write ::
  "'u message \<Rightarrow> nat \<Rightarrow> nat \<Rightarrow> buffer \<Rightarrow> nat \<Rightarrow> (flushTask list \<times> buffer option \<times> nat) option"
where
  "Add_write p bodySize frameSize b count =
     (if frameSize > bcap b then do {
        monsterBuf \<leftarrow> Message_EncodeTo p (replicate frameSize 0) bodySize;
        Some ([\<lparr>ft_buf = monsterBuf, ft_pBuf = None, ft_count = 1\<rparr>], Some b, count)
      } else do {
        let pos = blen b;
        buf \<leftarrow> reslice b (pos + frameSize);
        part \<leftarrow> Message_EncodeTo p (drop pos (bdata buf)) bodySize;
        m \<leftarrow> put_at pos part (mem buf);
        let buf = buf\<lparr>mem := m\<rparr>;
        let count = count + 1;
        if count \<ge> batchCount \<or> blen buf \<ge> buffSize
        then Some ([\<lparr>ft_buf = bdata buf, ft_pBuf = Some buf, ft_count = count\<rparr>], None, 0)
        else Some ([], Some buf, count)
      })"

definition Add ::
  "(bytes \<Rightarrow> nat \<Rightarrow> 's \<Rightarrow> 's) \<Rightarrow> nat option \<times> nat option \<Rightarrow> 'u message \<Rightarrow> 's bworld \<Rightarrow> ('s bworld \<times> bus_err option) option"
where
  "Add flushFn picks p w =
     (let bodySize = FrameBodyHeadSize + length (Data p);
          frameSize = FrameLenSize + bodySize;
          tb = bw_tb w
      in if tb_state tb \<noteq> stateRunning then Some (w, Some ErrClosed)
         else do {
           let (b, pool) = Add_buf (fst picks) tb (bw_pool w);
           let (spill, b, count, pool) = Add_spill (snd picks) frameSize b (tb_count tb) pool;
           (full, buf, count) \<leftarrow> Add_write p bodySize frameSize b count;
           let (pool, s) = fold (run_task flushFn) (spill @ full) (pool, bw_out w);
           Some (\<lparr>bw_tb = tb\<lparr>tb_buf := buf, tb_count := count\<rparr>, bw_pool = pool, bw_out = s\<rparr>, None)
         })"

definition flush :: "(bytes \<Rightarrow> nat \<Rightarrow> 's \<Rightarrow> 's) \<Rightarrow> 's bworld \<Rightarrow> 's bworld" where
  "flush flushFn w = (let tb = bw_tb w in
     case tb_buf tb of
       Some b \<Rightarrow> if tb_count tb > 0
         then (let (pool, s) = run_task flushFn
                  \<lparr>ft_buf = bdata b, ft_pBuf = Some b, ft_count = tb_count tb\<rparr> (bw_pool w, bw_out w)
               in \<lparr>bw_tb = tb\<lparr>tb_buf := None, tb_count := 0\<rparr>, bw_pool = pool, bw_out = s\<rparr>)
         else w
     | None \<Rightarrow> w)"

definition tick :: "(bytes \<Rightarrow> nat \<Rightarrow> 's \<Rightarrow> 's) \<Rightarrow> 's bworld \<Rightarrow> 's bworld" where
  "tick flushFn w = (if tb_loop (bw_tb w) then flush flushFn w else w)"

definition loop_exit :: "(bytes \<Rightarrow> nat \<Rightarrow> 's \<Rightarrow> 's) \<Rightarrow> 's bworld \<Rightarrow> 's bworld" where
  "loop_exit flushFn w = (let w = flush flushFn w in w\<lparr>bw_tb := (bw_tb w)\<lparr>tb_loop := False\<rparr>\<rparr>)"

definition Batcher_Close :: "(bytes \<Rightarrow> nat \<Rightarrow> 's \<Rightarrow> 's) \<Rightarrow> 's bworld \<Rightarrow> 's bworld" where
  "Batcher_Close flushFn w =
     (if tb_state (bw_tb w) \<noteq> stateRunning then w
      else let w = w\<lparr>bw_tb := (bw_tb w)\<lparr>tb_state := stateClosing\<rparr>\<rparr>;
               w = loop_exit flushFn w
           in w\<lparr>bw_tb := (bw_tb w)\<lparr>tb_state := stateStopped\<rparr>\<rparr>)"


section \<open>Invariant\<close>

definition frames :: "'u message list \<Rightarrow> bytes" where
  "frames ms = concat (map frame ms)"

definition feed :: "(bytes \<Rightarrow> nat \<Rightarrow> 's \<Rightarrow> 's) \<Rightarrow> 'u message list list \<Rightarrow> 's \<Rightarrow> 's" where
  "feed flushFn blocks = fold (\<lambda>ms. flushFn (frames ms) (length ms)) blocks"

definition pool_ok :: "bytes_pool \<Rightarrow> bool" where
  "pool_ok p = (pool_size p = buffSize \<and> (\<forall>b \<in> set (pool_free p). buffSize \<le> bcap b))"

definition buf_holds :: "buffer \<Rightarrow> 'u message list \<Rightarrow> bool" where
  "buf_holds b ms = (buffSize \<le> bcap b \<and> blen b \<le> bcap b \<and> bdata b = frames ms)"

definition holds :: "buffer option \<Rightarrow> nat \<Rightarrow> 'u message list \<Rightarrow> bool" where
  "holds buf count ms = (count = length ms \<and> length ms < batchCount \<and>
     (case buf of None \<Rightarrow> ms = [] | Some b \<Rightarrow> buf_holds b ms \<and> blen b < buffSize))"

definition task_of :: "flushTask \<Rightarrow> 'u message list \<Rightarrow> bool" where
  "task_of t ms = (ft_buf t = frames ms \<and> ft_count t = length ms \<and> ms \<noteq> [] \<and> length ms \<le> batchCount \<and>
     (\<forall>b. ft_pBuf t = Some b \<longrightarrow> buffSize \<le> bcap b))"

lemma frames_simps [simp]:
  "frames [] = []" "frames (m # ms) = frame m @ frames ms" "frames (ms @ ns) = frames ms @ frames ns"
  by (simp_all add: frames_def)

lemma frames_Nil_iff [simp]: "frames ms = [] \<longleftrightarrow> ms = []" "[] = frames ms \<longleftrightarrow> ms = []"
  by (cases ms; auto simp flip: length_0_conv; fail)+

lemma batch_consts: "0 < batchCount" "0 < buffSize"
  by (simp_all add: batchCount_def buffSize_def)

lemma feed_append: "feed f (bs @ cs) s = feed f cs (feed f bs s)"
  by (simp add: feed_def)

lemma pool_ok_Get:
  "pool_ok p \<Longrightarrow> GetBuffer pick p = (b, p') \<Longrightarrow> pool_ok p' \<and> buf_holds (b\<lparr>blen := 0\<rparr>) []"
  by (auto simp: GetBuffer_def BytesPool_Get_def pool_ok_def buf_holds_def bdata_def bcap_def
      split: option.splits if_splits dest!: in_set_takeD in_set_dropD)

lemma pool_ok_Put: "pool_ok p \<Longrightarrow> buffSize \<le> bcap b \<Longrightarrow> pool_ok (FreeBuffer b p)"
  by (auto simp: FreeBuffer_def BytesPool_Put_def pool_ok_def bcap_def)

lemma run_tasks:
  "list_all2 task_of ts blocks \<Longrightarrow> pool_ok pool \<Longrightarrow>
   snd (fold (run_task f) ts (pool, s)) = feed f blocks s \<and> pool_ok (fst (fold (run_task f) ts (pool, s)))"
proof (induction ts blocks arbitrary: pool s rule: list_all2_induct)
  case (Cons t ts ms blocks)
  then show ?case
    by (auto simp: run_task_def task_of_def feed_def pool_ok_Put split: option.split)
qed (simp add: feed_def)

lemma buf_holds_empty: "buf_holds b ms \<Longrightarrow> blen b = 0 \<longleftrightarrow> ms = []"
  using batch_consts by (auto simp: buf_holds_def bdata_def bcap_def)

lemma Add_buf_ok:
  assumes "holds (tb_buf tb) (tb_count tb) pend" "pool_ok pool" "Add_buf pick tb pool = (b, pool')"
  shows "holds (Some b) (tb_count tb) pend \<and> pool_ok pool'"
proof (cases "tb_buf tb")
  case None
  obtain c p where "GetBuffer pick pool = (c, p)"
    by (cases "GetBuffer pick pool")
  then show ?thesis
    using assms None pool_ok_Get [of pool pick c p] batch_consts by (auto simp: Add_buf_def holds_def)
qed (use assms in \<open>auto simp: Add_buf_def\<close>)

lemma Add_spill_ok:
  assumes "holds (Some b) count pend" "pool_ok pool"
    and "Add_spill pick n b count pool = (spill, b', count', pool')"
  shows "\<exists>blocks pend'. pend = concat blocks @ pend' \<and> list_all2 task_of spill blocks \<and> holds (Some b') count' pend' \<and>
    pool_ok pool' \<and> (blen b' + n \<le> bcap b' \<or> pend' = [])"
proof (cases "blen b + n > bcap b \<and> blen b > 0")
  case True
  obtain c p where get: "GetBuffer pick pool = (c, p)"
    by (cases "GetBuffer pick pool")
  have "task_of \<lparr>ft_buf = bdata b, ft_pBuf = Some b, ft_count = count\<rparr> pend"
    using assms(1) True buf_holds_empty [of b pend] by (auto simp: holds_def task_of_def buf_holds_def)
  moreover have "holds (Some (c\<lparr>blen := 0\<rparr>)) 0 ([] :: 'a message list)" "pool_ok p"
    using pool_ok_Get [OF assms(2) get] batch_consts by (auto simp: holds_def)
  ultimately show ?thesis
    using assms(3) True get by (intro exI [of _ "[pend]"] exI [of _ "[]"]) (auto simp: Add_spill_def)
next
  case False
  then show ?thesis
    using assms buf_holds_empty [of b pend]
    by (intro exI [of _ "[]"] exI [of _ pend]) (auto simp: Add_spill_def holds_def)
qed

lemma append_frame:
  assumes "buf_holds b pend" "blen b + n \<le> bcap b" "n = FrameLenSize + (FrameBodyHeadSize + length (Data p))"
  shows "\<exists>buf part m. reslice b (blen b + n) = Some buf \<and>
     Message_EncodeTo p (drop (blen b) (bdata buf)) (FrameBodyHeadSize + length (Data p)) = Some part \<and>
     put_at (blen b) part (mem buf) = Some m \<and> blen buf = blen b + n \<and>
     buf_holds (buf\<lparr>mem := m\<rparr>) (pend @ [p])"
proof -
  let ?buf = "b\<lparr>blen := blen b + n\<rparr>"
  have "length (drop (blen b) (bdata ?buf)) = n"
    using assms(2) by (simp add: bdata_def bcap_def)
  then have "Message_EncodeTo p (drop (blen b) (bdata ?buf)) (FrameBodyHeadSize + length (Data p)) = Some (frame p)"
    using assms(3) Message_EncodeTo_frame by metis
  moreover have n: "n = length (frame p)"
    by (simp add: assms(3) FrameLenSize_def FrameBodyHeadSize_def)
  moreover have "length (frames pend) = blen b"
    using assms(1) by (metis buf_holds_def bdata_def bcap_def length_take min_absorb2)
  ultimately show ?thesis
    using assms(1,2) by (intro exI [of _ ?buf] exI)
      (auto simp: reslice_def put_at_def buf_holds_def bdata_def bcap_def)
qed

lemma Add_write_ok:
  assumes "holds (Some b) count pend" "blen b + n \<le> bcap b \<or> pend = []"
    and "n = FrameLenSize + (FrameBodyHeadSize + length (Data p))"
  shows "\<exists>full buf count' blocks pend'. Add_write p (FrameBodyHeadSize + length (Data p)) n b count = Some (full, buf, count') \<and>
    pend @ [p] = concat blocks @ pend' \<and> list_all2 task_of full blocks \<and> holds buf count' pend'"
proof (cases "n > bcap b")
  case True
  have pend: "pend = []"
    using True assms(2) by auto
  have "Message_EncodeTo p (replicate n 0) (FrameBodyHeadSize + length (Data p)) = Some (frame p)"
    by (rule Message_EncodeTo_frame) (simp add: assms(3))
  then have "Add_write p (FrameBodyHeadSize + length (Data p)) n b count =
      Some ([\<lparr>ft_buf = frame p, ft_pBuf = None, ft_count = 1\<rparr>], Some b, count)"
    using True by (simp add: Add_write_def)
  moreover have "task_of \<lparr>ft_buf = frame p, ft_pBuf = None, ft_count = 1\<rparr> [p]" "[p] = concat [[p]] @ []"
    using batch_consts by (simp_all add: task_of_def)
  ultimately show ?thesis
    using pend assms(1) by (metis append_Nil list.rel_inject(2) list_all2_Nil)
next
  case False
  have fits: "blen b + n \<le> bcap b"
    using False assms(1,2) buf_holds_empty [of b pend] by (auto simp: holds_def)
  have "buf_holds b pend"
    using assms(1) by (simp add: holds_def)
  from append_frame [OF this fits assms(3)] obtain buf part m where enc:
    "reslice b (blen b + n) = Some buf"
    "Message_EncodeTo p (drop (blen b) (bdata buf)) (FrameBodyHeadSize + length (Data p)) = Some part"
    "put_at (blen b) part (mem buf) = Some m" "blen buf = blen b + n" "buf_holds (buf\<lparr>mem := m\<rparr>) (pend @ [p])"
    by blast
  let ?buf = "buf\<lparr>mem := m\<rparr>"
  have wr: "Add_write p (FrameBodyHeadSize + length (Data p)) n b count =
      (if Suc count \<ge> batchCount \<or> blen ?buf \<ge> buffSize
       then Some ([\<lparr>ft_buf = bdata ?buf, ft_pBuf = Some ?buf, ft_count = Suc count\<rparr>], None, 0)
       else Some ([], Some ?buf, Suc count))"
    using False enc by (simp add: Add_write_def Let_def)
  show ?thesis
  proof (cases "Suc count \<ge> batchCount \<or> blen ?buf \<ge> buffSize")
    case True
    have "task_of \<lparr>ft_buf = bdata ?buf, ft_pBuf = Some ?buf, ft_count = Suc count\<rparr> (pend @ [p])"
      using enc(5) assms(1) by (simp add: task_of_def buf_holds_def holds_def)
    moreover have "holds None 0 ([] :: 'a message list)"
      using batch_consts by (simp add: holds_def)
    ultimately show ?thesis
      using wr True by (intro exI [of _ "[pend @ [p]]"] exI [of _ "[]"] exI conjI) (simp only: if_True, simp_all)
  next
    case False
    then have "holds (Some ?buf) (Suc count) (pend @ [p])"
      using enc(5) assms(1) by (auto simp: holds_def)
    then show ?thesis
      using wr False by (intro exI [of _ "[]"] exI [of _ "pend @ [p]"] exI conjI) (simp only: if_False, simp_all)
  qed
qed


definition bw_ok :: "'s bworld \<Rightarrow> 'u message list \<Rightarrow> bool" where
  "bw_ok w pend = (pool_ok (bw_pool w) \<and> holds (tb_buf (bw_tb w)) (tb_count (bw_tb w)) pend)"

definition good_blocks :: "'u message list list \<Rightarrow> bool" where
  "good_blocks blocks = (\<forall>ms \<in> set blocks. ms \<noteq> [] \<and> length ms \<le> batchCount)"

lemma task_blocks: "list_all2 task_of ts blocks \<Longrightarrow> good_blocks blocks"
  by (induction ts blocks rule: list_all2_induct) (auto simp: good_blocks_def task_of_def)

lemma Add_ok:
  assumes "bw_ok w pend" "tb_state (bw_tb w) = stateRunning"
  shows "\<exists>w' blocks pend'. Add f picks p w = Some (w', None) \<and> pend @ [p] = concat blocks @ pend' \<and>
    bw_out w' = feed f blocks (bw_out w) \<and> good_blocks blocks \<and> bw_ok w' pend' \<and>
    tb_state (bw_tb w') = stateRunning \<and> tb_loop (bw_tb w') = tb_loop (bw_tb w)"
proof -
  let ?n = "FrameLenSize + (FrameBodyHeadSize + length (Data p))"
  obtain b pool1 where buf: "Add_buf (fst picks) (bw_tb w) (bw_pool w) = (b, pool1)"
    by fastforce
  obtain spill b' count' pool2 where sp: "Add_spill (snd picks) ?n b (tb_count (bw_tb w)) pool1 = (spill, b', count', pool2)"
    by (metis surj_pair)
  have "holds (Some b) (tb_count (bw_tb w)) pend" "pool_ok pool1"
    using Add_buf_ok [OF _ _ buf] assms(1) by (auto simp: bw_ok_def)
  from Add_spill_ok [OF this sp] obtain bl1 pend1 where s1: "pend = concat bl1 @ pend1" "list_all2 task_of spill bl1"
    "holds (Some b') count' pend1" "pool_ok pool2" "blen b' + ?n \<le> bcap b' \<or> pend1 = []"
    by blast
  from Add_write_ok [OF s1(3,5) refl] obtain full buf count'' bl2 pend2 where
    s2: "Add_write p (FrameBodyHeadSize + length (Data p)) ?n b' count' = Some (full, buf, count'')"
    "pend1 @ [p] = concat bl2 @ pend2" "list_all2 task_of full bl2" "holds buf count'' pend2"
    by blast
  have tasks: "list_all2 task_of (spill @ full) (bl1 @ bl2)"
    using s1(2) s2(3) by (rule list_all2_appendI)
  define pool3 where "pool3 = fst (fold (run_task f) (spill @ full) (pool2, bw_out w))"
  have run: "fold (run_task f) (spill @ full) (pool2, bw_out w) = (pool3, feed f (bl1 @ bl2) (bw_out w))" "pool_ok pool3"
    using run_tasks [OF tasks s1(4), of f "bw_out w"] by (auto simp: pool3_def prod_eq_iff)
  let ?w = "\<lparr>bw_tb = (bw_tb w)\<lparr>tb_buf := buf, tb_count := count''\<rparr>, bw_pool = pool3, bw_out = feed f (bl1 @ bl2) (bw_out w)\<rparr>"
  have "Add f picks p w = Some (?w, None)"
    unfolding Add_def Let_def using assms(2) buf sp s2(1) run(1) by simp
  then show ?thesis
    using s1(1) s2 run(2) task_blocks [OF tasks] assms(2)
    by (intro exI [of _ ?w] exI [of _ "bl1 @ bl2"] exI [of _ pend2]) (simp add: bw_ok_def)
qed

lemma flush_ok:
  fixes pend :: "'u message list"
  assumes "bw_ok w pend"
  shows "\<exists>blocks. bw_out (flush f w) = feed f blocks (bw_out w) \<and> concat blocks = pend \<and> good_blocks blocks \<and>
    bw_ok (flush f w) ([] :: 'u message list) \<and> tb_state (bw_tb (flush f w)) = tb_state (bw_tb w) \<and>
    tb_loop (bw_tb (flush f w)) = tb_loop (bw_tb w) \<and> tb_count (bw_tb (flush f w)) = 0"
proof (cases "pend = []")
  case True
  then show ?thesis
    using assms by (intro exI [of _ "[]"])
      (auto simp: flush_def bw_ok_def holds_def feed_def good_blocks_def Let_def buf_holds_def split: option.splits)
next
  case False
  then show ?thesis
    using assms batch_consts by (intro exI [of _ "[pend]"])
      (auto simp: flush_def bw_ok_def holds_def feed_def good_blocks_def Let_def run_task_def buf_holds_def pool_ok_Put
        split: option.splits)
qed


lemma tick_ok:
  assumes "bw_ok w pend"
  shows "\<exists>blocks pend'. bw_out (tick f w) = feed f blocks (bw_out w) \<and> pend = concat blocks @ pend' \<and> good_blocks blocks \<and>
    bw_ok (tick f w) pend' \<and> tb_state (bw_tb (tick f w)) = tb_state (bw_tb w)"
proof (cases "tb_loop (bw_tb w)")
  case True
  then show ?thesis
    using flush_ok [OF assms, of f] by (simp add: tick_def) (metis append_Nil2)
next
  case False
  then show ?thesis
    using assms by (intro exI [of _ "[]"] exI [of _ pend]) (simp add: tick_def feed_def good_blocks_def)
qed

lemma Close_ok:
  fixes pend :: "'u message list"
  assumes "bw_ok w pend" "tb_state (bw_tb w) = stateRunning"
  shows "\<exists>blocks. bw_out (Batcher_Close f w) = feed f blocks (bw_out w) \<and> concat blocks = pend \<and> good_blocks blocks \<and>
    bw_ok (Batcher_Close f w) ([] :: 'u message list) \<and> tb_state (bw_tb (Batcher_Close f w)) = stateStopped"
proof -
  have "bw_ok (w\<lparr>bw_tb := (bw_tb w)\<lparr>tb_state := stateClosing\<rparr>\<rparr>) pend"
    using assms(1) by (simp add: bw_ok_def)
  from flush_ok [OF this, of f] show ?thesis
    using assms(2) by (auto simp: Batcher_Close_def loop_exit_def Let_def bw_ok_def)
qed

section \<open>Runs\<close>

datatype 'u bevent = EAdd "nat option \<times> nat option" "'u message" | ETick

fun brun :: "(bytes \<Rightarrow> nat \<Rightarrow> 's \<Rightarrow> 's) \<Rightarrow> 'u bevent list \<Rightarrow> 's bworld \<Rightarrow> 's bworld option" where
  "brun f [] w = Some w"
| "brun f (EAdd picks p # evs) w = do { (w, _) \<leftarrow> Add f picks p w; brun f evs w }"
| "brun f (ETick # evs) w = brun f evs (tick f w)"

fun added :: "'u bevent list \<Rightarrow> 'u message list" where
  "added [] = []"
| "added (EAdd _ p # evs) = p # added evs"
| "added (ETick # evs) = added evs"

lemma good_blocks_append: "good_blocks (bs @ cs) = (good_blocks bs \<and> good_blocks cs)"
  by (auto simp: good_blocks_def)

lemma brun_ok:
  assumes "bw_ok w pend" "tb_state (bw_tb w) = stateRunning"
  shows "\<exists>w' blocks pend'. brun f evs w = Some w' \<and> pend @ added evs = concat blocks @ pend' \<and>
    bw_out w' = feed f blocks (bw_out w) \<and> good_blocks blocks \<and> bw_ok w' pend' \<and> tb_state (bw_tb w') = stateRunning"
  using assms
proof (induction evs arbitrary: w pend)
  case Nil
  then show ?case
    by (intro exI [of _ w] exI [of _ "[]"] exI [of _ pend]) (simp add: feed_def good_blocks_def)
next
  case (Cons e evs)
  obtain w1 bl1 pend1 where one: "brun f (e # evs) w = brun f evs w1" "pend @ added [e] = concat bl1 @ pend1"
    "bw_out w1 = feed f bl1 (bw_out w)" "good_blocks bl1" "bw_ok w1 pend1" "tb_state (bw_tb w1) = stateRunning"
  proof (cases e)
    case (EAdd picks p)
    from Add_ok [OF Cons.prems, of f picks p] show ?thesis
      by (elim exE conjE) (rule that, simp_all add: EAdd)
  next
    case ETick
    from tick_ok [OF Cons.prems(1), of f] show ?thesis
      using Cons.prems(2) by (elim exE conjE) (rule that [of "tick f w"], simp_all add: ETick)
  qed
  from Cons.IH [OF one(5,6)] obtain w2 bl2 pend2 where two: "brun f evs w1 = Some w2"
    "pend1 @ added evs = concat bl2 @ pend2" "bw_out w2 = feed f bl2 (bw_out w1)" "good_blocks bl2" "bw_ok w2 pend2"
    "tb_state (bw_tb w2) = stateRunning"
    by (elim exE conjE) (rule that)
  have "added (e # evs) = added [e] @ added evs"
    by (cases e) simp_all
  then have "pend @ added (e # evs) = concat (bl1 @ bl2) @ pend2"
    using one(2) two(2) by (metis append.assoc concat_append)
  then show ?case
    using one two by (intro exI [of _ w2] exI [of _ "bl1 @ bl2"] exI [of _ pend2])
      (simp add: feed_append good_blocks_append)
qed

lemma bw_ok_new: "pool_ok pool \<Longrightarrow> bw_ok \<lparr>bw_tb = NewBatcher, bw_pool = pool, bw_out = s\<rparr> []"
  using batch_consts by (simp add: bw_ok_def holds_def NewBatcher_def)

lemma pool_ok_new: "pool_ok (NewBytesPoll buffSize)"
  by (simp add: pool_ok_def NewBytesPoll_def)

lemma run_and_close:
  assumes "pool_ok pool"
  shows "\<exists>w' blocks. brun f evs \<lparr>bw_tb = NewBatcher, bw_pool = pool, bw_out = s\<rparr> = Some w' \<and>
    bw_out (Batcher_Close f w') = feed f blocks s \<and> concat blocks = added evs \<and> good_blocks blocks \<and>
    tb_state (bw_tb (Batcher_Close f w')) = stateStopped"
proof -
  have start: "tb_state (bw_tb \<lparr>bw_tb = NewBatcher, bw_pool = pool, bw_out = s\<rparr>) = stateRunning"
    by (simp add: NewBatcher_def)
  from brun_ok [OF bw_ok_new [OF assms] start, of f evs] obtain w' bl1 pend where
    run: "brun f evs \<lparr>bw_tb = NewBatcher, bw_pool = pool, bw_out = s\<rparr> = Some w'" "added evs = concat bl1 @ pend"
    "bw_out w' = feed f bl1 s" "good_blocks bl1" "bw_ok w' pend" "tb_state (bw_tb w') = stateRunning"
    by (elim exE conjE) (rule that, simp_all)
  from Close_ok [OF run(5,6), of f] obtain bl2 where
    "bw_out (Batcher_Close f w') = feed f bl2 (bw_out w')" "concat bl2 = pend" "good_blocks bl2"
    "tb_state (bw_tb (Batcher_Close f w')) = stateStopped"
    by blast
  then show ?thesis
    using run by (intro exI [of _ w'] exI [of _ "bl1 @ bl2"]) (simp add: feed_append good_blocks_append)
qed


section \<open>Properties\<close>


definition log_flush :: "bytes \<Rightarrow> nat \<Rightarrow> (nat \<times> nat) list \<Rightarrow> (nat \<times> nat) list" where
  "log_flush data count out = out @ [(length data, count)]"


text \<open>The receiver at the end of the bus, as the flush function.\<close>

definition wire ::
  "string \<Rightarrow> string \<Rightarrow> ('v message \<Rightarrow> 's \<Rightarrow> 's) \<Rightarrow> bytes \<Rightarrow> nat \<Rightarrow> (string \<rightharpoonup> sub_metrics) \<times> 's \<Rightarrow> (string \<rightharpoonup> sub_metrics) \<times> 's"
where
  "wire sub rep callback data count st = (case DecodeManyAndHandle data sub rep callback st of
       Some (st', err) \<Rightarrow> st' | None \<Rightarrow> st)"

lemma wire_frames:
  "\<forall>m \<in> set ms. frame_fits m \<Longrightarrow>
   \<exists>M'. wire sub rep callback (frames ms) n (M, s) = (M', fold (\<lambda>m. callback (received rep m)) ms s)"
  using decode_loop_frames [of ms "[]" rep callback]
  by (auto simp: wire_def DecodeManyAndHandle_def frames_def GetSubMetrics_def Let_def fold_deliver split: option.split)

lemma feed_wire:
  "\<forall>m \<in> set (concat blocks). frame_fits m \<Longrightarrow>
   snd (feed (wire sub rep callback) blocks (M, s)) = fold (\<lambda>m. callback (received rep m)) (concat blocks) s"
proof (induction blocks arbitrary: M s)
  case (Cons ms blocks)
  obtain M' where "wire sub rep callback (frames ms) (length ms) (M, s) = (M', fold (\<lambda>m. callback (received rep m)) ms s)"
    using wire_frames Cons.prems by fastforce
  then show ?case
    using Cons by (simp add: feed_def)
qed (simp add: feed_def)

text \<open>
  End to end over the bus: with a flush function that hands every packet to the receiver's
  \<^verbatim>\<open>DecodeManyAndHandle\<close>, the receiver's callback sees exactly the added messages, once each and in
  order, with head and body intact, whatever the batching did.
\<close>

theorem bus_end_to_end:
  assumes "pool_ok pool" and "\<forall>m \<in> set (added evs). frame_fits m"
  shows "\<exists>w. brun (wire sub rep callback) evs \<lparr>bw_tb = NewBatcher, bw_pool = pool, bw_out = (M, s)\<rparr> = Some w \<and>
    snd (bw_out (Batcher_Close (wire sub rep callback) w)) = fold (\<lambda>m. callback (received rep m)) (added evs) s"
  using run_and_close [OF assms(1), of "wire sub rep callback" evs "(M, s)"] feed_wire assms(2) by metis

theorem bus_end_to_end_witness:
  "\<exists>w. brun (wire ''msg'' [] gather) [EAdd (None, None) (demo_msg 1 [1, 2]), ETick, EAdd (Some 0, None) (demo_msg 2 [])]
      \<lparr>bw_tb = NewBatcher, bw_pool = NewBytesPoll buffSize, bw_out = (Map.empty, [])\<rparr> = Some w \<and>
    snd (bw_out (Batcher_Close (wire ''msg'' [] gather) w)) =
      ([received [] (demo_msg 1 [1, 2]), received [] (demo_msg 2 [])] :: unit message list)"
  using bus_end_to_end [OF pool_ok_new,
      of "[EAdd (None, None) (demo_msg 1 [1, 2]), ETick, EAdd (Some 0, None) (demo_msg 2 [])]" "''msg''" "[]" gather Map.empty "[]"]
  by (simp add: gather_def)

end
