(* ===== verification/Go_Strings.thy ===== *)
theory Go_Strings
  imports Base
begin

text \<open>
  What the source uses of Go's \<^verbatim>\<open>strconv\<close> and \<^verbatim>\<open>strings\<close> packages, on \<^typ>\<open>string\<close> (the bytes of the Go
  string as characters): decimal conversion, splitting and joining, prefixes, last index, trimming.
\<close>

section \<open>Decimal numbers\<close>

definition digit :: "nat \<Rightarrow> char" where
  "digit d = char_of (48 + d)"

definition digit_val :: "char \<Rightarrow> nat option" where
  "digit_val c = (let n = of_char c in if 48 \<le> n \<and> n \<le> 57 then Some (n - 48) else None)"

fun itoa :: "nat \<Rightarrow> string" where
  "itoa n = (if n < 10 then [digit n] else itoa (n div 10) @ [digit (n mod 10)])"

declare itoa.simps [simp del]

definition Itoa :: "int \<Rightarrow> string" where
  "Itoa i = (if i < 0 then ''-'' @ itoa (nat (- i)) else itoa (nat i))"

fun digits_val :: "nat \<Rightarrow> string \<Rightarrow> nat option" where
  "digits_val acc [] = Some acc"
| "digits_val acc (c # cs) = (case digit_val c of None \<Rightarrow> None | Some d \<Rightarrow> digits_val (10 * acc + d) cs)"

definition parse_nat :: "string \<Rightarrow> nat option" where
  "parse_nat s = (if s = [] then None else digits_val 0 s)"

definition ParseUint :: "nat \<Rightarrow> string \<Rightarrow> nat option" where
  "ParseUint bits s = (case parse_nat s of Some n \<Rightarrow> if n < 2 ^ bits then Some n else None | None \<Rightarrow> None)"

definition Atoi :: "string \<Rightarrow> int option" where
  "Atoi s = (let neg = (s \<noteq> [] \<and> hd s = CHR ''-'');
                 body = (if s \<noteq> [] \<and> (hd s = CHR ''-'' \<or> hd s = CHR ''+'') then tl s else s)
     in case parse_nat body of
          None \<Rightarrow> None
        | Some n \<Rightarrow> if neg then (if n \<le> 2 ^ 63 then Some (- int n) else None)
                    else (if n < 2 ^ 63 then Some (int n) else None))"

lemma of_char_digit: "d < 10 \<Longrightarrow> of_char (digit d) = (48 + d :: nat)"
  by (simp add: digit_def)

lemma digit_val_digit [simp]: "d < 10 \<Longrightarrow> digit_val (digit d) = Some d"
  by (simp add: digit_val_def of_char_digit)

lemma digits_val_append:
  "digits_val acc (xs @ ys) = (case digits_val acc xs of None \<Rightarrow> None | Some a \<Rightarrow> digits_val a ys)"
  by (induction xs arbitrary: acc) (auto split: option.split)

lemma itoa_not_Nil [simp]: "itoa n \<noteq> []"
  by (subst itoa.simps) simp

lemma digits_val_itoa: "digits_val 0 (itoa n) = Some n"
proof (induction n rule: itoa.induct)
  case (1 n)
  then show ?case
    by (subst itoa.simps) (simp add: digits_val_append)
qed

lemma parse_itoa [simp]: "parse_nat (itoa n) = Some n"
  by (simp add: parse_nat_def digits_val_itoa)

lemma itoa_inj [simp]: "itoa m = itoa n \<longleftrightarrow> m = n"
  by (metis option.inject parse_itoa)

lemma itoa_digits: "c \<in> set (itoa n) \<Longrightarrow> 48 \<le> (of_char c :: nat) \<and> (of_char c :: nat) \<le> 57"
proof (induction n rule: itoa.induct)
  case (1 n)
  then show ?case
    by (cases "n < 10") (auto simp: itoa.simps [of n] of_char_digit)
qed

lemma not_in_itoa: "(of_char c :: nat) < 48 \<or> 57 < (of_char c :: nat) \<Longrightarrow> c \<notin> set (itoa n)"
  using itoa_digits by fastforce

lemma Atoi_itoa: "n < 2 ^ 63 \<Longrightarrow> Atoi (itoa n) = Some (int n)"
proof -
  assume n: "n < 2 ^ 63"
  have "CHR ''-'' \<notin> set (itoa n)" "CHR ''+'' \<notin> set (itoa n)"
    by (simp_all add: not_in_itoa)
  then have "hd (itoa n) \<noteq> CHR ''-''" "hd (itoa n) \<noteq> CHR ''+''"
    by (metis hd_in_set itoa_not_Nil)+
  then show ?thesis
    using n by (simp add: Atoi_def)
qed


lemma ParseUint_itoa: "n < 2 ^ bits \<Longrightarrow> ParseUint bits (itoa n) = Some n"
  by (simp add: ParseUint_def)

section \<open>Splitting and joining\<close>

fun Split :: "char \<Rightarrow> string \<Rightarrow> string list" where
  "Split sep [] = [[]]"
| "Split sep (c # cs) = (if c = sep then [] # Split sep cs
     else case Split sep cs of [] \<Rightarrow> [[c]] | w # ws \<Rightarrow> (c # w) # ws)"

fun Join :: "char \<Rightarrow> string list \<Rightarrow> string" where
  "Join sep [] = []"
| "Join sep [w] = w"
| "Join sep (w # ws) = w @ sep # Join sep ws"

definition HasPrefix :: "string \<Rightarrow> string \<Rightarrow> bool" where
  "HasPrefix s p = (take (length p) s = p)"

definition TrimPrefix :: "string \<Rightarrow> string \<Rightarrow> string" where
  "TrimPrefix s p = (if HasPrefix s p then drop (length p) s else s)"

definition HasSuffix :: "string \<Rightarrow> string \<Rightarrow> bool" where
  "HasSuffix s p = HasPrefix (rev s) (rev p)"

definition TrimSuffix :: "string \<Rightarrow> string \<Rightarrow> string" where
  "TrimSuffix s p = (if HasSuffix s p then take (length s - length p) s else s)"

definition TrimRight :: "string \<Rightarrow> string \<Rightarrow> string" where
  "TrimRight s cutset = rev (dropWhile (\<lambda>c. c \<in> set cutset) (rev s))"

fun LastIndex :: "string \<Rightarrow> char \<Rightarrow> nat option" where
  "LastIndex [] c = None"
| "LastIndex (x # xs) c = (case LastIndex xs c of
     Some i \<Rightarrow> Some (Suc i) | None \<Rightarrow> if x = c then Some 0 else None)"

lemma Split_not_Nil [simp]: "Split sep s \<noteq> []"
  by (induction s) (auto split: list.split)

lemma Split_no_sep: "sep \<notin> set s \<Longrightarrow> Split sep s = [s]"
  by (induction s) auto

lemma Split_append: "sep \<notin> set w \<Longrightarrow> Split sep (w @ sep # s) = w # Split sep s"
  by (induction w) auto

lemma Split_Join: "ws \<noteq> [] \<Longrightarrow> \<forall>w \<in> set ws. sep \<notin> set w \<Longrightarrow> Split sep (Join sep ws) = ws"
  by (induction sep ws rule: Join.induct) (auto simp: Split_no_sep Split_append)

lemma Join_Split: "Join sep (Split sep s) = s"
proof (induction s)
  case (Cons c cs)
  show ?case
    using Cons by (cases "Split sep cs") (auto, (case_tac list; simp)+)
qed simp

lemma HasPrefix_append [simp]: "HasPrefix (p @ s) p"
  by (simp add: HasPrefix_def)

lemma TrimPrefix_append [simp]: "TrimPrefix (p @ s) p = s"
  by (simp add: TrimPrefix_def)

lemma TrimSuffix_append [simp]: "TrimSuffix (s @ p) p = s"
  by (simp add: TrimSuffix_def HasSuffix_def HasPrefix_def)

lemma LastIndex_None_iff: "LastIndex s c = None \<longleftrightarrow> c \<notin> set s"
  by (induction s) (auto split: option.splits)

lemma LastIndex_append: "c \<notin> set t \<Longrightarrow> LastIndex (s @ c # t) c = Some (length s)"
  by (induction s) (auto simp: LastIndex_None_iff split: option.splits)

end
