(* ===== verification/Bus.thy ===== *)
theory Bus
  imports Batcher Go_Strings
begin

text \<open>
  The message bus: the table of batchers of \<^verbatim>\<open>src/pkg/gnet/pub/manage.go\<close>, and the NATS data bus of
  \<^verbatim>\<open>src/pkg/gnet/msgq\<close> (subjects, sends, close, subscriptions).  The NATS connection is a parameter:
  \<^verbatim>\<open>publish subject data\<close> is its effect on the network state \<^verbatim>\<open>'n\<close>.  A server type is the number of
  the protobuf enum; \<^const>\<open>None\<close> is a panic.
\<close>

section \<open>Server names\<close>

definition Server_name :: "int \<rightharpoonup> string" where
  "Server_name = map_of [(0, ''Gateway''), (1, ''Account''), (2, ''Game''), (3, ''Center''), (4, ''Log''),
     (20, ''GM''), (21, ''Robot''), (22, ''Max'')]"

definition Server_Gateway :: int where "Server_Gateway = 0"
definition Server_Account :: int where "Server_Account = 1"
definition Server_Game :: int where "Server_Game = 2"
definition Server_Center :: int where "Server_Center = 3"

definition SrvName :: "int \<Rightarrow> string" where
  "SrvName serType = (case Server_name serType of Some s \<Rightarrow> s | None \<Rightarrow> [])"

section \<open>The table of batchers\<close>

definition SvcTypeMax :: nat where "SvcTypeMax = 64"
definition SvcIDMax :: nat where "SvcIDMax = 64"

text \<open>The three arrays of \<^verbatim>\<open>Batchers\<close> as one table of their cells.\<close>

datatype slot = SNode nat nat | SAny nat | SBroadcast nat

type_synonym 't batchers = "slot \<rightharpoonup> 't"

definition load_or_store :: "slot \<Rightarrow> 't \<Rightarrow> 't batchers \<Rightarrow> 't batchers \<times> (bus_err + slot)" where
  "load_or_store sl fresh m = (case m sl of Some _ \<Rightarrow> (m, Inr sl) | None \<Rightarrow> (m(sl \<mapsto> fresh), Inr sl))"

definition Batchers_Node :: "(int \<Rightarrow> u8 \<Rightarrow> 't) \<Rightarrow> 't batchers \<Rightarrow> int \<Rightarrow> u8 \<Rightarrow> ('t batchers \<times> (bus_err + slot)) option" where
  "Batchers_Node newNodePub m serType serID =
     (if serType \<ge> int SvcTypeMax \<or> unat serID \<ge> SvcIDMax then Some (m, Inl ErrArg)
      else if serType < 0 then None
      else Some (load_or_store (SNode (nat serType) (unat serID)) (newNodePub serType serID) m))"

definition Batchers_Any :: "(int \<Rightarrow> 't) \<Rightarrow> 't batchers \<Rightarrow> int \<Rightarrow> ('t batchers \<times> (bus_err + slot)) option" where
  "Batchers_Any newAnyPub m serType =
     (if serType \<ge> int SvcTypeMax then Some (m, Inl ErrArg)
      else if serType < 0 then None
      else Some (load_or_store (SAny (nat serType)) (newAnyPub serType) m))"

definition Batchers_Broadcast :: "(int \<Rightarrow> 't) \<Rightarrow> 't batchers \<Rightarrow> int \<Rightarrow> ('t batchers \<times> (bus_err + slot)) option" where
  "Batchers_Broadcast newBroadcastPub m serType =
     (if serType \<ge> int SvcTypeMax then Some (m, Inl ErrArg)
      else if serType < 0 then None
      else Some (load_or_store (SBroadcast (nat serType)) (newBroadcastPub serType) m))"

definition all_slots :: "slot list" where
  "all_slots = [SNode i j. i \<leftarrow> [0..<SvcTypeMax], j \<leftarrow> [0..<SvcIDMax]] @ map SAny [0..<SvcTypeMax] @ map SBroadcast [0..<SvcTypeMax]"

section \<open>The data bus\<close>

definition nodeSubjectName :: "int \<Rightarrow> u8 \<Rightarrow> string" where
  "nodeSubjectName serType serID = ''msg.'' @ SrvName serType @ ''.node.'' @ itoa (unat serID)"

definition anySubjectName :: "int \<Rightarrow> string" where
  "anySubjectName serType = ''msg.'' @ SrvName serType @ ''.any''"

definition broadcastSubjectName :: "int \<Rightarrow> string" where
  "broadcastSubjectName serType = ''msg.'' @ SrvName serType @ ''.broadcast''"

text \<open>The cached subject of \<^verbatim>\<open>rpcNodeSubjectName\<close>: the key packs the type and the index in 64 bits.\<close>

definition rpc_key :: "int \<Rightarrow> u8 \<Rightarrow> u64" where
  "rpc_key serType serID = push_bit 32 (word_of_int serType) OR ucast serID"

definition rpcNodeSubjectName :: "(u64 \<rightharpoonup> string) \<Rightarrow> int \<Rightarrow> u8 \<Rightarrow> string \<times> (u64 \<rightharpoonup> string)" where
  "rpcNodeSubjectName cache serType serID = (case cache (rpc_key serType serID) of
       Some v \<Rightarrow> (v, cache)
     | None \<Rightarrow> let str = ''rpc.'' @ SrvName serType @ ''.node.'' @ itoa (unat serID)
               in (str, cache(rpc_key serType serID \<mapsto> str)))"

definition getSubjects :: "(u64 \<rightharpoonup> string) \<Rightarrow> int \<Rightarrow> u8 \<Rightarrow> (string \<rightharpoonup> string)" where
  "getSubjects cache serType serID =
     [broadcastSubjectName serType \<mapsto> [], nodeSubjectName serType serID \<mapsto> [],
      anySubjectName serType \<mapsto> ''msg.group'', fst (rpcNodeSubjectName cache serType serID) \<mapsto> []]"

record pubBatcher =
  pb_subject :: string
  pb_tb :: batcher
  pb_metricFlush :: nat
  pb_metricBatchSizeMsg :: "nat list"

definition NewPubBatcher :: "string \<Rightarrow> pubBatcher" where
  "NewPubBatcher subject = \<lparr>pb_subject = subject, pb_tb = NewBatcher, pb_metricFlush = 0, pb_metricBatchSizeMsg = []\<rparr>"

definition pub_flush ::
  "(string \<Rightarrow> bytes \<Rightarrow> 'n \<Rightarrow> 'n) \<Rightarrow> string \<Rightarrow> bytes \<Rightarrow> nat \<Rightarrow> 'n \<times> nat \<times> nat list \<Rightarrow> 'n \<times> nat \<times> nat list"
where
  "pub_flush publish subject data count = (\<lambda>(net, fl, sz). (publish subject data net, fl + count, sz @ [count]))"

definition NewNodePub :: "int \<Rightarrow> u8 \<Rightarrow> pubBatcher" where
  "NewNodePub serType serID = NewPubBatcher (nodeSubjectName serType serID)"

definition NewAnyPub :: "int \<Rightarrow> pubBatcher" where
  "NewAnyPub serType = NewPubBatcher (anySubjectName serType)"

definition NewBroadcastPub :: "int \<Rightarrow> pubBatcher" where
  "NewBroadcastPub serType = NewPubBatcher (broadcastSubjectName serType)"

record 'n databus =
  bs_conn :: bool
  bs_rpcConn :: bool
  bs_serType :: u8
  bs_serID :: u8
  bs_closed :: bool
  bs_pub :: "pubBatcher batchers"
  bs_pool :: bytes_pool
  bs_net :: 'n

definition bworld_of :: "pubBatcher \<Rightarrow> 'n databus \<Rightarrow> ('n \<times> nat \<times> nat list) bworld" where
  "bworld_of pbt bs = \<lparr>bw_tb = pb_tb pbt, bw_pool = bs_pool bs,
     bw_out = (bs_net bs, pb_metricFlush pbt, pb_metricBatchSizeMsg pbt)\<rparr>"

definition store_world :: "slot \<Rightarrow> pubBatcher \<Rightarrow> ('n \<times> nat \<times> nat list) bworld \<Rightarrow> 'n databus \<Rightarrow> 'n databus" where
  "store_world sl pbt w bs = (case bw_out w of (net, fl, sz) \<Rightarrow>
     bs\<lparr>bs_pub := (bs_pub bs)(sl \<mapsto> pbt\<lparr>pb_tb := bw_tb w, pb_metricFlush := fl, pb_metricBatchSizeMsg := sz\<rparr>),
        bs_pool := bw_pool w, bs_net := net\<rparr>)"

definition slot_Add ::
  "(string \<Rightarrow> bytes \<Rightarrow> 'n \<Rightarrow> 'n) \<Rightarrow> nat option \<times> nat option \<Rightarrow> slot \<Rightarrow> 'u message \<Rightarrow> 'n databus \<Rightarrow> ('n databus \<times> bus_err option) option"
where
  "slot_Add publish picks sl msg bs = do {
     pbt \<leftarrow> bs_pub bs sl;
     (w, err) \<leftarrow> Add (pub_flush publish (pb_subject pbt)) picks msg (bworld_of pbt bs);
     Some (store_world sl pbt w bs, err)
   }"

definition slot_tick :: "(string \<Rightarrow> bytes \<Rightarrow> 'n \<Rightarrow> 'n) \<Rightarrow> slot \<Rightarrow> 'n databus \<Rightarrow> 'n databus" where
  "slot_tick publish sl bs = (case bs_pub bs sl of None \<Rightarrow> bs
     | Some pbt \<Rightarrow> store_world sl pbt (tick (pub_flush publish (pb_subject pbt)) (bworld_of pbt bs)) bs)"

definition slot_Close :: "(string \<Rightarrow> bytes \<Rightarrow> 'n \<Rightarrow> 'n) \<Rightarrow> slot \<Rightarrow> 'n databus \<Rightarrow> 'n databus" where
  "slot_Close publish sl bs = (case bs_pub bs sl of None \<Rightarrow> bs
     | Some pbt \<Rightarrow> store_world sl pbt (Batcher_Close (pub_flush publish (pb_subject pbt)) (bworld_of pbt bs)) bs)"

definition FlushAll :: "(string \<Rightarrow> bytes \<Rightarrow> 'n \<Rightarrow> 'n) \<Rightarrow> 'n databus \<Rightarrow> 'n databus" where
  "FlushAll publish bs = fold (slot_Close publish) all_slots bs"

definition DataBus_Close :: "(string \<Rightarrow> bytes \<Rightarrow> 'n \<Rightarrow> 'n) \<Rightarrow> 'n databus \<Rightarrow> 'n databus" where
  "DataBus_Close publish bs = (if bs_closed bs then bs else FlushAll publish (bs\<lparr>bs_closed := True\<rparr>))"

definition send_on ::
  "(string \<Rightarrow> bytes \<Rightarrow> 'n \<Rightarrow> 'n) \<Rightarrow> nat option \<times> nat option \<Rightarrow> (pubBatcher batchers \<times> (bus_err + slot)) option \<Rightarrow>
     'u message \<Rightarrow> 'n databus \<Rightarrow> ('n databus \<times> bus_err option) option"
where
  "send_on publish picks target msg bs = do {
     (m, r) \<leftarrow> target;
     let bs = bs\<lparr>bs_pub := m\<rparr>;
     case r of Inl err \<Rightarrow> Some (bs, Some err) | Inr sl \<Rightarrow> slot_Add publish picks sl msg bs
   }"

definition SendToNode ::
  "(string \<Rightarrow> bytes \<Rightarrow> 'n \<Rightarrow> 'n) \<Rightarrow> nat option \<times> nat option \<Rightarrow> int \<Rightarrow> u8 \<Rightarrow> u32 \<Rightarrow> bytes \<Rightarrow> u64 \<Rightarrow> u64 \<Rightarrow>
     'n databus \<Rightarrow> ('n databus \<times> bus_err option) option"
where
  "SendToNode publish picks serType serID msgID data actorID sesID bs =
     (if bs_closed bs then Some (bs, Some ErrClosed)
      else send_on publish picks (Batchers_Node NewNodePub (bs_pub bs) serType serID)
        \<lparr>Head = \<lparr>ActorID = actorID, SesID = sesID, MsgID = msgID, Flag = Normal, FromSer = bs_serType bs,
           FromSerID = bs_serID bs, ToSer = word_of_int serType, ToSerID = serID\<rparr>,
         Data = data, U = None :: unit option, reply = []\<rparr> bs)"

definition ForwardToClient ::
  "(string \<Rightarrow> bytes \<Rightarrow> 'n \<Rightarrow> 'n) \<Rightarrow> nat option \<times> nat option \<Rightarrow> u8 \<Rightarrow> u32 \<Rightarrow> bytes \<Rightarrow> u64 \<Rightarrow> u64 \<Rightarrow>
     'n databus \<Rightarrow> ('n databus \<times> bus_err option) option"
where
  "ForwardToClient publish picks serID msgID data actorID sesID bs =
     (if bs_closed bs then Some (bs, Some ErrClosed)
      else send_on publish picks (Batchers_Node NewNodePub (bs_pub bs) Server_Gateway serID)
        \<lparr>Head = \<lparr>ActorID = actorID, SesID = sesID, MsgID = msgID, Flag = Forward, FromSer = bs_serType bs,
           FromSerID = bs_serID bs, ToSer = word_of_int Server_Gateway, ToSerID = serID\<rparr>,
         Data = data, U = None :: unit option, reply = []\<rparr> bs)"

definition SendToAny ::
  "(string \<Rightarrow> bytes \<Rightarrow> 'n \<Rightarrow> 'n) \<Rightarrow> nat option \<times> nat option \<Rightarrow> int \<Rightarrow> u32 \<Rightarrow> bytes \<Rightarrow> u64 \<Rightarrow> u64 \<Rightarrow>
     'n databus \<Rightarrow> ('n databus \<times> bus_err option) option"
where
  "SendToAny publish picks serType msgID data actorID sesID bs =
     (if bs_closed bs then Some (bs, Some ErrClosed)
      else send_on publish picks (Batchers_Any NewAnyPub (bs_pub bs) serType)
        \<lparr>Head = \<lparr>ActorID = actorID, SesID = sesID, MsgID = msgID, Flag = Normal, FromSer = bs_serType bs,
           FromSerID = bs_serID bs, ToSer = word_of_int serType, ToSerID = 0\<rparr>,
         Data = data, U = None :: unit option, reply = []\<rparr> bs)"

definition BroadcastTo ::
  "(string \<Rightarrow> bytes \<Rightarrow> 'n \<Rightarrow> 'n) \<Rightarrow> nat option \<times> nat option \<Rightarrow> int \<Rightarrow> u32 \<Rightarrow> bytes \<Rightarrow> u64 \<Rightarrow> u64 \<Rightarrow>
     'n databus \<Rightarrow> ('n databus \<times> bus_err option) option"
where
  "BroadcastTo publish picks serType msgID data actorID sesID bs =
     (if bs_closed bs then Some (bs, Some ErrClosed)
      else send_on publish picks (Batchers_Broadcast NewBroadcastPub (bs_pub bs) serType)
        \<lparr>Head = \<lparr>ActorID = actorID, SesID = sesID, MsgID = msgID, Flag = Normal, FromSer = bs_serType bs,
           FromSerID = bs_serID bs, ToSer = word_of_int serType, ToSerID = 0\<rparr>,
         Data = data, U = None :: unit option, reply = []\<rparr> bs)"

definition RelayTo ::
  "(string \<Rightarrow> bytes \<Rightarrow> 'n \<Rightarrow> 'n) \<Rightarrow> nat option \<times> nat option \<Rightarrow> int \<Rightarrow> u8 \<Rightarrow> u32 \<Rightarrow> bytes \<Rightarrow> u64 \<Rightarrow> u64 \<Rightarrow>
     'n databus \<Rightarrow> ('n databus \<times> bus_err option) option"
where
  "RelayTo publish picks serType serID msgID data actorID sesID bs =
     (if bs_closed bs then Some (bs, Some ErrClosed)
      else send_on publish picks (Batchers_Any NewAnyPub (bs_pub bs) Server_Center)
        \<lparr>Head = \<lparr>ActorID = actorID, SesID = sesID, MsgID = msgID, Flag = Forward, FromSer = bs_serType bs,
           FromSerID = bs_serID bs, ToSer = word_of_int serType, ToSerID = serID\<rparr>,
         Data = data, U = None :: unit option, reply = []\<rparr> bs)"


section \<open>Subjects identify their cell\<close>

definition slot_subject :: "slot \<Rightarrow> string" where
  "slot_subject sl = (case sl of
       SNode i j \<Rightarrow> nodeSubjectName (int i) (word_of_nat j)
     | SAny i \<Rightarrow> anySubjectName (int i)
     | SBroadcast i \<Rightarrow> broadcastSubjectName (int i))"

fun slot_named :: "slot \<Rightarrow> bool" where
  "slot_named (SNode i j) = (Server_name (int i) \<noteq> None \<and> j < SvcIDMax)"
| "slot_named (SAny i) = (Server_name (int i) \<noteq> None)"
| "slot_named (SBroadcast i) = (Server_name (int i) \<noteq> None)"

lemma Server_name_cases:
  "Server_name t = Some s \<Longrightarrow> (t, s) \<in> {(0, ''Gateway''), (1, ''Account''), (2, ''Game''), (3, ''Center''), (4, ''Log''),
     (20, ''GM''), (21, ''Robot''), (22, ''Max'')}"
  by (auto simp: Server_name_def split: if_splits)

lemma Server_name_no_dot: "CHR ''.'' \<notin> set (SrvName t)"
  by (cases "Server_name t") (auto simp: SrvName_def dest!: Server_name_cases)

lemma Server_name_inj: "Server_name t = Some s \<Longrightarrow> Server_name t' = Some s \<Longrightarrow> t = t'"
  by (auto dest!: Server_name_cases)

lemma Server_name_inj_nat: "Server_name (int i) = Some s \<Longrightarrow> Server_name (int j) = Some s \<Longrightarrow> i = j"
  using Server_name_inj by fastforce

lemma no_dot_itoa: "CHR ''.'' \<notin> set (itoa n)"
  by (rule not_in_itoa) simp

lemma Split_subjects:
  "Split CHR ''.'' (nodeSubjectName t i) = [''msg'', SrvName t, ''node'', itoa (unat i)]"
  "Split CHR ''.'' (anySubjectName t) = [''msg'', SrvName t, ''any'']"
  "Split CHR ''.'' (broadcastSubjectName t) = [''msg'', SrvName t, ''broadcast'']"
  by (simp_all add: nodeSubjectName_def anySubjectName_def broadcastSubjectName_def Split_append
      Server_name_no_dot Split_no_sep no_dot_itoa)

lemma small_u8: "j < 64 \<Longrightarrow> unat (word_of_nat j :: u8) = j"
  by (simp add: unat_of_nat take_bit_nat_eq_self_iff)

lemma slot_subject_inj:
  assumes "slot_named a" "slot_named b" "slot_subject a = slot_subject b"
  shows "a = b"
proof -
  have "Split CHR ''.'' (slot_subject a) = Split CHR ''.'' (slot_subject b)"
    by (simp add: assms(3))
  then show ?thesis
    using assms(1,2) by (cases a; cases b)
      (auto simp: slot_subject_def Split_subjects SvcIDMax_def small_u8 SrvName_def intro: Server_name_inj_nat)
qed


section \<open>What is published on a subject\<close>

type_synonym packets = "(string \<times> bytes) list"

definition log_publish :: "string \<Rightarrow> bytes \<Rightarrow> packets \<Rightarrow> packets" where
  "log_publish subject data net = net @ [(subject, data)]"

definition pubd :: "string \<Rightarrow> packets \<Rightarrow> bytes" where
  "pubd subject net = concat (map snd (filter (\<lambda>e. fst e = subject) net))"

lemma feed_pub: "fst (feed (pub_flush log_publish sub) blocks (net, x)) = net @ map (\<lambda>ms. (sub, frames ms)) blocks"
proof (induction blocks arbitrary: net x)
  case (Cons ms blocks)
  then show ?case
    by (cases x) (simp add: feed_def pub_flush_def log_publish_def)
qed (simp add: feed_def)

lemma pubd_blocks:
  "pubd s (net @ map (\<lambda>ms. (sub, frames ms)) blocks) = pubd s net @ (if s = sub then frames (concat blocks) else [])"
  by (induction blocks arbitrary: net) (auto simp: pubd_def)

text \<open>
  A cell of the table against the messages sent to it: what was published on its subject, followed by
  what its batcher still holds, is the encoding of those messages.
\<close>

definition cell_holds :: "slot \<Rightarrow> packets \<Rightarrow> unit message list \<Rightarrow> pubBatcher \<Rightarrow> bool" where
  "cell_holds sl net ms pbt = (pb_subject pbt = slot_subject sl \<and>
     (\<exists>pend :: unit message list. holds (tb_buf (pb_tb pbt)) (tb_count (pb_tb pbt)) pend \<and>
        pubd (slot_subject sl) net @ frames pend = frames ms \<and>
        (tb_state (pb_tb pbt) = stateRunning \<or> tb_state (pb_tb pbt) = stateStopped \<and> pend = [])))"

definition cell_ok :: "slot \<Rightarrow> packets \<Rightarrow> unit message list \<Rightarrow> pubBatcher option \<Rightarrow> bool" where
  "cell_ok sl net ms c = (case c of None \<Rightarrow> ms = [] \<and> pubd (slot_subject sl) net = [] | Some pbt \<Rightarrow> cell_holds sl net ms pbt)"

definition bus_inv :: "packets databus \<Rightarrow> (slot \<Rightarrow> unit message list) \<Rightarrow> bool" where
  "bus_inv bs sent = (pool_ok (bs_pool bs) \<and> (\<forall>sl \<in> dom (bs_pub bs). slot_named sl) \<and>
     (\<forall>sl. slot_named sl \<longrightarrow> cell_ok sl (bs_net bs) (sent sl) (bs_pub bs sl)) \<and>
     (\<not> bs_closed bs \<longrightarrow> (\<forall>sl pbt. bs_pub bs sl = Some pbt \<longrightarrow> tb_state (pb_tb pbt) = stateRunning)))"

lemma cell_ok_other:
  "slot_named sl \<Longrightarrow> slot_named sl' \<Longrightarrow> sl \<noteq> sl' \<Longrightarrow>
   cell_ok sl' (net @ map (\<lambda>ms. (slot_subject sl, frames ms)) blocks) ms c = cell_ok sl' net ms c"
  using slot_subject_inj [of sl' sl]
  by (auto simp: cell_ok_def cell_holds_def pubd_blocks split: option.split)

text \<open>One cell moves: the batcher of \<^verbatim>\<open>sl\<close> publishes some blocks and keeps the rest.\<close>

lemma bus_inv_move:
  fixes pend pend' new :: "unit message list"
  assumes inv: "bus_inv bs sent" and cell: "bs_pub bs sl = Some pbt"
    and pend: "holds (tb_buf (pb_tb pbt)) (tb_count (pb_tb pbt)) pend"
      "pubd (slot_subject sl) (bs_net bs) @ frames pend = frames (sent sl)"
    and out: "bw_out w = feed (pub_flush log_publish (pb_subject pbt)) blocks (bw_out (bworld_of pbt bs))"
    and ms: "pend @ new = concat blocks @ pend'"
    and after: "pool_ok (bw_pool w)" "holds (tb_buf (bw_tb w)) (tb_count (bw_tb w)) pend'"
      "tb_state (bw_tb w) = stateRunning \<or> bs_closed bs \<and> tb_state (bw_tb w) = stateStopped \<and> pend' = []"
  shows "bus_inv (store_world sl pbt w bs) (sent(sl := sent sl @ new))"
proof -
  have named: "slot_named sl" and sub: "pb_subject pbt = slot_subject sl"
    using inv cell by (auto simp: bus_inv_def cell_ok_def cell_holds_def split: option.splits)
  let ?bs = "store_world sl pbt w bs"
  have net: "bs_net ?bs = bs_net bs @ map (\<lambda>ms. (slot_subject sl, frames ms)) blocks"
    using out feed_pub [of "slot_subject sl" blocks "bs_net bs"] sub
    by (auto simp: store_world_def bworld_of_def split: prod.splits) (metis fst_conv)
  have fields: "bs_pool ?bs = bw_pool w" "bs_closed ?bs = bs_closed bs" "dom (bs_pub ?bs) = dom (bs_pub bs)"
    "sl' \<noteq> sl \<Longrightarrow> bs_pub ?bs sl' = bs_pub bs sl'"
    "\<exists>p. bs_pub ?bs sl = Some p \<and> pb_subject p = slot_subject sl \<and> pb_tb p = bw_tb w" for sl'
    using cell sub by (auto simp: store_world_def split: prod.splits)
  have "pubd (slot_subject sl) (bs_net ?bs) @ frames pend' = frames (sent sl @ new)"
  proof -
    have "frames (concat blocks) @ frames pend' = frames pend @ frames new"
      using arg_cong [OF ms, of frames] by simp
    then show ?thesis
      using pend(2) by (simp add: net pubd_blocks)
  qed
  then have self: "cell_ok sl (bs_net ?bs) (sent sl @ new) (bs_pub ?bs sl)"
    using fields(5) after by (auto simp: cell_ok_def cell_holds_def)
  have others: "cell_ok sl' (bs_net ?bs) (sent sl') (bs_pub ?bs sl')" if "slot_named sl'" "sl' \<noteq> sl" for sl'
    using inv that named unfolding net fields(4) [OF that(2)] by (subst cell_ok_other) (auto simp: bus_inv_def)
  have running: "tb_state (pb_tb p) = stateRunning" if "\<not> bs_closed ?bs" "bs_pub ?bs sl' = Some p" for sl' p
    using that inv fields(2,4,5) after(3) by (cases "sl' = sl") (auto simp: bus_inv_def)
  have "\<forall>sl \<in> dom (bs_pub ?bs). slot_named sl"
    using inv by (simp add: fields(3) bus_inv_def)
  then show ?thesis
    unfolding bus_inv_def using fields(1) after(1) running by (auto simp: self others)
qed


lemma bus_inv_cell:
  assumes "bus_inv bs sent" "bs_pub bs sl = Some pbt"
  obtains pend :: "unit message list" where "holds (tb_buf (pb_tb pbt)) (tb_count (pb_tb pbt)) pend"
    "pubd (slot_subject sl) (bs_net bs) @ frames pend = frames (sent sl)"
    "tb_state (pb_tb pbt) = stateRunning \<or> tb_state (pb_tb pbt) = stateStopped \<and> pend = []"
    "bw_ok (bworld_of pbt bs) pend"
proof -
  have "slot_named sl"
    using assms by (auto simp: bus_inv_def)
  then have "cell_ok sl (bs_net bs) (sent sl) (bs_pub bs sl)" "pool_ok (bs_pool bs)"
    using assms(1) by (simp_all add: bus_inv_def)
  then show ?thesis
    using assms(2) that by (auto simp: cell_ok_def cell_holds_def bw_ok_def bworld_of_def)
qed

lemma slot_Add_ok:
  assumes inv: "bus_inv bs sent" and open_bus: "\<not> bs_closed bs" and cell: "bs_pub bs sl = Some pbt"
  shows "\<exists>bs'. slot_Add log_publish picks sl msg bs = Some (bs', None) \<and> bus_inv bs' (sent(sl := sent sl @ [msg])) \<and>
    bs_closed bs' = bs_closed bs \<and> bs_serType bs' = bs_serType bs \<and> bs_serID bs' = bs_serID bs"
proof -
  obtain pend :: "unit message list" where pend: "holds (tb_buf (pb_tb pbt)) (tb_count (pb_tb pbt)) pend"
    "pubd (slot_subject sl) (bs_net bs) @ frames pend = frames (sent sl)" "bw_ok (bworld_of pbt bs) pend"
    using bus_inv_cell [OF inv cell] by blast
  have run: "tb_state (bw_tb (bworld_of pbt bs)) = stateRunning"
    using inv open_bus cell by (simp add: bus_inv_def bworld_of_def)
  let ?f = "pub_flush log_publish (pb_subject pbt)"
  obtain w blocks pend' where w: "Add ?f picks msg (bworld_of pbt bs) = Some (w, None)"
    "pend @ [msg] = concat blocks @ pend'" "bw_out w = feed ?f blocks (bw_out (bworld_of pbt bs))"
    "bw_ok w pend'" "tb_state (bw_tb w) = stateRunning"
    using Add_ok [OF pend(3) run, of ?f picks msg] by (elim exE conjE) (rule that)
  have "bus_inv (store_world sl pbt w bs) (sent(sl := sent sl @ [msg]))"
    using w(4,5) by (intro bus_inv_move [OF inv cell pend(1,2) w(3,2)]) (auto simp: bw_ok_def)
  then show ?thesis
    using w(1) cell by (auto simp: slot_Add_def store_world_def split: prod.split)
qed

lemma slot_tick_ok:
  assumes inv: "bus_inv bs sent" and open_bus: "\<not> bs_closed bs"
  shows "bus_inv (slot_tick log_publish sl bs) sent \<and> bs_closed (slot_tick log_publish sl bs) = bs_closed bs \<and>
    bs_serType (slot_tick log_publish sl bs) = bs_serType bs \<and> bs_serID (slot_tick log_publish sl bs) = bs_serID bs"
proof (cases "bs_pub bs sl")
  case (Some pbt)
  obtain pend :: "unit message list" where pend: "holds (tb_buf (pb_tb pbt)) (tb_count (pb_tb pbt)) pend"
    "pubd (slot_subject sl) (bs_net bs) @ frames pend = frames (sent sl)" "bw_ok (bworld_of pbt bs) pend"
    using bus_inv_cell [OF inv Some] by blast
  have run: "tb_state (bw_tb (bworld_of pbt bs)) = stateRunning"
    using inv open_bus Some by (simp add: bus_inv_def bworld_of_def)
  let ?f = "pub_flush log_publish (pb_subject pbt)"
  let ?w = "tick ?f (bworld_of pbt bs)"
  obtain blocks pend' where w: "bw_out ?w = feed ?f blocks (bw_out (bworld_of pbt bs))"
    "pend @ [] = concat blocks @ pend'" "bw_ok ?w pend'" "tb_state (bw_tb ?w) = stateRunning"
    using tick_ok [OF pend(3), of ?f] run by auto
  have "bus_inv (store_world sl pbt ?w bs) (sent(sl := sent sl @ []))"
    using w(3,4) by (intro bus_inv_move [OF inv Some pend(1,2) w(1,2)]) (auto simp: bw_ok_def)
  then show ?thesis
    using Some by (auto simp: slot_tick_def store_world_def split: prod.split)
qed (simp add: slot_tick_def inv)

definition cell_done :: "pubBatcher option \<Rightarrow> bool" where
  "cell_done c = (\<forall>pbt. c = Some pbt \<longrightarrow> tb_state (pb_tb pbt) = stateStopped)"

lemma slot_Close_ok:
  assumes inv: "bus_inv bs sent" and closed: "bs_closed bs"
  shows "bus_inv (slot_Close log_publish sl bs) sent \<and> bs_closed (slot_Close log_publish sl bs) \<and>
    cell_done (bs_pub (slot_Close log_publish sl bs) sl) \<and>
    (\<forall>sl'. sl' \<noteq> sl \<longrightarrow> bs_pub (slot_Close log_publish sl bs) sl' = bs_pub bs sl')"
proof (cases "bs_pub bs sl")
  case (Some pbt)
  obtain pend :: "unit message list" where pend: "holds (tb_buf (pb_tb pbt)) (tb_count (pb_tb pbt)) pend"
    "pubd (slot_subject sl) (bs_net bs) @ frames pend = frames (sent sl)" "bw_ok (bworld_of pbt bs) pend"
    "tb_state (pb_tb pbt) = stateRunning \<or> tb_state (pb_tb pbt) = stateStopped \<and> pend = []"
    using bus_inv_cell [OF inv Some] by blast
  let ?f = "pub_flush log_publish (pb_subject pbt)"
  let ?w = "Batcher_Close ?f (bworld_of pbt bs)"
  have "\<exists>blocks. bw_out ?w = feed ?f blocks (bw_out (bworld_of pbt bs)) \<and> concat blocks = pend \<and> bw_ok ?w ([] :: unit message list) \<and>
      tb_state (bw_tb ?w) = stateStopped"
  proof (cases "tb_state (pb_tb pbt) = stateRunning")
    case True
    then have "tb_state (bw_tb (bworld_of pbt bs)) = stateRunning"
      by (simp add: bworld_of_def)
    from Close_ok [OF pend(3) this, of ?f] show ?thesis
      by blast
  next
    case False
    then have "?w = bworld_of pbt bs" "pend = []" "tb_state (pb_tb pbt) = stateStopped"
      using pend(4) by (auto simp: Batcher_Close_def bworld_of_def)
    then show ?thesis
      using pend(3) by (intro exI [of _ "[]"]) (auto simp: feed_def bworld_of_def)
  qed
  then obtain blocks where w: "bw_out ?w = feed ?f blocks (bw_out (bworld_of pbt bs))" "pend @ [] = concat blocks @ []"
    "bw_ok ?w ([] :: unit message list)" "tb_state (bw_tb ?w) = stateStopped"
    by auto
  have "bus_inv (store_world sl pbt ?w bs) (sent(sl := sent sl @ []))"
    using w(3,4) closed by (intro bus_inv_move [OF inv Some pend(1,2) w(1,2)]) (auto simp: bw_ok_def)
  then show ?thesis
    using Some w(4) closed by (auto simp: slot_Close_def store_world_def cell_done_def split: prod.split)
qed (simp add: slot_Close_def inv closed cell_done_def)


section \<open>Runs of the bus\<close>

datatype target = ToNode int u8 | ToClient u8 | ToAny int | ToBroadcast int | ViaCenter int u8

datatype bus_event =
    ESend target "nat option \<times> nat option" u32 bytes u64 u64
  | EBusTick slot

fun send_to :: "target \<Rightarrow> nat option \<times> nat option \<Rightarrow> u32 \<Rightarrow> bytes \<Rightarrow> u64 \<Rightarrow> u64 \<Rightarrow> packets databus \<Rightarrow>
  (packets databus \<times> bus_err option) option"
where
  "send_to (ToNode t i) picks msgID data a s bs = SendToNode log_publish picks t i msgID data a s bs"
| "send_to (ToClient i) picks msgID data a s bs = ForwardToClient log_publish picks i msgID data a s bs"
| "send_to (ToAny t) picks msgID data a s bs = SendToAny log_publish picks t msgID data a s bs"
| "send_to (ToBroadcast t) picks msgID data a s bs = BroadcastTo log_publish picks t msgID data a s bs"
| "send_to (ViaCenter t i) picks msgID data a s bs = RelayTo log_publish picks t i msgID data a s bs"

fun target_slot :: "target \<Rightarrow> slot" where
  "target_slot (ToNode t i) = SNode (nat t) (unat i)"
| "target_slot (ToClient i) = SNode 0 (unat i)"
| "target_slot (ToAny t) = SAny (nat t)"
| "target_slot (ToBroadcast t) = SBroadcast (nat t)"
| "target_slot (ViaCenter t i) = SAny 3"

fun target_ok :: "target \<Rightarrow> bool" where
  "target_ok (ToNode t i) = (Server_name t \<noteq> None \<and> unat i < 64)"
| "target_ok (ToClient i) = (unat i < 64)"
| "target_ok (ToAny t) = (Server_name t \<noteq> None)"
| "target_ok (ToBroadcast t) = (Server_name t \<noteq> None)"
| "target_ok (ViaCenter t i) = True"

fun target_head :: "target \<Rightarrow> u8 \<times> u8 \<times> u8" where
  "target_head (ToNode t i) = (word_of_int t, i, Normal)"
| "target_head (ToClient i) = (0, i, Forward)"
| "target_head (ToAny t) = (word_of_int t, 0, Normal)"
| "target_head (ToBroadcast t) = (word_of_int t, 0, Normal)"
| "target_head (ViaCenter t i) = (word_of_int t, i, Forward)"

definition sent_msg :: "u8 \<Rightarrow> u8 \<Rightarrow> target \<Rightarrow> u32 \<Rightarrow> bytes \<Rightarrow> u64 \<Rightarrow> u64 \<Rightarrow> unit message" where
  "sent_msg serType serID tg msgID data a s = (case target_head tg of (toSer, toSerID, flag) \<Rightarrow>
     \<lparr>Head = \<lparr>ActorID = a, SesID = s, MsgID = msgID, Flag = flag, FromSer = serType, FromSerID = serID,
        ToSer = toSer, ToSerID = toSerID\<rparr>, Data = data, U = None, reply = []\<rparr>)"

fun bus_run :: "bus_event list \<Rightarrow> packets databus \<Rightarrow> packets databus option" where
  "bus_run [] bs = Some bs"
| "bus_run (ESend tg picks msgID data a s # evs) bs = do { (bs, _) \<leftarrow> send_to tg picks msgID data a s bs; bus_run evs bs }"
| "bus_run (EBusTick sl # evs) bs = bus_run evs (slot_tick log_publish sl bs)"

fun sent_on :: "u8 \<Rightarrow> u8 \<Rightarrow> slot \<Rightarrow> bus_event list \<Rightarrow> unit message list" where
  "sent_on ty i sl [] = []"
| "sent_on ty i sl (ESend tg picks msgID data a s # evs) =
     (if target_slot tg = sl then [sent_msg ty i tg msgID data a s] else []) @ sent_on ty i sl evs"
| "sent_on ty i sl (EBusTick _ # evs) = sent_on ty i sl evs"

fun event_ok :: "bus_event \<Rightarrow> bool" where
  "event_ok (ESend tg picks msgID data a s) = target_ok tg"
| "event_ok (EBusTick sl) = True"

definition target_pub :: "target \<Rightarrow> pubBatcher" where
  "target_pub tg = NewPubBatcher (slot_subject (target_slot tg))"

lemma named_bound: "Server_name t = Some s \<Longrightarrow> 0 \<le> t \<and> t < 64"
  by (auto dest!: Server_name_cases)

lemma Server_name_known: "Server_name 0 = Some ''Gateway''" "Server_name 3 = Some ''Center''"
  by (simp_all add: Server_name_def)

lemma named_int_nat: "Server_name t = Some s \<Longrightarrow> Server_name (int (nat t)) = Some s"
  using named_bound [of t s] by simp

lemma target_slot_named: "target_ok tg \<Longrightarrow> slot_named (target_slot tg)"
  by (cases tg) (auto simp: SvcIDMax_def named_int_nat Server_name_known)

lemma send_to_eq:
  assumes "target_ok tg" "\<not> bs_closed bs"
  shows "send_to tg picks msgID data a s bs =
    send_on log_publish picks (Some (load_or_store (target_slot tg) (target_pub tg) (bs_pub bs)))
      (sent_msg (bs_serType bs) (bs_serID bs) tg msgID data a s) bs"
  using assms
  by (cases tg) (auto simp: SendToNode_def ForwardToClient_def SendToAny_def BroadcastTo_def RelayTo_def
      Batchers_Node_def Batchers_Any_def Batchers_Broadcast_def SvcTypeMax_def SvcIDMax_def
      Server_Gateway_def Server_Center_def sent_msg_def target_pub_def slot_subject_def
      NewNodePub_def NewAnyPub_def NewBroadcastPub_def dest: named_bound)

lemma bus_inv_create:
  assumes "bus_inv bs sent" "slot_named sl" "bs_pub bs sl = None"
  shows "bus_inv (bs\<lparr>bs_pub := (bs_pub bs)(sl \<mapsto> NewPubBatcher (slot_subject sl))\<rparr>) sent"
proof -
  have "cell_holds sl (bs_net bs) (sent sl) (NewPubBatcher (slot_subject sl))"
    using assms batch_consts
    by (auto simp: bus_inv_def cell_ok_def cell_holds_def NewPubBatcher_def NewBatcher_def holds_def split: option.splits)
  then show ?thesis
    using assms by (auto simp: bus_inv_def cell_ok_def NewPubBatcher_def NewBatcher_def)
qed

lemma send_to_ok:
  assumes inv: "bus_inv bs sent" and open_bus: "\<not> bs_closed bs" and tg: "target_ok tg"
  shows "\<exists>bs'. send_to tg picks msgID data a s bs = Some (bs', None) \<and>
    bus_inv bs' (sent(target_slot tg := sent (target_slot tg) @ [sent_msg (bs_serType bs) (bs_serID bs) tg msgID data a s])) \<and>
    bs_closed bs' = bs_closed bs \<and> bs_serType bs' = bs_serType bs \<and> bs_serID bs' = bs_serID bs"
proof -
  let ?sl = "target_slot tg" and ?m = "sent_msg (bs_serType bs) (bs_serID bs) tg msgID data a s"
  define bs1 where "bs1 = (case bs_pub bs ?sl of Some _ \<Rightarrow> bs
      | None \<Rightarrow> bs\<lparr>bs_pub := (bs_pub bs)(?sl \<mapsto> NewPubBatcher (slot_subject ?sl))\<rparr>)"
  have one: "bus_inv bs1 sent" "bs_closed bs1 = bs_closed bs" "bs_serType bs1 = bs_serType bs" "bs_serID bs1 = bs_serID bs"
    "\<exists>pbt. bs_pub bs1 ?sl = Some pbt"
    using inv bus_inv_create [OF inv target_slot_named [OF tg]] by (auto simp: bs1_def split: option.split)
  have "send_to tg picks msgID data a s bs = slot_Add log_publish picks ?sl ?m bs1"
    by (simp add: send_to_eq [OF tg open_bus] send_on_def load_or_store_def bs1_def target_pub_def split: option.split)
  then show ?thesis
    using slot_Add_ok [OF one(1), of ?sl _ picks ?m] one open_bus by auto
qed

lemma bus_run_ok:
  assumes "bus_inv bs sent" "\<not> bs_closed bs" "\<forall>e \<in> set evs. event_ok e"
  shows "\<exists>bs'. bus_run evs bs = Some bs' \<and> \<not> bs_closed bs' \<and>
    bus_inv bs' (\<lambda>sl. sent sl @ sent_on (bs_serType bs) (bs_serID bs) sl evs)"
  using assms
proof (induction evs arbitrary: bs sent)
  case (Cons e evs)
  show ?case
  proof (cases e)
    case (ESend tg picks msgID data a s)
    then obtain bs1 where one: "send_to tg picks msgID data a s bs = Some (bs1, None)"
      "bus_inv bs1 (sent(target_slot tg := sent (target_slot tg) @ [sent_msg (bs_serType bs) (bs_serID bs) tg msgID data a s]))"
      "\<not> bs_closed bs1" "bs_serType bs1 = bs_serType bs" "bs_serID bs1 = bs_serID bs"
      using send_to_ok [OF Cons.prems(1,2), of tg picks msgID data a s] Cons.prems by auto
    have fe: "(\<lambda>sl. (sent(target_slot tg := sent (target_slot tg) @ [sent_msg (bs_serType bs) (bs_serID bs) tg msgID data a s])) sl @
        sent_on (bs_serType bs) (bs_serID bs) sl evs) = (\<lambda>sl. sent sl @ sent_on (bs_serType bs) (bs_serID bs) sl (e # evs))"
      by (auto simp: ESend)
    show ?thesis
      using Cons.IH [OF one(2,3)] Cons.prems(3) one(1) unfolding one(4,5) fe by (simp add: ESend)
  next
    case (EBusTick sl)
    show ?thesis
      using Cons.IH [of "slot_tick log_publish sl bs" sent] slot_tick_ok [OF Cons.prems(1,2), of sl] Cons.prems
      by (simp add: EBusTick)
  qed
qed simp


lemma FlushAll_ok:
  assumes "bus_inv bs sent" "bs_closed bs"
  shows "bus_inv (fold (slot_Close log_publish) sls bs) sent \<and>
    (\<forall>sl. sl \<in> set sls \<or> cell_done (bs_pub bs sl) \<longrightarrow> cell_done (bs_pub (fold (slot_Close log_publish) sls bs) sl))"
  using assms
proof (induction sls arbitrary: bs)
  case (Cons sl sls)
  let ?bs = "slot_Close log_publish sl bs"
  have ok: "bus_inv ?bs sent" "bs_closed ?bs" "cell_done (bs_pub ?bs sl)" "\<And>sl'. sl' \<noteq> sl \<Longrightarrow> bs_pub ?bs sl' = bs_pub bs sl'"
    using slot_Close_ok [OF Cons.prems, of sl] by auto
  show ?case
    using Cons.IH [OF ok(1,2)] ok(3,4) by (auto; metis)
qed simp

lemma named_in_all_slots: "slot_named sl \<Longrightarrow> sl \<in> set all_slots"
  by (cases sl) (auto simp: all_slots_def SvcTypeMax_def SvcIDMax_def image_iff dest!: named_bound)

definition new_bus :: "u8 \<Rightarrow> u8 \<Rightarrow> bytes_pool \<Rightarrow> packets databus" where
  "new_bus serType serID pool = \<lparr>bs_conn = True, bs_rpcConn = True, bs_serType = serType, bs_serID = serID,
     bs_closed = False, bs_pub = Map.empty, bs_pool = pool, bs_net = []\<rparr>"

lemma bus_inv_new: "pool_ok pool \<Longrightarrow> bus_inv (new_bus ty i pool) (\<lambda>_. [])"
  by (simp add: bus_inv_def new_bus_def cell_ok_def pubd_def)

text \<open>Closing an open bus publishes what its batchers still hold.\<close>

lemma closed_bus_published:
  assumes "bus_inv bs sent" "\<not> bs_closed bs" "slot_named sl"
  shows "pubd (slot_subject sl) (bs_net (DataBus_Close log_publish bs)) = frames (sent sl)"
proof -
  let ?bs = "bs\<lparr>bs_closed := True\<rparr>"
  let ?fin = "fold (slot_Close log_publish) all_slots ?bs"
  have "bus_inv ?bs sent" "bs_closed ?bs"
    using assms(1) by (auto simp: bus_inv_def)
  note fl = FlushAll_ok [OF this, of all_slots]
  have "cell_done (bs_pub ?fin sl)" "cell_ok sl (bs_net ?fin) (sent sl) (bs_pub ?fin sl)"
    using fl named_in_all_slots [OF assms(3)] assms(3) by (auto simp: bus_inv_def)
  then have "pubd (slot_subject sl) (bs_net ?fin) = frames (sent sl)"
    by (auto simp: cell_ok_def cell_done_def cell_holds_def split: option.splits)
  then show ?thesis
    using assms(2) by (simp add: DataBus_Close_def FlushAll_def)
qed

text \<open>What a cell is sent when every input \<open>x\<close> puts at most one message, \<open>f x\<close>, on the bus.\<close>

definition slot_msgs :: "('x \<Rightarrow> (slot \<times> unit message) option) \<Rightarrow> slot \<Rightarrow> 'x list \<Rightarrow> unit message list" where
  "slot_msgs f sl xs = map snd (filter (\<lambda>m. fst m = sl) (List.map_filter f xs))"

lemma slot_msgs_Nil: "slot_msgs f sl [] = []"
  by (simp add: slot_msgs_def List.map_filter_def)

lemma slot_msgs_one: "slot_msgs f sl [x] = (case f x of None \<Rightarrow> [] | Some (sl', m) \<Rightarrow> if sl' = sl then [m] else [])"
  by (auto simp: slot_msgs_def List.map_filter_def split: option.split)

lemma slot_msgs_Cons: "slot_msgs f sl (x # xs) = slot_msgs f sl [x] @ slot_msgs f sl xs"
  by (simp add: slot_msgs_def List.map_filter_def)

lemma slot_msgs_mem: "m \<in> set (slot_msgs f sl xs) \<longleftrightarrow> (\<exists>x \<in> set xs. f x = Some (sl, m))"
  unfolding slot_msgs_def List.map_filter_def by force

section \<open>Properties\<close>


definition demo_events :: "bus_event list" where
  "demo_events = [ESend (ToNode 2 1) (None, None) 14 [1] 5 6, ESend (ToClient 3) (None, None) 101 [9, 9] 5 6,
     EBusTick (SNode 2 1), ESend (ToNode 2 1) (Some 0, None) 15 [] 5 6]"



section \<open>Subscriptions\<close>

definition rpc_subject :: "int \<Rightarrow> u8 \<Rightarrow> string" where
  "rpc_subject serType serID = ''rpc.'' @ SrvName serType @ ''.node.'' @ itoa (unat serID)"

definition rpc_cache_ok :: "(u64 \<rightharpoonup> string) \<Rightarrow> bool" where
  "rpc_cache_ok c = (\<forall>t i v. 0 \<le> t \<and> t < 64 \<and> c (rpc_key t i) = Some v \<longrightarrow> v = rpc_subject t i)"

lemma rpc_key_inj:
  assumes "rpc_key t i = rpc_key t' i'" "0 \<le> t" "t < 64" "0 \<le> t'" "t' < 64"
  shows "t = t' \<and> i = i'"
proof -
  have lo: "i = (ucast (rpc_key t i) :: u8)" for t i
    by (rule bit_word_eqI) (auto simp: rpc_key_def bit_simps)
  have no_bit: "\<not> bit j (32 + n)" for j :: u8 and n
    using bit_imp_le_length [of j "32 + n"] by auto
  have hi: "drop_bit 32 (rpc_key t i) = take_bit 32 (word_of_int t)" for t i
    using no_bit by (intro bit_word_eqI) (auto simp: rpc_key_def bit_simps)
  have low: "uint (take_bit 32 (word_of_int k) :: u64) = k" if "0 \<le> k" "k < 64" for k
    using that by (simp add: unsigned_take_bit_eq unsigned_of_int take_bit_int_eq_self)
  have "t = uint (drop_bit 32 (rpc_key t i))" "t' = uint (drop_bit 32 (rpc_key t' i'))"
    unfolding hi using low assms(2-5) by auto
  then have "t = t'"
    using assms(1) by simp
  then show ?thesis
    using lo [of i t] lo [of i' t'] assms(1) by metis
qed

lemma rpcNodeSubjectName_ok:
  assumes "rpc_cache_ok c" "0 \<le> t" "t < 64"
  shows "fst (rpcNodeSubjectName c t i) = rpc_subject t i" and "rpc_cache_ok (snd (rpcNodeSubjectName c t i))"
proof -
  show "fst (rpcNodeSubjectName c t i) = rpc_subject t i"
    using assms by (auto simp: rpcNodeSubjectName_def rpc_cache_ok_def rpc_subject_def Let_def split: option.split)
  show "rpc_cache_ok (snd (rpcNodeSubjectName c t i))"
  proof (cases "c (rpc_key t i)")
    case None
    then show ?thesis
      using assms unfolding rpcNodeSubjectName_def rpc_cache_ok_def
      by (auto simp: rpc_subject_def Let_def split: if_splits dest: rpc_key_inj)
  qed (use assms(1) in \<open>simp add: rpcNodeSubjectName_def\<close>)
qed

lemma Split_rpc: "Split CHR ''.'' (rpc_subject t i) = [''rpc'', SrvName t, ''node'', itoa (unat i)]"
  by (simp add: rpc_subject_def Split_append Server_name_no_dot Split_no_sep no_dot_itoa)

lemma subject_eqs:
  assumes "Server_name t \<noteq> None" "Server_name t' \<noteq> None"
  shows "nodeSubjectName t i = nodeSubjectName t' i' \<longleftrightarrow> t = t' \<and> i = i'"
    and "anySubjectName t = anySubjectName t' \<longleftrightarrow> t = t'"
    and "broadcastSubjectName t = broadcastSubjectName t' \<longleftrightarrow> t = t'"
proof -
  have name: "SrvName t = SrvName t' \<longleftrightarrow> t = t'"
    using assms Server_name_inj by (auto simp: SrvName_def)
  show "nodeSubjectName t i = nodeSubjectName t' i' \<longleftrightarrow> t = t' \<and> i = i'"
    using Split_subjects(1) [of t i] Split_subjects(1) [of t' i'] name by (auto dest: unsigned_word_eqI)
  show "anySubjectName t = anySubjectName t' \<longleftrightarrow> t = t'"
    using Split_subjects(2) [of t] Split_subjects(2) [of t'] name by auto
  show "broadcastSubjectName t = broadcastSubjectName t' \<longleftrightarrow> t = t'"
    using Split_subjects(3) [of t] Split_subjects(3) [of t'] name by auto
qed

lemma subject_kinds:
  "nodeSubjectName t i \<noteq> anySubjectName t'" "nodeSubjectName t i \<noteq> broadcastSubjectName t'"
  "anySubjectName t \<noteq> broadcastSubjectName t'" "rpc_subject t j \<noteq> nodeSubjectName t' i'"
  "rpc_subject t j \<noteq> anySubjectName t'" "rpc_subject t j \<noteq> broadcastSubjectName t'"
  by (auto dest!: arg_cong [where f = "Split CHR ''.''"] simp: Split_subjects Split_rpc)

text \<open>
  Each message subject has exactly the intended subscribers: a node subscribes to its own node
  subject and to no other node's, to the \<^verbatim>\<open>any\<close> subject of its own type only (as a member of the queue
  group), and to the broadcast subject of its own type only (without a queue group).
\<close>

theorem subscriptions_exact:
  assumes "Server_name t \<noteq> None" and "Server_name t' \<noteq> None" and "rpc_cache_ok c"
  shows "(nodeSubjectName t i \<in> dom (getSubjects c t' i')) = (t = t' \<and> i = i') \<and>
    (anySubjectName t \<in> dom (getSubjects c t' i')) = (t = t') \<and>
    (broadcastSubjectName t \<in> dom (getSubjects c t' i')) = (t = t') \<and>
    getSubjects c t' i' (nodeSubjectName t' i') = Some [] \<and>
    getSubjects c t' i' (anySubjectName t') = Some ''msg.group'' \<and>
    getSubjects c t' i' (broadcastSubjectName t') = Some []"
proof -
  have "fst (rpcNodeSubjectName c t' i') = rpc_subject t' i'"
    using assms named_bound [of t'] by (auto intro: rpcNodeSubjectName_ok)
  then show ?thesis
    using subject_eqs [OF assms(1,2)]
    by (simp add: getSubjects_def dom_def subject_kinds subject_kinds [symmetric])
qed

theorem subscriptions_exact_witness:
  "nodeSubjectName 2 1 \<in> dom (getSubjects Map.empty 2 1) \<and> nodeSubjectName 2 1 \<notin> dom (getSubjects Map.empty 2 3) \<and>
   anySubjectName 2 \<in> dom (getSubjects Map.empty 2 3) \<and> anySubjectName 2 \<notin> dom (getSubjects Map.empty 3 1) \<and>
   getSubjects Map.empty 2 1 (anySubjectName 2) = Some ''msg.group''"
proof -
  have "Server_name 2 \<noteq> None" "Server_name 3 \<noteq> None" "rpc_cache_ok Map.empty"
    by (simp_all add: Server_name_def rpc_cache_ok_def)
  then show ?thesis
    using subscriptions_exact [of 2 2 Map.empty 1 1] subscriptions_exact [of 2 2 Map.empty 1 3]
      subscriptions_exact [of 2 3 Map.empty 1 1] by simp
qed

end
