(* ===== verification/Pb_Meta.thy ===== *)
theory Pb_Meta
  imports Base
begin

text \<open>
  The message registry of \<^verbatim>\<open>src/api/pb/init.go\<close>: per direction a table from message numbers to types
  and back, filled at start-up from \<^verbatim>\<open>src/api/pb/msg_helper.go\<close> with the numbers of
  \<^verbatim>\<open>src/api/pb/msgid\<close>.  A \<^verbatim>\<open>reflect.Type\<close> is the message type it stands for.
\<close>

datatype msg_type =
    C2SNone | C2SAccountHandle | C2SLogin | C2SGameHandle | C2SClientReady
  | C2SHeartBeat | C2SWithoutRole | C2SEcho
  | S2CNone | S2CHeartBeat | S2CGateHandle | S2CLogin | S2CKickRole
  | S2CDayChange | S2CDataReset | S2CEcho
  | S2SNone | S2SReqLogin | S2SReqLoginOrLogout | S2SResLoginOrLogout | S2SReqConfig
  | S2SResConfig | S2SKickAcc | S2SKickRole | S2SRelayToRole | S2SOfflineEvt
  | S2SResLogin | S2SGt2SDisconnect | S2SS2GtDisconnect | S2SRoleClear | S2SEcho
  | S2SRpcEchoReq | S2SRpcEchoRes | S2SRpcEchoRoleReq | S2SRpcEchoRoleRes

record messageMeta =
  MessageType :: msg_type
  NewMessage :: msg_type

record TypeMeta =
  idByType :: "u32 \<rightharpoonup> messageMeta"
  typeByID :: "msg_type \<rightharpoonup> u32"

definition TypeMeta_init :: TypeMeta where
  "TypeMeta_init = \<lparr>idByType = Map.empty, typeByID = Map.empty\<rparr>"

definition TypeMeta_Register :: "u32 \<Rightarrow> messageMeta \<Rightarrow> TypeMeta \<Rightarrow> TypeMeta" where
  "TypeMeta_Register i meta t = t\<lparr>idByType := (idByType t)(i \<mapsto> meta),
     typeByID := (typeByID t)(MessageType meta \<mapsto> i)\<rparr>"

definition TypeMeta_New :: "TypeMeta \<Rightarrow> u32 \<Rightarrow> msg_type option" where
  "TypeMeta_New t msgID = map_option NewMessage (idByType t msgID)"

definition TypeMeta_NewFunc :: "TypeMeta \<Rightarrow> u32 \<Rightarrow> (unit \<Rightarrow> msg_type) option" where
  "TypeMeta_NewFunc t msgID = (case idByType t msgID of Some m \<Rightarrow> Some (\<lambda>_. NewMessage m) | None \<Rightarrow> None)"

definition TypeMeta_MsgID :: "TypeMeta \<Rightarrow> msg_type \<Rightarrow> u32 option" where
  "TypeMeta_MsgID t ty = typeByID t ty"

definition meta_of :: "msg_type \<Rightarrow> messageMeta" where
  "meta_of ty = \<lparr>MessageType = ty, NewMessage = ty\<rparr>"

definition register_all :: "(u32 \<times> msg_type) list \<Rightarrow> TypeMeta" where
  "register_all tbl = fold (\<lambda>(i, ty). TypeMeta_Register i (meta_of ty)) tbl TypeMeta_init"

definition registerAllC2SMsg :: "(u32 \<times> msg_type) list" where
  "registerAllC2SMsg =
     [(0, C2SNone),
      (100000, C2SAccountHandle),
      (100001, C2SLogin),
      (200000, C2SGameHandle),
      (200001, C2SClientReady),
      (200004, C2SHeartBeat),
      (200006, C2SWithoutRole),
      (200007, C2SEcho)]"

definition registerAllS2CMsg :: "(u32 \<times> msg_type) list" where
  "registerAllS2CMsg =
     [(0, S2CNone),
      (2, S2CHeartBeat),
      (100, S2CGateHandle),
      (101, S2CLogin),
      (103, S2CKickRole),
      (104, S2CDayChange),
      (105, S2CDataReset),
      (106, S2CEcho)]"

definition registerAllS2SMsg :: "(u32 \<times> msg_type) list" where
  "registerAllS2SMsg =
     [(0, S2SNone),
      (1, S2SReqLogin),
      (8, S2SReqLoginOrLogout),
      (9, S2SResLoginOrLogout),
      (10, S2SReqConfig),
      (11, S2SResConfig),
      (12, S2SKickAcc),
      (13, S2SKickRole),
      (14, S2SRelayToRole),
      (15, S2SOfflineEvt),
      (18, S2SResLogin),
      (19, S2SGt2SDisconnect),
      (20, S2SS2GtDisconnect),
      (21, S2SRoleClear),
      (22, S2SEcho),
      (23, S2SRpcEchoReq),
      (24, S2SRpcEchoRes),
      (25, S2SRpcEchoRoleReq),
      (26, S2SRpcEchoRoleRes)]"

definition c2s :: TypeMeta where "c2s = register_all registerAllC2SMsg"
definition s2c :: TypeMeta where "s2c = register_all registerAllS2CMsg"
definition s2s :: TypeMeta where "s2s = register_all registerAllS2SMsg"

definition NewFuncC2S :: "u32 \<Rightarrow> (unit \<Rightarrow> msg_type) option" where "NewFuncC2S i = TypeMeta_NewFunc c2s i"
definition NewFuncS2C :: "u32 \<Rightarrow> (unit \<Rightarrow> msg_type) option" where "NewFuncS2C i = TypeMeta_NewFunc s2c i"
definition NewFuncS2S :: "u32 \<Rightarrow> (unit \<Rightarrow> msg_type) option" where "NewFuncS2S i = TypeMeta_NewFunc s2s i"

definition GetMsgIDC2S :: "msg_type \<Rightarrow> u32 option" where "GetMsgIDC2S ty = TypeMeta_MsgID c2s ty"
definition GetMsgIDS2C :: "msg_type \<Rightarrow> u32 option" where "GetMsgIDS2C ty = TypeMeta_MsgID s2c ty"
definition GetMsgIDS2S :: "msg_type \<Rightarrow> u32 option" where "GetMsgIDS2S ty = TypeMeta_MsgID s2s ty"

definition C2SMax :: u32 where "C2SMax = 999999"
definition S2SMax :: u32 where "S2SMax = 100000"

section \<open>The tables are inverse to each other\<close>

lemma fold_register:
  "fold (\<lambda>(i, ty). TypeMeta_Register i (meta_of ty)) tbl t =
     \<lparr>idByType = idByType t ++ map_of (rev (map (\<lambda>(i, ty). (i, meta_of ty)) tbl)),
      typeByID = typeByID t ++ map_of (rev (map (\<lambda>(i, ty). (ty, i)) tbl))\<rparr>"
  by (induction tbl arbitrary: t) (auto simp: TypeMeta_Register_def meta_of_def map_add_def fun_eq_iff split: option.split)

lemma register_all_fields:
  "idByType (register_all tbl) = map_of (rev (map (\<lambda>(i, ty). (i, meta_of ty)) tbl))"
  "typeByID (register_all tbl) = map_of (rev (map (\<lambda>(i, ty). (ty, i)) tbl))"
  by (simp_all add: register_all_def fold_register TypeMeta_init_def)

lemma map_of_rev_distinct: "distinct (map fst xs) \<Longrightarrow> map_of (rev xs) k = Some v \<longleftrightarrow> (k, v) \<in> set xs"
  by (subst map_of_eq_Some_iff) (simp_all flip: rev_map)

lemma register_all_inverse:
  assumes "distinct (map fst tbl)" "distinct (map snd tbl)"
  shows "typeByID (register_all tbl) ty = Some i \<longleftrightarrow> (i, ty) \<in> set tbl"
    and "idByType (register_all tbl) i = Some m \<longleftrightarrow> (\<exists>ty. (i, ty) \<in> set tbl \<and> m = meta_of ty)"
proof -
  have keys: "map fst (map (\<lambda>(i, ty). (ty, i)) tbl) = map snd tbl" "map fst (map (\<lambda>(i, ty). (i, meta_of ty)) tbl) = map fst tbl"
    by (induction tbl) auto
  show "typeByID (register_all tbl) ty = Some i \<longleftrightarrow> (i, ty) \<in> set tbl"
    unfolding register_all_fields using assms by (subst map_of_rev_distinct) (auto simp: keys simp del: map_map)
  show "idByType (register_all tbl) i = Some m \<longleftrightarrow> (\<exists>ty. (i, ty) \<in> set tbl \<and> m = meta_of ty)"
    unfolding register_all_fields using assms by (subst map_of_rev_distinct) (auto simp: keys simp del: map_map)
qed

lemma tables_distinct:
  "distinct (map fst registerAllC2SMsg)" "distinct (map snd registerAllC2SMsg)"
  "distinct (map fst registerAllS2CMsg)" "distinct (map snd registerAllS2CMsg)"
  "distinct (map fst registerAllS2SMsg)" "distinct (map snd registerAllS2SMsg)"
  by (simp_all add: registerAllC2SMsg_def registerAllS2CMsg_def registerAllS2SMsg_def)

lemma New_MsgID_inverse:
  assumes "distinct (map fst tbl)" "distinct (map snd tbl)"
  shows "TypeMeta_New (register_all tbl) i = Some ty \<longleftrightarrow> TypeMeta_MsgID (register_all tbl) ty = Some i"
  using register_all_inverse(1) [OF assms, of ty i] register_all_inverse(2) [OF assms, of i]
  by (auto simp: TypeMeta_New_def TypeMeta_MsgID_def meta_of_def)

lemma s2s_range: "GetMsgIDS2S ty = Some i \<Longrightarrow> i < S2SMax"
  unfolding GetMsgIDS2S_def TypeMeta_MsgID_def s2s_def register_all_inverse(1) [OF tables_distinct(5,6)]
  by (auto simp: registerAllS2SMsg_def S2SMax_def)

lemma c2s_range: "GetMsgIDC2S ty = Some i \<Longrightarrow> i = 0 \<or> S2SMax \<le> i \<and> i < C2SMax"
  unfolding GetMsgIDC2S_def TypeMeta_MsgID_def c2s_def register_all_inverse(1) [OF tables_distinct(1,2)]
  by (auto simp: registerAllC2SMsg_def S2SMax_def C2SMax_def)

section \<open>Property\<close>



end
