(* ===== verification/Router.thy ===== *)
theory Router
  imports Frame Pb_Meta
begin

text \<open>
  The message router of \<^verbatim>\<open>src/pkg/gnet/router\<close>.  The protobuf code that the build generates for each
  message is a parameter: the record \<^verbatim>\<open>vt\<close> of the functions the sources call (size, marshal into a
  buffer, unmarshal into an object, reset), with what is documented of them in \<^verbatim>\<open>vt_ok\<close>.  The handlers
  work on a state \<^verbatim>\<open>'s\<close>.
\<close>

section \<open>Generated messages\<close>

text \<open>
  \<^verbatim>\<open>vt_unmarshal m bs\<close> is \<^verbatim>\<open>m.UnmarshalVT(bs)\<close>, which merges into the object \<^verbatim>\<open>m\<close> and on an error
  (\<^const>\<open>Inl\<close>) leaves it partly filled;
  \<^verbatim>\<open>vt_marshal m buf\<close> is \<^verbatim>\<open>m.MarshalToSizedBufferVT(buf)\<close>, giving the buffer and the number of bytes.
\<close>

record 'm vt =
  vt_type :: "'m \<Rightarrow> msg_type"
  vt_zero :: "msg_type \<Rightarrow> 'm"
  vt_reset :: "'m \<Rightarrow> 'm"
  vt_size :: "'m \<Rightarrow> nat"
  vt_marshal :: "'m \<Rightarrow> bytes \<Rightarrow> (bytes \<times> nat) option"
  vt_unmarshal :: "'m \<Rightarrow> bytes \<Rightarrow> 'm + 'm"

definition vt_ok :: "'m vt \<Rightarrow> bool" where
  "vt_ok v =
     ((\<forall>t. vt_type v (vt_zero v t) = t) \<and>
      (\<forall>m. vt_reset v m = vt_zero v (vt_type v m)) \<and>
      (\<forall>m. vt_unmarshal v m [] = Inr m) \<and>
      (\<forall>m d m'. vt_unmarshal v m d = Inr m' \<or> vt_unmarshal v m d = Inl m' \<longrightarrow> vt_type v m' = vt_type v m) \<and>
      (\<forall>m buf. length buf = vt_size v m \<longrightarrow> (\<exists>e. vt_marshal v m buf = Some (e, vt_size v m) \<and>
         length e = vt_size v m \<and> vt_unmarshal v (vt_zero v (vt_type v m)) e = Inr m)))"

section \<open>Message factories\<close>

text \<open>A pooled factory holds the objects put back; \<^verbatim>\<open>pick\<close> is the choice of \<^verbatim>\<open>sync.Pool\<close>.\<close>

datatype 'm factory = PoolFactory "'m list" "unit \<Rightarrow> 'm" | NewFactory "unit \<Rightarrow> 'm"

fun factory_Get :: "'m vt \<Rightarrow> nat option \<Rightarrow> 'm factory \<Rightarrow> 'm \<times> 'm factory" where
  "factory_Get v pick (PoolFactory free create) = (case pick of
       Some i \<Rightarrow> if i < length free
         then (vt_reset v (free ! i), PoolFactory (take i free @ drop (Suc i) free) create)
         else (vt_reset v (create ()), PoolFactory free create)
     | None \<Rightarrow> (vt_reset v (create ()), PoolFactory free create))"
| "factory_Get v pick (NewFactory create) = (create (), NewFactory create)"

fun factory_Put :: "'m \<Rightarrow> 'm factory \<Rightarrow> 'm factory" where
  "factory_Put m (PoolFactory free create) = PoolFactory (m # free) create"
| "factory_Put m (NewFactory create) = NewFactory create"

definition new_factory :: "bool \<Rightarrow> (unit \<Rightarrow> 'm) \<Rightarrow> 'm factory" where
  "new_factory usePool cf = (if usePool then PoolFactory [] cf else NewFactory cf)"

section \<open>Handlers\<close>

datatype router_err = Err_not_ready | Err_range u32 | Err_already u32 | Err_no_handler u32 | Err_unmarshal | Err_respond
  | Err_no_meta msg_type

text \<open>A handle function may change the objects it is given, so it returns them with the new state.\<close>

datatype ('u, 'm, 's) ihandler =
    MsgHandler "'m factory" "'u message \<Rightarrow> 'm \<Rightarrow> 's \<Rightarrow> 'm \<times> 's"
  | RpcHandler "'m factory" "'m factory" "'u message \<Rightarrow> 'm \<Rightarrow> 'm \<Rightarrow> 's \<Rightarrow> 'm \<times> 'm \<times> 's"

definition decode_body :: "'m vt \<Rightarrow> 'm \<Rightarrow> bytes \<Rightarrow> 'm + 'm" where
  "decode_body v m data = (if length data > 0 then vt_unmarshal v m data else Inr m)"

text \<open>
  \<^verbatim>\<open>respond\<close> is \<^verbatim>\<open>msgq.RpcRespond\<close> with the reply subject and the result; it reports whether it
  failed.  The handler and its factories are updated objects of the router.
\<close>

fun ihandler_Handle ::
  "'m vt \<Rightarrow> (string \<Rightarrow> 'm \<Rightarrow> 's \<Rightarrow> 's \<times> bool) \<Rightarrow> nat option \<times> nat option \<Rightarrow> 'u message \<Rightarrow>
     ('u, 'm, 's) ihandler \<Rightarrow> 's \<Rightarrow> ('u, 'm, 's) ihandler \<times> 's \<times> router_err option"
where
  "ihandler_Handle v respond picks p (MsgHandler factory handleFunc) s =
     (let (m, factory) = factory_Get v (fst picks) factory
      in case decode_body v m (Data p) of
           Inl m \<Rightarrow> (MsgHandler (factory_Put m factory) handleFunc, s, Some Err_unmarshal)
         | Inr m \<Rightarrow>
             let (m, s) = handleFunc (p\<lparr>Data := []\<rparr>) m s
             in (MsgHandler (factory_Put m factory) handleFunc, s, None))"
| "ihandler_Handle v respond picks p (RpcHandler reqCreate resCreate handleFunc) s =
     (let (req, reqCreate) = factory_Get v (fst picks) reqCreate
      in case decode_body v req (Data p) of
           Inl req \<Rightarrow> (RpcHandler (factory_Put req reqCreate) resCreate handleFunc, s, Some Err_unmarshal)
         | Inr req \<Rightarrow>
             let (res, resCreate) = factory_Get v (snd picks) resCreate;
                 (req, res, s) = handleFunc (p\<lparr>Data := []\<rparr>) req res s;
                 (s, failed) = respond (Reply p) res s
             in (RpcHandler (factory_Put req reqCreate) (factory_Put res resCreate) handleFunc, s,
                 if failed then Some Err_respond else None))"

section \<open>The router\<close>

text \<open>The handler slice has length \<^verbatim>\<open>rt_max\<close>; a nil entry is \<^const>\<open>None\<close>.\<close>

record ('u, 'm, 's) router =
  rt_max :: nat
  rt_handlers :: "u32 \<Rightarrow> ('u, 'm, 's) ihandler option"

definition NewMsgRouter :: "nat \<Rightarrow> ('u, 'm, 's) router" where
  "NewMsgRouter mx = \<lparr>rt_max = mx, rt_handlers = (\<lambda>_. None)\<rparr>"

definition check_register :: "bool \<Rightarrow> u32 \<Rightarrow> ('u, 'm, 's) router \<Rightarrow> router_err option" where
  "check_register isReady msgID rt =
     (if isReady then Some Err_not_ready
      else if msgID \<ge> word_of_nat (rt_max rt) then Some (Err_range msgID)
      else if rt_handlers rt msgID \<noteq> None then Some (Err_already msgID)
      else None)"

definition Router_Register ::
  "bool \<Rightarrow> u32 \<Rightarrow> (unit \<Rightarrow> 'm) \<Rightarrow> bool \<Rightarrow> ('u message \<Rightarrow> 'm \<Rightarrow> 's \<Rightarrow> 'm \<times> 's) \<Rightarrow> ('u, 'm, 's) router \<Rightarrow>
     ('u, 'm, 's) router \<times> router_err option"
where
  "Router_Register isReady msgID cf usePool df rt = (case check_register isReady msgID rt of
       Some err \<Rightarrow> (rt, Some err)
     | None \<Rightarrow> (rt\<lparr>rt_handlers := (rt_handlers rt)(msgID := Some (MsgHandler (new_factory usePool cf) df))\<rparr>, None))"

definition Router_RegisterRpc ::
  "bool \<Rightarrow> u32 \<Rightarrow> (unit \<Rightarrow> 'm) \<Rightarrow> (unit \<Rightarrow> 'm) \<Rightarrow> bool \<Rightarrow> ('u message \<Rightarrow> 'm \<Rightarrow> 'm \<Rightarrow> 's \<Rightarrow> 'm \<times> 'm \<times> 's) \<Rightarrow>
     ('u, 'm, 's) router \<Rightarrow> ('u, 'm, 's) router \<times> router_err option"
where
  "Router_RegisterRpc isReady msgID createReq createRes usePool df rt = (case check_register isReady msgID rt of
       Some err \<Rightarrow> (rt, Some err)
     | None \<Rightarrow> (rt\<lparr>rt_handlers := (rt_handlers rt)(msgID :=
         Some (RpcHandler (new_factory usePool createReq) (new_factory usePool createRes) df))\<rparr>, None))"

definition getHandler :: "u32 \<Rightarrow> ('u, 'm, 's) router \<Rightarrow> router_err + ('u, 'm, 's) ihandler" where
  "getHandler i rt =
     (if i \<ge> word_of_nat (rt_max rt) then Inl (Err_range i)
      else case rt_handlers rt i of None \<Rightarrow> Inl (Err_no_handler i) | Some n \<Rightarrow> Inr n)"

definition Router_Handle ::
  "'m vt \<Rightarrow> (string \<Rightarrow> 'm \<Rightarrow> 's \<Rightarrow> 's \<times> bool) \<Rightarrow> nat option \<times> nat option \<Rightarrow> 'u message \<Rightarrow>
     ('u, 'm, 's) router \<Rightarrow> 's \<Rightarrow> ('u, 'm, 's) router \<times> 's \<times> router_err option"
where
  "Router_Handle v respond picks p rt s = (case getHandler (MsgID (Head p)) rt of
       Inl err \<Rightarrow> (rt, s, Some err)
     | Inr h \<Rightarrow> let (h, s, err) = ihandler_Handle v respond picks p h s
                in (rt\<lparr>rt_handlers := (rt_handlers rt)(MsgID (Head p) := Some h)\<rparr>, s, err))"

section \<open>Registration by message type\<close>

definition FindMsgIDAndCreateFunc :: "'m vt \<Rightarrow> msg_type \<Rightarrow> router_err + u32 \<times> (unit \<Rightarrow> 'm)" where
  "FindMsgIDAndCreateFunc v ty = (case GetMsgIDS2S ty of
       Some i \<Rightarrow> (case NewFuncS2S i of None \<Rightarrow> Inl (Err_no_meta ty) | Some f \<Rightarrow> Inr (i, \<lambda>u. vt_zero v (f u)))
     | None \<Rightarrow> (case GetMsgIDC2S ty of
         Some i \<Rightarrow> (case NewFuncC2S i of None \<Rightarrow> Inl (Err_no_meta ty) | Some f \<Rightarrow> Inr (i, \<lambda>u. vt_zero v (f u)))
       | None \<Rightarrow> Inl (Err_no_meta ty)))"

definition register_handler ::
  "'m vt \<Rightarrow> bool \<Rightarrow> bool \<Rightarrow> msg_type \<Rightarrow> ('u message \<Rightarrow> 'm \<Rightarrow> 's \<Rightarrow> 'm \<times> 's) \<Rightarrow> ('u, 'm, 's) router \<Rightarrow> ('u, 'm, 's) router option"
where
  "register_handler v isReady usePool ty df rt = (case FindMsgIDAndCreateFunc v ty of
       Inl err \<Rightarrow> None
     | Inr (msgID, createFunc) \<Rightarrow>
         (case Router_Register isReady msgID createFunc usePool df rt of
            (rt, None) \<Rightarrow> Some rt | (rt, Some err) \<Rightarrow> None))"

definition registerRpc ::
  "'m vt \<Rightarrow> bool \<Rightarrow> bool \<Rightarrow> msg_type \<Rightarrow> msg_type \<Rightarrow> ('m \<Rightarrow> 'm \<Rightarrow> 's \<Rightarrow> 'm \<times> 'm \<times> 's) \<Rightarrow> ('u, 'm, 's) router \<Rightarrow>
     ('u, 'm, 's) router option"
where
  "registerRpc v isReady usePool reqTy resTy df rt = (case FindMsgIDAndCreateFunc v reqTy of
       Inl err \<Rightarrow> None
     | Inr (msgID, reqCreate) \<Rightarrow>
         (case Router_RegisterRpc isReady msgID reqCreate (\<lambda>_. vt_zero v resTy) usePool (\<lambda>p. df) rt of
            (rt, None) \<Rightarrow> Some rt | (rt, Some err) \<Rightarrow> None))"

definition On :: "'m vt \<Rightarrow> bool \<Rightarrow> msg_type \<Rightarrow> ('m \<Rightarrow> 's \<Rightarrow> 'm \<times> 's) \<Rightarrow> ('u, 'm, 's) router \<Rightarrow> ('u, 'm, 's) router option" where
  "On v isReady ty df = register_handler v isReady False ty (\<lambda>p. df)"

definition OnWithHead :: "'m vt \<Rightarrow> bool \<Rightarrow> msg_type \<Rightarrow> (head \<Rightarrow> 'm \<Rightarrow> 's \<Rightarrow> 'm \<times> 's) \<Rightarrow> ('u, 'm, 's) router \<Rightarrow> ('u, 'm, 's) router option" where
  "OnWithHead v isReady ty df = register_handler v isReady False ty (\<lambda>p. df (Head p))"

definition OnP :: "'m vt \<Rightarrow> bool \<Rightarrow> msg_type \<Rightarrow> ('m \<Rightarrow> 's \<Rightarrow> 'm \<times> 's) \<Rightarrow> ('u, 'm, 's) router \<Rightarrow> ('u, 'm, 's) router option" where
  "OnP v isReady ty df = register_handler v isReady True ty (\<lambda>p. df)"

definition OnRpc :: "'m vt \<Rightarrow> bool \<Rightarrow> msg_type \<Rightarrow> msg_type \<Rightarrow> ('m \<Rightarrow> 'm \<Rightarrow> 's \<Rightarrow> 'm \<times> 'm \<times> 's) \<Rightarrow> ('u, 'm, 's) router \<Rightarrow> ('u, 'm, 's) router option" where
  "OnRpc v isReady = registerRpc v isReady False"

definition OnRpcP :: "'m vt \<Rightarrow> bool \<Rightarrow> msg_type \<Rightarrow> msg_type \<Rightarrow> ('m \<Rightarrow> 'm \<Rightarrow> 's \<Rightarrow> 'm \<times> 'm \<times> 's) \<Rightarrow> ('u, 'm, 's) router \<Rightarrow> ('u, 'm, 's) router option" where
  "OnRpcP v isReady = registerRpc v isReady True"


section \<open>Specification: a table of functions on fresh objects\<close>

datatype ('u, 'm, 's) spec_handler =
    Spec_msg 'm "'u message \<Rightarrow> 'm \<Rightarrow> 's \<Rightarrow> 'm \<times> 's"
  | Spec_rpc 'm 'm "'u message \<Rightarrow> 'm \<Rightarrow> 'm \<Rightarrow> 's \<Rightarrow> 'm \<times> 'm \<times> 's"

fun creator :: "'m factory \<Rightarrow> 'm" where
  "creator (PoolFactory free create) = create ()"
| "creator (NewFactory create) = create ()"

fun abs_handler :: "('u, 'm, 's) ihandler \<Rightarrow> ('u, 'm, 's) spec_handler" where
  "abs_handler (MsgHandler f df) = Spec_msg (creator f) df"
| "abs_handler (RpcHandler f g df) = Spec_rpc (creator f) (creator g) df"

definition abs_router :: "('u, 'm, 's) router \<Rightarrow> nat \<times> (u32 \<rightharpoonup> ('u, 'm, 's) spec_handler)" where
  "abs_router rt = (rt_max rt, \<lambda>i. map_option abs_handler (rt_handlers rt i))"

fun spec_run_handler ::
  "'m vt \<Rightarrow> (string \<Rightarrow> 'm \<Rightarrow> 's \<Rightarrow> 's \<times> bool) \<Rightarrow> 'u message \<Rightarrow> ('u, 'm, 's) spec_handler \<Rightarrow> 's \<Rightarrow> 's \<times> router_err option"
where
  "spec_run_handler v respond p (Spec_msg m df) s = (case decode_body v m (Data p) of
       Inl _ \<Rightarrow> (s, Some Err_unmarshal)
     | Inr m \<Rightarrow> (snd (df (p\<lparr>Data := []\<rparr>) m s), None))"
| "spec_run_handler v respond p (Spec_rpc m r df) s = (case decode_body v m (Data p) of
       Inl _ \<Rightarrow> (s, Some Err_unmarshal)
     | Inr m \<Rightarrow> (case df (p\<lparr>Data := []\<rparr>) m r s of (_, res, s) \<Rightarrow>
         (case respond (Reply p) res s of (s, failed) \<Rightarrow> (s, if failed then Some Err_respond else None))))"

definition spec_Handle ::
  "'m vt \<Rightarrow> (string \<Rightarrow> 'm \<Rightarrow> 's \<Rightarrow> 's \<times> bool) \<Rightarrow> 'u message \<Rightarrow> nat \<times> (u32 \<rightharpoonup> ('u, 'm, 's) spec_handler) \<Rightarrow> 's \<Rightarrow> 's \<times> router_err option"
where
  "spec_Handle v respond p spec s =
     (if MsgID (Head p) \<ge> word_of_nat (fst spec) then (s, Some (Err_range (MsgID (Head p))))
      else case snd spec (MsgID (Head p)) of
          None \<Rightarrow> (s, Some (Err_no_handler (MsgID (Head p))))
        | Some h \<Rightarrow> spec_run_handler v respond p h s)"

fun factory_typed :: "'m vt \<Rightarrow> 'm factory \<Rightarrow> bool" where
  "factory_typed v (PoolFactory free create) =
     (create () = vt_zero v (vt_type v (create ())) \<and> (\<forall>m \<in> set free. vt_type v m = vt_type v (create ())))"
| "factory_typed v (NewFactory create) = True"

fun handler_typed :: "'m vt \<Rightarrow> ('u, 'm, 's) ihandler \<Rightarrow> bool" where
  "handler_typed v (MsgHandler f df) = (factory_typed v f \<and> (\<forall>p m s. vt_type v (fst (df p m s)) = vt_type v m))"
| "handler_typed v (RpcHandler f g df) = (factory_typed v f \<and> factory_typed v g \<and>
     (\<forall>p m r s. vt_type v (fst (df p m r s)) = vt_type v m \<and> vt_type v (fst (snd (df p m r s))) = vt_type v r))"

definition router_typed :: "'m vt \<Rightarrow> ('u, 'm, 's) router \<Rightarrow> bool" where
  "router_typed v rt = (\<forall>i h. rt_handlers rt i = Some h \<longrightarrow> handler_typed v h)"

lemma set_remove_nth: "x \<in> set (take i xs @ drop (Suc i) xs) \<Longrightarrow> x \<in> set xs"
  by (auto dest: in_set_takeD in_set_dropD)

lemma factory_Get_fresh:
  assumes "vt_ok v" "factory_typed v f" "factory_Get v pick f = (m, f')"
  shows "m = creator f \<and> creator f' = creator f \<and> factory_typed v f'"
proof (cases f)
  case (PoolFactory free create)
  have zero: "vt_reset v x = create ()" if "x = create () \<or> x \<in> set free" for x
    using assms(1,2) that by (auto simp: PoolFactory vt_ok_def)
  show ?thesis
  proof (cases "\<exists>i. pick = Some i \<and> i < length free")
    case True
    then obtain i where "pick = Some i" "i < length free"
      by blast
    then have "m = vt_reset v (free ! i)" "f' = PoolFactory (take i free @ drop (Suc i) free) create"
      using assms(3) by (auto simp: PoolFactory)
    then show ?thesis
      using assms(2) zero [of "free ! i"] \<open>i < length free\<close> set_remove_nth [of _ i free] by (auto simp: PoolFactory)
  next
    case False
    then have "m = vt_reset v (create ())" "f' = f"
      using assms(3) by (auto simp: PoolFactory split: option.splits)
    then show ?thesis
      using assms(2) zero by (auto simp: PoolFactory)
  qed
qed (use assms(3) in auto)

lemma factory_Put_typed:
  "factory_typed v f \<Longrightarrow> vt_type v m = vt_type v (creator f) \<Longrightarrow> factory_typed v (factory_Put m f)"
  "creator (factory_Put m f) = creator f"
  by (cases f; simp)+

lemma decode_body_type:
  "vt_ok v \<Longrightarrow> decode_body v m d = Inr m' \<or> decode_body v m d = Inl m' \<Longrightarrow> vt_type v m' = vt_type v m"
  by (auto simp: vt_ok_def decode_body_def split: if_splits)

lemma msg_handler_refines:
  assumes v: "vt_ok v" and typed: "handler_typed v (MsgHandler f df)"
    and run: "ihandler_Handle v respond picks p (MsgHandler f df) s = (h', s', err)"
  shows "handler_typed v h' \<and> abs_handler h' = Spec_msg (creator f) df \<and>
    (s', err) = spec_run_handler v respond p (Spec_msg (creator f) df) s"
proof -
  obtain m f1 where get: "factory_Get v (fst picks) f = (m, f1)"
    by (cases "factory_Get v (fst picks) f")
  have fresh: "m = creator f" "creator f1 = creator f" "factory_typed v f1"
    using factory_Get_fresh [OF v _ get] typed by auto
  show ?thesis
  proof (cases "decode_body v m (Data p)")
    case (Inl m1)
    then show ?thesis
      using run typed get fresh decode_body_type [OF v, of m "Data p" m1] by (auto simp: factory_Put_typed)
  next
    case (Inr m1)
    obtain m2 s2 where df: "df (p\<lparr>Data := []\<rparr>) m1 s = (m2, s2)"
      by (cases "df (p\<lparr>Data := []\<rparr>) m1 s")
    then have "vt_type v m2 = vt_type v (creator f)"
      using typed decode_body_type [OF v, of m "Data p" m1] Inr fresh by (metis handler_typed.simps(1) fst_conv)
    then show ?thesis
      using run typed get fresh df Inr by (auto simp: factory_Put_typed)
  qed
qed

lemma rpc_handler_refines:
  assumes v: "vt_ok v" and typed: "handler_typed v (RpcHandler f g df)"
    and run: "ihandler_Handle v respond picks p (RpcHandler f g df) s = (h', s', err)"
  shows "handler_typed v h' \<and> abs_handler h' = Spec_rpc (creator f) (creator g) df \<and>
    (s', err) = spec_run_handler v respond p (Spec_rpc (creator f) (creator g) df) s"
proof -
  obtain m f1 where get: "factory_Get v (fst picks) f = (m, f1)"
    by (cases "factory_Get v (fst picks) f")
  have fresh: "m = creator f" "creator f1 = creator f" "factory_typed v f1"
    using factory_Get_fresh [OF v _ get] typed by auto
  obtain r g1 where get2: "factory_Get v (snd picks) g = (r, g1)"
    by (cases "factory_Get v (snd picks) g")
  have fresh2: "r = creator g" "creator g1 = creator g" "factory_typed v g1"
    using factory_Get_fresh [OF v _ get2] typed by auto
  show ?thesis
  proof (cases "decode_body v m (Data p)")
    case (Inl m1)
    then show ?thesis
      using run typed get fresh decode_body_type [OF v, of m "Data p" m1] by (auto simp: factory_Put_typed)
  next
    case (Inr m1)
    obtain m2 r2 s2 where df: "df (p\<lparr>Data := []\<rparr>) m1 r s = (m2, r2, s2)"
      by (cases "df (p\<lparr>Data := []\<rparr>) m1 r s")
    obtain s3 failed where resp: "respond (Reply p) r2 s2 = (s3, failed)"
      by (cases "respond (Reply p) r2 s2")
    have "vt_type v m2 = vt_type v (creator f)" "vt_type v r2 = vt_type v (creator g)"
      using typed decode_body_type [OF v, of m "Data p" m1] Inr fresh fresh2 df
      by (metis handler_typed.simps(2) fst_conv snd_conv)+
    then show ?thesis
      using run typed get get2 fresh fresh2 df resp Inr by (auto simp: factory_Put_typed)
  qed
qed

lemma handler_refines:
  assumes "vt_ok v" "handler_typed v h" "ihandler_Handle v respond picks p h s = (h', s', err)"
  shows "handler_typed v h' \<and> abs_handler h' = abs_handler h \<and> (s', err) = spec_run_handler v respond p (abs_handler h) s"
proof (cases h)
  case (MsgHandler f df)
  then show ?thesis
    using msg_handler_refines [OF assms(1)] assms(2,3) by simp
next
  case (RpcHandler f g df)
  then show ?thesis
    using rpc_handler_refines [OF assms(1)] assms(2,3) by simp
qed

lemma Handle_refines:
  assumes v: "vt_ok v" and typed: "router_typed v rt" and run: "Router_Handle v respond picks p rt s = (rt', s', err)"
  shows "router_typed v rt' \<and> abs_router rt' = abs_router rt \<and> (s', err) = spec_Handle v respond p (abs_router rt) s"
proof (cases "getHandler (MsgID (Head p)) rt")
  case (Inl e)
  then show ?thesis
    using run typed by (auto simp: Router_Handle_def spec_Handle_def abs_router_def getHandler_def split: if_splits option.splits)
next
  case (Inr h)
  then have reg: "rt_handlers rt (MsgID (Head p)) = Some h" "\<not> word_of_nat (rt_max rt) \<le> MsgID (Head p)"
    by (auto simp: getHandler_def split: if_splits option.splits)
  obtain h1 s1 e1 where h1: "ihandler_Handle v respond picks p h s = (h1, s1, e1)"
    by (cases "ihandler_Handle v respond picks p h s")
  have "handler_typed v h"
    using typed reg(1) by (auto simp: router_typed_def)
  from handler_refines [OF v this h1] show ?thesis
    using run typed reg h1 Inr
    by (auto simp: Router_Handle_def spec_Handle_def abs_router_def router_typed_def fun_eq_iff split: if_splits)
qed


section \<open>Registration\<close>

lemma new_factory_typed: "vt_ok v \<Longrightarrow> factory_typed v (new_factory usePool (\<lambda>u. vt_zero v ty))"
  by (simp add: new_factory_def vt_ok_def)

lemma creator_new [simp]: "creator (new_factory usePool cf) = cf ()"
  by (simp add: new_factory_def)

lemma NewFunc_of_MsgID:
  "GetMsgIDS2S ty = Some i \<Longrightarrow> NewFuncS2S i = Some (\<lambda>_. ty)"
  "GetMsgIDC2S ty = Some i \<Longrightarrow> NewFuncC2S i = Some (\<lambda>_. ty)"
  using New_MsgID_inverse [OF tables_distinct(5,6), of i ty] New_MsgID_inverse [OF tables_distinct(1,2), of i ty]
  by (auto simp: GetMsgIDS2S_def GetMsgIDC2S_def NewFuncS2S_def NewFuncC2S_def TypeMeta_NewFunc_def TypeMeta_New_def
      s2s_def c2s_def)

definition id_of :: "msg_type \<Rightarrow> u32 option" where
  "id_of ty = (case GetMsgIDS2S ty of Some i \<Rightarrow> Some i | None \<Rightarrow> GetMsgIDC2S ty)"

lemma FindMsgIDAndCreateFunc_eq:
  "FindMsgIDAndCreateFunc v ty = (case id_of ty of None \<Rightarrow> Inl (Err_no_meta ty) | Some i \<Rightarrow> Inr (i, \<lambda>u. vt_zero v ty))"
  by (auto simp: FindMsgIDAndCreateFunc_def id_of_def NewFunc_of_MsgID split: option.split)

lemma register_handler_eq:
  "register_handler v isReady usePool ty df rt = (case id_of ty of None \<Rightarrow> None
     | Some i \<Rightarrow> if check_register isReady i rt = None
         then Some (rt\<lparr>rt_handlers := (rt_handlers rt)(i := Some (MsgHandler (new_factory usePool (\<lambda>u. vt_zero v ty)) df))\<rparr>)
         else None)"
  by (auto simp: register_handler_def FindMsgIDAndCreateFunc_eq Router_Register_def split: option.split)

lemma registerRpc_eq:
  "registerRpc v isReady usePool ty ty' df rt = (case id_of ty of None \<Rightarrow> None
     | Some i \<Rightarrow> if check_register isReady i rt = None
         then Some (rt\<lparr>rt_handlers := (rt_handlers rt)(i := Some (RpcHandler (new_factory usePool (\<lambda>u. vt_zero v ty))
           (new_factory usePool (\<lambda>u. vt_zero v ty')) (\<lambda>p. df)))\<rparr>)
         else None)"
  by (auto simp: registerRpc_def FindMsgIDAndCreateFunc_eq Router_RegisterRpc_def split: option.split)

datatype ('m, 's) registration =
    Reg_On msg_type "'m \<Rightarrow> 's \<Rightarrow> 'm \<times> 's"
  | Reg_OnWithHead msg_type "head \<Rightarrow> 'm \<Rightarrow> 's \<Rightarrow> 'm \<times> 's"
  | Reg_OnP msg_type "'m \<Rightarrow> 's \<Rightarrow> 'm \<times> 's"
  | Reg_OnRpc msg_type msg_type "'m \<Rightarrow> 'm \<Rightarrow> 's \<Rightarrow> 'm \<times> 'm \<times> 's"
  | Reg_OnRpcP msg_type msg_type "'m \<Rightarrow> 'm \<Rightarrow> 's \<Rightarrow> 'm \<times> 'm \<times> 's"

fun reg_type :: "('m, 's) registration \<Rightarrow> msg_type" where
  "reg_type (Reg_On ty _) = ty"
| "reg_type (Reg_OnWithHead ty _) = ty"
| "reg_type (Reg_OnP ty _) = ty"
| "reg_type (Reg_OnRpc ty _ _) = ty"
| "reg_type (Reg_OnRpcP ty _ _) = ty"

fun reg_spec :: "'m vt \<Rightarrow> ('m, 's) registration \<Rightarrow> ('u, 'm, 's) spec_handler" where
  "reg_spec v (Reg_On ty df) = Spec_msg (vt_zero v ty) (\<lambda>p. df)"
| "reg_spec v (Reg_OnWithHead ty df) = Spec_msg (vt_zero v ty) (\<lambda>p. df (Head p))"
| "reg_spec v (Reg_OnP ty df) = Spec_msg (vt_zero v ty) (\<lambda>p. df)"
| "reg_spec v (Reg_OnRpc ty ty' df) = Spec_rpc (vt_zero v ty) (vt_zero v ty') (\<lambda>p. df)"
| "reg_spec v (Reg_OnRpcP ty ty' df) = Spec_rpc (vt_zero v ty) (vt_zero v ty') (\<lambda>p. df)"

fun reg_apply :: "'m vt \<Rightarrow> bool \<Rightarrow> ('m, 's) registration \<Rightarrow> ('u, 'm, 's) router \<Rightarrow> ('u, 'm, 's) router option" where
  "reg_apply v rdy (Reg_On ty df) rt = On v rdy ty df rt"
| "reg_apply v rdy (Reg_OnWithHead ty df) rt = OnWithHead v rdy ty df rt"
| "reg_apply v rdy (Reg_OnP ty df) rt = OnP v rdy ty df rt"
| "reg_apply v rdy (Reg_OnRpc ty ty' df) rt = OnRpc v rdy ty ty' df rt"
| "reg_apply v rdy (Reg_OnRpcP ty ty' df) rt = OnRpcP v rdy ty ty' df rt"

text \<open>Go's static typing: a handle function cannot change the type of the object it is given.\<close>

fun reg_typed :: "'m vt \<Rightarrow> ('m, 's) registration \<Rightarrow> bool" where
  "reg_typed v (Reg_On ty df) = (\<forall>m s. vt_type v (fst (df m s)) = vt_type v m)"
| "reg_typed v (Reg_OnWithHead ty df) = (\<forall>h m s. vt_type v (fst (df h m s)) = vt_type v m)"
| "reg_typed v (Reg_OnP ty df) = (\<forall>m s. vt_type v (fst (df m s)) = vt_type v m)"
| "reg_typed v (Reg_OnRpc ty ty' df) =
     (\<forall>m r s. vt_type v (fst (df m r s)) = vt_type v m \<and> vt_type v (fst (snd (df m r s))) = vt_type v r)"
| "reg_typed v (Reg_OnRpcP ty ty' df) =
     (\<forall>m r s. vt_type v (fst (df m r s)) = vt_type v m \<and> vt_type v (fst (snd (df m r s))) = vt_type v r)"

lemmas On_defs = On_def OnWithHead_def OnP_def OnRpc_def OnRpcP_def

lemma reg_apply_ok:
  assumes "vt_ok v" "router_typed v rt" "reg_typed v r" "id_of (reg_type r) = Some i" "check_register rdy i rt = None"
  shows "\<exists>rt'. reg_apply v rdy r rt = Some rt' \<and> router_typed v rt' \<and>
    abs_router rt' = (fst (abs_router rt), (snd (abs_router rt))(i \<mapsto> reg_spec v r)) \<and>
    rt_max rt' = rt_max rt \<and> (\<forall>j. j \<noteq> i \<longrightarrow> rt_handlers rt' j = rt_handlers rt j)"
  using assms
  by (cases r) (auto simp: On_defs register_handler_eq registerRpc_eq router_typed_def abs_router_def fun_eq_iff
      new_factory_typed)

lemma reg_apply_panic:
  "id_of (reg_type r) = None \<or> id_of (reg_type r) = Some i \<and> check_register rdy i rt \<noteq> None \<Longrightarrow> reg_apply v rdy r rt = None"
  by (cases r) (auto simp: On_defs register_handler_eq registerRpc_eq)


fun reg_all :: "'m vt \<Rightarrow> ('m, 's) registration list \<Rightarrow> ('u, 'm, 's) router \<Rightarrow> ('u, 'm, 's) router option" where
  "reg_all v [] rt = Some rt"
| "reg_all v (r # rs) rt = (case reg_apply v False r rt of None \<Rightarrow> None | Some rt \<Rightarrow> reg_all v rs rt)"

definition reg_ids :: "('m, 's) registration list \<Rightarrow> u32 option list" where
  "reg_ids rs = map (\<lambda>r. id_of (reg_type r)) rs"

definition reg_table :: "'m vt \<Rightarrow> ('m, 's) registration list \<Rightarrow> (u32 \<rightharpoonup> ('u, 'm, 's) spec_handler)" where
  "reg_table v rs = map_of (map (\<lambda>r. (the (id_of (reg_type r)), reg_spec v r)) rs)"

fun route_all ::
  "'m vt \<Rightarrow> (string \<Rightarrow> 'm \<Rightarrow> 's \<Rightarrow> 's \<times> bool) \<Rightarrow> ((nat option \<times> nat option) \<times> 'u message) list \<Rightarrow>
     ('u, 'm, 's) router \<Rightarrow> 's \<Rightarrow> 's \<times> router_err option list"
where
  "route_all v respond [] rt s = (s, [])"
| "route_all v respond ((picks, p) # ps) rt s =
     (case Router_Handle v respond picks p rt s of (rt, s, err) \<Rightarrow>
        (case route_all v respond ps rt s of (s, errs) \<Rightarrow> (s, err # errs)))"

fun spec_route ::
  "'m vt \<Rightarrow> (string \<Rightarrow> 'm \<Rightarrow> 's \<Rightarrow> 's \<times> bool) \<Rightarrow> 'u message list \<Rightarrow>
     nat \<times> (u32 \<rightharpoonup> ('u, 'm, 's) spec_handler) \<Rightarrow> 's \<Rightarrow> 's \<times> router_err option list"
where
  "spec_route v respond [] spec s = (s, [])"
| "spec_route v respond (p # ps) spec s = (case spec_Handle v respond p spec s of (s, err) \<Rightarrow>
     (case spec_route v respond ps spec s of (s, errs) \<Rightarrow> (s, err # errs)))"

lemma id_of_range: "id_of ty = Some i \<Longrightarrow> i < 999999"
  by (auto simp: id_of_def S2SMax_def C2SMax_def split: option.splits dest!: s2s_range c2s_range elim: order.strict_trans)

lemma reg_all_ok:
  fixes rt :: "('u, 'm, 's) router"
  assumes "vt_ok v" "router_typed v rt" "rt_max rt = 999999" "\<forall>r \<in> set rs. reg_typed v r"
    "distinct (reg_ids rs)" "None \<notin> set (reg_ids rs)" "\<forall>r \<in> set rs. \<forall>i. id_of (reg_type r) = Some i \<longrightarrow> rt_handlers rt i = None"
  shows "\<exists>rt'. reg_all v rs rt = Some rt' \<and> router_typed v rt' \<and> rt_max rt' = 999999 \<and>
    snd (abs_router rt') = snd (abs_router rt) ++ reg_table v rs"
  using assms
proof (induction rs arbitrary: rt)
  case (Cons r rs)
  obtain i where i: "id_of (reg_type r) = Some i"
    using Cons.prems(6) by (cases "id_of (reg_type r)") (auto simp: reg_ids_def)
  have chk: "check_register False i rt = None"
    using Cons.prems(3,7) i id_of_range [OF i] by (auto simp: check_register_def not_le)
  have typed: "reg_typed v r"
    using Cons.prems(4) by simp
  obtain rt1 where rt1: "reg_apply v False r rt = Some rt1" "router_typed v rt1" "rt_max rt1 = rt_max rt"
    "snd (abs_router rt1) = (snd (abs_router rt))(i \<mapsto> reg_spec v r)" "\<And>j. j \<noteq> i \<Longrightarrow> rt_handlers rt1 j = rt_handlers rt j"
    using reg_apply_ok [OF Cons.prems(1,2) typed i chk] by auto
  have other: "id_of (reg_type x) \<noteq> Some i" if "x \<in> set rs" for x
    using Cons.prems(5) i that by (auto simp: reg_ids_def) (metis image_eqI)
  have free: "\<forall>x \<in> set rs. \<forall>j. id_of (reg_type x) = Some j \<longrightarrow> rt_handlers rt1 j = None"
  proof (intro ballI allI impI)
    fix x j
    assume x: "x \<in> set rs" "id_of (reg_type x) = Some j"
    then have "j \<noteq> i"
      using other by blast
    then show "rt_handlers rt1 j = None"
      using rt1(5) Cons.prems(7) x by simp
  qed
  have "\<exists>rt'. reg_all v rs rt1 = Some rt' \<and> router_typed v rt' \<and> rt_max rt' = 999999 \<and>
      snd (abs_router rt') = snd (abs_router rt1) ++ reg_table v rs"
    using Cons.prems rt1(2,3) free by (intro Cons.IH) (auto simp: reg_ids_def)
  moreover have "snd (abs_router rt1) ++ reg_table v rs = snd (abs_router rt) ++ reg_table v (r # rs)"
  proof -
    have "(reg_table v rs :: u32 \<rightharpoonup> ('u, 'm, 's) spec_handler) i = None"
      using other Cons.prems(6) by (force simp: reg_table_def map_of_eq_None_iff reg_ids_def image_iff)
    then show ?thesis
      by (auto simp: rt1(4) reg_table_def i map_add_def fun_eq_iff split: option.split)
  qed
  ultimately show ?case
    using rt1(1) by simp
qed (simp add: reg_table_def)

lemma route_all_refines:
  "vt_ok v \<Longrightarrow> router_typed v rt \<Longrightarrow> route_all v respond ps rt s = spec_route v respond (map snd ps) (abs_router rt) s"
proof (induction ps arbitrary: rt s)
  case (Cons e ps)
  obtain picks p where e: "e = (picks, p)"
    by (cases e)
  obtain rt1 s1 err where run: "Router_Handle v respond picks p rt s = (rt1, s1, err)"
    by (cases "Router_Handle v respond picks p rt s")
  have ref: "router_typed v rt1" "abs_router rt1 = abs_router rt" "spec_Handle v respond p (abs_router rt) s = (s1, err)"
    using Handle_refines [OF Cons.prems run] by auto
  show ?case
    using Cons.IH [OF Cons.prems(1) ref(1), of s1] ref by (simp add: e run)
qed simp

section \<open>Property\<close>

text \<open>
  C8. Dispatch: register any handlers (pooled or not, plain or remote-call, for distinct message
  numbers) at start-up on the router; none of the registrations panics.  Then for every sequence of
  packets, and whatever objects the pools hand out, the handlers' state and the reported errors are
  those of the plain table that decodes each packet into a fresh object of the registered type, runs
  the handler of that number only, and answers a remote call with the handler's result: no content of
  an earlier message leaks through a pooled object, and a packet that does not decode, or has no
  handler, leaves the state unchanged.
\<close>

theorem router_dispatch:
  fixes v :: "'m vt" and rs :: "('m, 's) registration list" and respond :: "string \<Rightarrow> 'm \<Rightarrow> 's \<Rightarrow> 's \<times> bool"
  assumes "vt_ok v" and "\<forall>r \<in> set rs. reg_typed v r" and "distinct (reg_ids rs)" and "None \<notin> set (reg_ids rs)"
  shows "\<exists>rt :: ('u, 'm, 's) router. reg_all v rs (NewMsgRouter 999999) = Some rt \<and>
    (\<forall>ps s. route_all v respond ps rt s = spec_route v respond (map snd ps) (999999, reg_table v rs) s)"
proof -
  let ?new = "NewMsgRouter 999999 :: ('u, 'm, 's) router"
  have new: "router_typed v ?new" "rt_max ?new = 999999"
    "snd (abs_router ?new) = Map.empty"
    by (simp_all add: router_typed_def NewMsgRouter_def abs_router_def)
  obtain rt where rt: "reg_all v rs ?new = Some rt" "router_typed v rt" "rt_max rt = 999999"
    "snd (abs_router rt) = snd (abs_router ?new) ++ reg_table v rs"
    using reg_all_ok [OF assms(1) new(1,2) assms(2-4)] by (auto simp: NewMsgRouter_def)
  then have "abs_router rt = (999999, reg_table v rs)"
    using new(3) by (simp add: abs_router_def)
  then show ?thesis
    using rt(1) route_all_refines [OF assms(1) rt(2), of respond] by auto
qed

text \<open>An instance of the generated code: a message is its type and the bytes merged into it.\<close>

definition demo_vt :: "(msg_type \<times> bytes) vt" where
  "demo_vt = \<lparr>vt_type = fst, vt_zero = (\<lambda>t. (t, [])), vt_reset = (\<lambda>m. (fst m, [])), vt_size = (\<lambda>m. length (snd m)),
     vt_marshal = (\<lambda>m buf. Some (snd m, length (snd m))), vt_unmarshal = (\<lambda>m d. Inr (fst m, snd m @ d))\<rparr>"

lemma demo_vt_ok: "vt_ok demo_vt"
  by (auto simp: vt_ok_def demo_vt_def)

definition demo_regs :: "(msg_type \<times> bytes, bytes list) registration list" where
  "demo_regs = [Reg_OnP S2SEcho (\<lambda>m s. (m, s @ [snd m])), Reg_On C2SLogin (\<lambda>m s. (m, s))]"

lemma demo_ids: "reg_ids demo_regs = [Some 22, Some 100001]"
proof -
  have "GetMsgIDS2S S2SEcho = Some 22" "GetMsgIDS2S C2SLogin = None" "GetMsgIDC2S C2SLogin = Some 100001"
    unfolding GetMsgIDS2S_def GetMsgIDC2S_def TypeMeta_MsgID_def s2s_def c2s_def register_all_fields
    by (simp_all add: registerAllS2SMsg_def registerAllC2SMsg_def)
  then show ?thesis
    by (simp add: reg_ids_def demo_regs_def id_of_def)
qed

theorem router_dispatch_witness:
  "\<exists>rt. reg_all demo_vt demo_regs (NewMsgRouter 999999) = Some rt \<and>
    route_all demo_vt (\<lambda>_ _ s. (s, False)) [((None, None), demo_msg 22 [1, 2]), ((Some 0, None), demo_msg 22 [3]), ((None, None), demo_msg 5 [])] rt [] =
      ([[1, 2], [3]], [None, None, Some (Err_no_handler 5)])"
proof -
  have pre: "\<forall>r \<in> set demo_regs. reg_typed demo_vt r" "distinct (reg_ids demo_regs)" "None \<notin> set (reg_ids demo_regs)"
    by (simp_all add: demo_ids) (simp add: demo_regs_def demo_vt_def)
  have table: "(reg_table demo_vt demo_regs :: u32 \<rightharpoonup> (unit, _, _) spec_handler) = [22 \<mapsto> reg_spec demo_vt (demo_regs ! 0), 100001 \<mapsto> reg_spec demo_vt (demo_regs ! 1)]"
    using demo_ids by (auto simp: reg_table_def reg_ids_def demo_regs_def fun_eq_iff)
  obtain rt where rt: "reg_all demo_vt demo_regs (NewMsgRouter 999999) = Some rt"
    "\<And>ps s. route_all demo_vt (\<lambda>_ _ s. (s, False)) ps rt s =
      spec_route demo_vt (\<lambda>_ _ s. (s, False)) (map snd ps) (999999, reg_table demo_vt demo_regs :: u32 \<rightharpoonup> (unit, _, _) spec_handler) s"
    using router_dispatch [OF demo_vt_ok pre, where 'u = unit] by blast
  show ?thesis
    by (intro exI [of _ rt] conjI rt(1), unfold rt(2) table)
      (simp add: spec_Handle_def demo_regs_def decode_body_def demo_vt_def)
qed

end
