(* ===== verification/Sender.thy ===== *)
theory Sender
  imports Bus Router
begin

text \<open>
  The typed senders of \<^verbatim>\<open>src/pkg/gnet/sender.go\<close> on top of the bus, the trace rule of
  \<^verbatim>\<open>src/pkg/gnet/trace/trace.go\<close>, and the remote calls of \<^verbatim>\<open>src/pkg/gnet/msgq/rpc.go\<close>.  The id
  generator's decomposition \<^verbatim>\<open>machineID\<close> (sonyflake) and the NATS request are parameters.  Log lines are
  not modelled; the outcome that the code logs is the value of \<^verbatim>\<open>send_result\<close>.
\<close>

section \<open>Trace rule\<close>

record TraceRule =
  whiteList :: "u32 set"
  blackList :: "u32 set"

definition NewTraceRule :: TraceRule where
  "NewTraceRule = \<lparr>whiteList = {}, blackList = {}\<rparr>"

definition SetWhiteList :: "u32 set option \<Rightarrow> TraceRule \<Rightarrow> TraceRule" where
  "SetWhiteList wl t = (case wl of None \<Rightarrow> t | Some l \<Rightarrow> t\<lparr>whiteList := l\<rparr>)"

definition SetBlackList :: "u32 set option \<Rightarrow> TraceRule \<Rightarrow> TraceRule" where
  "SetBlackList bl t = (case bl of None \<Rightarrow> t | Some l \<Rightarrow> t\<lparr>blackList := l\<rparr>)"

definition ShouldLog :: "bool \<Rightarrow> TraceRule \<Rightarrow> u32 \<Rightarrow> u64 \<Rightarrow> u64 \<Rightarrow> bool" where
  "ShouldLog traceMsg t msgID roleID sessionID =
     (if traceMsg then msgID \<notin> blackList t else msgID \<in> whiteList t)"

section \<open>Senders\<close>

record 'n sworld =
  sw_bus :: "'n databus"
  sw_pool512 :: bytes_pool

datatype send_result = Sent | Marshal_failed | Bus_failed bus_err | No_msg_id | Id_mismatch

definition GateIDFromSesID :: "(int \<Rightarrow> int) \<Rightarrow> u64 \<Rightarrow> u8" where
  "GateIDFromSesID machineID gateID = word_of_int (machineID (sint gateID))"

definition grow_buf :: "buffer \<Rightarrow> nat \<Rightarrow> buffer" where
  "grow_buf b sz = (if bcap b < sz then \<lparr>mem = replicate sz 0, blen = sz\<rparr> else b)"

definition ensureBuf :: "nat option \<Rightarrow> nat \<Rightarrow> bytes_pool \<Rightarrow> buffer \<times> bytes \<times> bytes_pool" where
  "ensureBuf pick sz pool =
     (let (b, pool) = BytesPool_Get pick pool;
          b = grow_buf b sz
      in (b, take sz (mem b), pool))"

definition marshal_send ::
  "'m vt \<Rightarrow> nat option \<Rightarrow> 'm \<Rightarrow> (bytes \<Rightarrow> 'n databus \<Rightarrow> ('n databus \<times> bus_err option) option) \<Rightarrow> 'n sworld \<Rightarrow>
     ('n sworld \<times> send_result) option"
where
  "marshal_send v pick msg send w =
     (let (pBuf, buf, pool) = ensureBuf pick (vt_size v msg) (sw_pool512 w)
      in case vt_marshal v msg buf of
           None \<Rightarrow> Some (w\<lparr>sw_pool512 := BytesPool_Put pBuf pool\<rparr>, Marshal_failed)
         | Some (e, n) \<Rightarrow> do {
             let pBuf = pBuf\<lparr>mem := e @ drop (length e) (mem pBuf)\<rparr>;
             (bs, err) \<leftarrow> send (take n e) (sw_bus w);
             Some (w\<lparr>sw_bus := bs, sw_pool512 := BytesPool_Put pBuf pool\<rparr>,
                   case err of None \<Rightarrow> Sent | Some e \<Rightarrow> Bus_failed e)
           })"

type_synonym 'n publisher = "string \<Rightarrow> bytes \<Rightarrow> 'n \<Rightarrow> 'n"
type_synonym picks = "nat option \<times> nat option \<times> nat option"

definition gnet_SendToClient ::
  "'n publisher \<Rightarrow> (int \<Rightarrow> int) \<Rightarrow> picks \<Rightarrow> 'm vt \<Rightarrow> u32 \<Rightarrow> 'm \<Rightarrow> u64 \<Rightarrow> u64 \<Rightarrow> 'n sworld \<Rightarrow> ('n sworld \<times> send_result) option"
where
  "gnet_SendToClient publish machineID picks v msgID msg sesID roleID w =
     marshal_send v (fst picks) msg
       (\<lambda>buf. ForwardToClient publish (snd picks) (GateIDFromSesID machineID sesID) msgID buf roleID sesID) w"

definition gnet_SendToNode ::
  "'n publisher \<Rightarrow> picks \<Rightarrow> 'm vt \<Rightarrow> int \<Rightarrow> u8 \<Rightarrow> u32 \<Rightarrow> 'm \<Rightarrow> u64 \<Rightarrow> u64 \<Rightarrow> 'n sworld \<Rightarrow> ('n sworld \<times> send_result) option"
where
  "gnet_SendToNode publish picks v serType serID msgID msg actorID sesID w =
     marshal_send v (fst picks) msg (\<lambda>buf. SendToNode publish (snd picks) serType serID msgID buf actorID sesID) w"

definition gnet_SendToAny ::
  "'n publisher \<Rightarrow> picks \<Rightarrow> 'm vt \<Rightarrow> int \<Rightarrow> u32 \<Rightarrow> 'm \<Rightarrow> u64 \<Rightarrow> u64 \<Rightarrow> 'n sworld \<Rightarrow> ('n sworld \<times> send_result) option"
where
  "gnet_SendToAny publish picks v serType msgID msg actorID sesID w =
     marshal_send v (fst picks) msg (\<lambda>buf. SendToAny publish (snd picks) serType msgID buf actorID sesID) w"

definition gnet_BroadcastTo ::
  "'n publisher \<Rightarrow> picks \<Rightarrow> 'm vt \<Rightarrow> int \<Rightarrow> u32 \<Rightarrow> 'm \<Rightarrow> u64 \<Rightarrow> u64 \<Rightarrow> 'n sworld \<Rightarrow> ('n sworld \<times> send_result) option"
where
  "gnet_BroadcastTo publish picks v serType msgID msg actorID sesID w =
     marshal_send v (fst picks) msg (\<lambda>buf. BroadcastTo publish (snd picks) serType msgID buf actorID sesID) w"

text \<open>The check of a debug build: the number passed must be the registered number of the type.\<close>

definition debug_check :: "bool \<Rightarrow> 'm vt \<Rightarrow> u32 \<Rightarrow> 'm \<Rightarrow> send_result option" where
  "debug_check debug v msgID msg =
     (if debug then (case GetMsgIDS2S (vt_type v msg) of
          None \<Rightarrow> Some No_msg_id
        | Some real \<Rightarrow> if real \<noteq> msgID then Some Id_mismatch else None)
      else None)"

definition SendToGate ::
  "bool \<Rightarrow> 'n publisher \<Rightarrow> (int \<Rightarrow> int) \<Rightarrow> picks \<Rightarrow> 'm vt \<Rightarrow> u32 \<Rightarrow> 'm \<Rightarrow> u64 \<Rightarrow> 'n sworld \<Rightarrow> ('n sworld \<times> send_result) option"
where
  "SendToGate debug publish machineID picks v msgID msg sesID w = (case debug_check debug v msgID msg of
       Some r \<Rightarrow> Some (w, r)
     | None \<Rightarrow> gnet_SendToNode publish picks v Server_Gateway (GateIDFromSesID machineID sesID) msgID msg 0 sesID w)"

definition SendToGame ::
  "bool \<Rightarrow> 'n publisher \<Rightarrow> picks \<Rightarrow> 'm vt \<Rightarrow> u8 \<Rightarrow> u32 \<Rightarrow> 'm \<Rightarrow> u64 \<Rightarrow> u64 \<Rightarrow> 'n sworld \<Rightarrow> ('n sworld \<times> send_result) option"
where
  "SendToGame debug publish picks v serID msgID msg sesID actorID w = (case debug_check debug v msgID msg of
       Some r \<Rightarrow> Some (w, r)
     | None \<Rightarrow> gnet_SendToNode publish picks v Server_Game serID msgID msg actorID sesID w)"

definition SendToAccount ::
  "bool \<Rightarrow> 'n publisher \<Rightarrow> picks \<Rightarrow> 'm vt \<Rightarrow> u32 \<Rightarrow> 'm \<Rightarrow> 'n sworld \<Rightarrow> ('n sworld \<times> send_result) option"
where
  "SendToAccount debug publish picks v msgID msg w = (case debug_check debug v msgID msg of
       Some r \<Rightarrow> Some (w, r)
     | None \<Rightarrow> gnet_SendToAny publish picks v Server_Account msgID msg 0 0 w)"

definition SendToCenter ::
  "bool \<Rightarrow> 'n publisher \<Rightarrow> picks \<Rightarrow> 'm vt \<Rightarrow> u32 \<Rightarrow> 'm \<Rightarrow> u64 \<Rightarrow> 'n sworld \<Rightarrow> ('n sworld \<times> send_result) option"
where
  "SendToCenter debug publish picks v msgID msg actorID w = (case debug_check debug v msgID msg of
       Some r \<Rightarrow> Some (w, r)
     | None \<Rightarrow> gnet_SendToAny publish picks v Server_Center msgID msg actorID 0 w)"

definition SendToGateS ::
  "'n publisher \<Rightarrow> (int \<Rightarrow> int) \<Rightarrow> picks \<Rightarrow> 'm vt \<Rightarrow> 'm \<Rightarrow> u64 \<Rightarrow> 'n sworld \<Rightarrow> ('n sworld \<times> send_result) option"
where
  "SendToGateS publish machineID picks v msg sesID w = (case GetMsgIDS2S (vt_type v msg) of
       None \<Rightarrow> Some (w, No_msg_id)
     | Some msgID \<Rightarrow> gnet_SendToNode publish picks v Server_Gateway (GateIDFromSesID machineID sesID) msgID msg 0 sesID w)"

definition SendToGameS ::
  "'n publisher \<Rightarrow> picks \<Rightarrow> 'm vt \<Rightarrow> u8 \<Rightarrow> 'm \<Rightarrow> u64 \<Rightarrow> u64 \<Rightarrow> 'n sworld \<Rightarrow> ('n sworld \<times> send_result) option"
where
  "SendToGameS publish picks v serID msg sesID actorID w = (case GetMsgIDS2S (vt_type v msg) of
       None \<Rightarrow> Some (w, No_msg_id)
     | Some msgID \<Rightarrow> gnet_SendToNode publish picks v Server_Game serID msgID msg actorID sesID w)"

definition SendToAccountS ::
  "'n publisher \<Rightarrow> picks \<Rightarrow> 'm vt \<Rightarrow> 'm \<Rightarrow> 'n sworld \<Rightarrow> ('n sworld \<times> send_result) option"
where
  "SendToAccountS publish picks v msg w = (case GetMsgIDS2S (vt_type v msg) of
       None \<Rightarrow> Some (w, No_msg_id)
     | Some msgID \<Rightarrow> gnet_SendToAny publish picks v Server_Account msgID msg 0 0 w)"

definition SendToCenterS ::
  "'n publisher \<Rightarrow> picks \<Rightarrow> 'm vt \<Rightarrow> 'm \<Rightarrow> u64 \<Rightarrow> 'n sworld \<Rightarrow> ('n sworld \<times> send_result) option"
where
  "SendToCenterS publish picks v msg actorID w = (case GetMsgIDS2S (vt_type v msg) of
       None \<Rightarrow> Some (w, No_msg_id)
     | Some msgID \<Rightarrow> gnet_SendToAny publish picks v Server_Center msgID msg actorID 0 w)"


section \<open>Remote calls\<close>

datatype rpc_err = Rpc_closed | Rpc_conn_nil | Rpc_no_msg_id | Rpc_marshal | Rpc_request | Rpc_unmarshal | Rpc_reply_empty

text \<open>
  \<^verbatim>\<open>request subject data s\<close> is the NATS request: the reply, or \<^const>\<open>None\<close> when it fails or times out,
  and the new state of the outside.  The result object \<^verbatim>\<open>res\<close> is unmarshalled into.
\<close>

definition RpcCall ::
  "'m vt \<Rightarrow> (string \<Rightarrow> bytes \<Rightarrow> 's \<Rightarrow> bytes option \<times> 's) \<Rightarrow> nat option \<Rightarrow> (u64 \<rightharpoonup> string) \<Rightarrow> 'm \<Rightarrow> 'm \<Rightarrow> int \<Rightarrow> u8 \<Rightarrow> u64 \<Rightarrow>
     'n databus \<Rightarrow> 's \<Rightarrow> ((rpc_err + 'm) \<times> 'n databus \<times> 's) option"
where
  "RpcCall v request pick cache req res toSer toSerID actorID bs s =
     (if bs_closed bs then Some (Inl Rpc_closed, bs, s)
      else if \<not> bs_rpcConn bs then Some (Inl Rpc_conn_nil, bs, s)
      else case GetMsgIDS2S (vt_type v req) of
          None \<Rightarrow> Some (Inl Rpc_no_msg_id, bs, s)
        | Some msgID \<Rightarrow>
            let (b, pool) = GetBuffer pick (bs_pool bs);
                reqSize = vt_size v req;
                bodySize = FrameBodyHeadSize + reqSize;
                totalSize = bodySize + FrameLenSize;
                b = grow_buf b totalSize;
                head = \<lparr>ActorID = actorID, SesID = 0, MsgID = msgID, Flag = 0, FromSer = bs_serType bs,
                  FromSerID = bs_serID bs, ToSer = word_of_int toSer, ToSerID = toSerID\<rparr>;
                bodyStart = FrameLenSize + FrameBodyHeadSize
            in do {
              buf \<leftarrow> Head_EncodeTo head (take totalSize (mem b)) bodySize;
              case vt_marshal v req (drop bodyStart buf) of
                None \<Rightarrow> Some (Inl Rpc_marshal, bs\<lparr>bs_pool := FreeBuffer b pool\<rparr>, s)
              | Some (e, n) \<Rightarrow>
                  let buf = take bodyStart buf @ e;
                      b = b\<lparr>mem := buf @ drop (length buf) (mem b)\<rparr>;
                      bs = bs\<lparr>bs_pool := FreeBuffer b pool\<rparr>
                  in case request (fst (rpcNodeSubjectName cache toSer toSerID)) (take (bodyStart + n) buf) s of
                       (None, s) \<Rightarrow> Some (Inl Rpc_request, bs, s)
                     | (Some data, s) \<Rightarrow>
                         (case vt_unmarshal v res data of
                            Inl _ \<Rightarrow> Some (Inl Rpc_unmarshal, bs, s)
                          | Inr res \<Rightarrow> Some (Inr res, bs, s))
            })"

definition RpcRespond ::
  "'m vt \<Rightarrow> 'n publisher \<Rightarrow> nat option \<Rightarrow> string \<Rightarrow> 'm \<Rightarrow> 'n databus \<Rightarrow> 'n databus \<times> rpc_err option"
where
  "RpcRespond v publish pick rep ack bs =
     (if rep = [] then (bs, Some Rpc_reply_empty)
      else let (b, pool) = GetBuffer pick (bs_pool bs);
               sz = vt_size v ack;
               b = grow_buf b sz
           in case vt_marshal v ack (take sz (mem b)) of
                None \<Rightarrow> (bs\<lparr>bs_pool := FreeBuffer b pool\<rparr>, Some Rpc_marshal)
              | Some (e, n) \<Rightarrow>
                  (bs\<lparr>bs_pool := FreeBuffer (b\<lparr>mem := e @ drop (length e) (mem b)\<rparr>) pool,
                      bs_net := publish rep (take n e) (bs_net bs)\<rparr>, None))"

section \<open>Lemmas\<close>

lemma vt_marshal_ok:
  assumes "vt_ok v" "length buf = vt_size v m"
  obtains e where "vt_marshal v m buf = Some (e, vt_size v m)" "length e = vt_size v m"
    "vt_unmarshal v (vt_zero v (vt_type v m)) e = Inr m"
  using assms unfolding vt_ok_def by blast

lemma length_grow_buf: "length (take n (mem (grow_buf b n))) = n"
  by (simp add: grow_buf_def bcap_def)

lemma ensureBuf_length: "length (fst (snd (ensureBuf pick n pool))) = n"
  by (auto simp: ensureBuf_def Let_def length_grow_buf simp del: length_take split: prod.split)

lemma marshal_send_ok:
  assumes "vt_ok v"
  shows "\<exists>e pool. vt_unmarshal v (vt_zero v (vt_type v msg)) e = Inr msg \<and>
    marshal_send v pick msg send w = do {
      (bs, err) \<leftarrow> send e (sw_bus w);
      Some (w\<lparr>sw_bus := bs, sw_pool512 := pool\<rparr>, case err of None \<Rightarrow> Sent | Some e \<Rightarrow> Bus_failed e)
    }"
proof -
  obtain b buf pool where buf: "ensureBuf pick (vt_size v msg) (sw_pool512 w) = (b, buf, pool)"
    by (cases "ensureBuf pick (vt_size v msg) (sw_pool512 w)")
  then have "length buf = vt_size v msg"
    using ensureBuf_length [of pick "vt_size v msg" "sw_pool512 w"] by simp
  then obtain e where "vt_marshal v msg buf = Some (e, vt_size v msg)" "length e = vt_size v msg"
    "vt_unmarshal v (vt_zero v (vt_type v msg)) e = Inr msg"
    using vt_marshal_ok [OF assms] by blast
  then show ?thesis
    using buf by (intro exI [of _ e] exI) (auto simp: marshal_send_def)
qed

fun typed_send ::
  "(int \<Rightarrow> int) \<Rightarrow> picks \<Rightarrow> 'm vt \<Rightarrow> target \<Rightarrow> u32 \<Rightarrow> 'm \<Rightarrow> u64 \<Rightarrow> u64 \<Rightarrow> packets sworld \<Rightarrow> (packets sworld \<times> send_result) option"
where
  "typed_send machineID picks v (ToNode t i) msgID msg a s w = gnet_SendToNode log_publish picks v t i msgID msg a s w"
| "typed_send machineID picks v (ToAny t) msgID msg a s w = gnet_SendToAny log_publish picks v t msgID msg a s w"
| "typed_send machineID picks v (ToBroadcast t) msgID msg a s w = gnet_BroadcastTo log_publish picks v t msgID msg a s w"
| "typed_send machineID picks v (ToClient i) msgID msg a s w = gnet_SendToClient log_publish machineID picks v msgID msg s a w"
| "typed_send machineID picks v (ViaCenter t i) msgID msg a s w = None"

fun typed_target :: "(int \<Rightarrow> int) \<Rightarrow> u64 \<Rightarrow> target \<Rightarrow> bool" where
  "typed_target machineID s (ToClient i) = (GateIDFromSesID machineID s = i \<and> unat i < 64)"
| "typed_target machineID s (ViaCenter t i) = False"
| "typed_target machineID s tg = target_ok tg"

lemma send_to_fun:
  "send_to (ToNode t i) picks msgID data a s = SendToNode log_publish picks t i msgID data a s"
  "send_to (ToClient i) picks msgID data a s = ForwardToClient log_publish picks i msgID data a s"
  "send_to (ToAny t) picks msgID data a s = SendToAny log_publish picks t msgID data a s"
  "send_to (ToBroadcast t) picks msgID data a s = BroadcastTo log_publish picks t msgID data a s"
  by (simp_all add: fun_eq_iff)

lemma typed_send_eq:
  "typed_target machineID s tg \<Longrightarrow> typed_send machineID picks v tg msgID msg a s w =
     marshal_send v (fst picks) msg (\<lambda>buf. send_to tg (snd picks) msgID buf a s) w"
  by (cases tg) (auto simp: gnet_SendToNode_def gnet_SendToAny_def gnet_BroadcastTo_def gnet_SendToClient_def send_to_fun)

lemma typed_target_ok: "typed_target machineID s tg \<Longrightarrow> target_ok tg"
  by (cases tg) auto

section \<open>Properties\<close>

text \<open>
  C9. A typed send reaches its destination intact: on an open bus, sending a message to a node, to
  any or all nodes of a type, or to a client (through the gateway that the session number names)
  succeeds, appends exactly one message to what is sent to that destination and to no other, with the
  head built from the arguments, and the body unmarshals to the message that was sent.
\<close>

theorem typed_send_intact:
  assumes "vt_ok v" and "bus_inv (sw_bus w) sent" and "\<not> bs_closed (sw_bus w)" and "typed_target machineID s tg"
  shows "\<exists>w' body. typed_send machineID picks v tg msgID msg a s w = Some (w', Sent) \<and>
    vt_unmarshal v (vt_zero v (vt_type v msg)) body = Inr msg \<and>
    bus_inv (sw_bus w') (sent(target_slot tg := sent (target_slot tg) @
      [sent_msg (bs_serType (sw_bus w)) (bs_serID (sw_bus w)) tg msgID body a s])) \<and>
    \<not> bs_closed (sw_bus w')"
proof -
  obtain body pool where send: "vt_unmarshal v (vt_zero v (vt_type v msg)) body = Inr msg"
    "typed_send machineID picks v tg msgID msg a s w = do {
      (bs, err) \<leftarrow> send_to tg (snd picks) msgID body a s (sw_bus w);
      Some (w\<lparr>sw_bus := bs, sw_pool512 := pool\<rparr>, case err of None \<Rightarrow> Sent | Some e \<Rightarrow> Bus_failed e)
    }"
    using marshal_send_ok [OF assms(1), of msg "fst picks" "\<lambda>buf. send_to tg (snd picks) msgID buf a s" w]
    by (auto simp: typed_send_eq [OF assms(4)])
  then show ?thesis
    using send_to_ok [OF assms(2,3) typed_target_ok [OF assms(4)], of "snd picks" msgID body a s] assms(3) by auto
qed

definition demo_world :: "packets sworld" where
  "demo_world = \<lparr>sw_bus = new_bus 2 1 (NewBytesPoll buffSize), sw_pool512 = NewBytesPoll 512\<rparr>"

theorem typed_send_intact_witness:
  "\<exists>w' body. typed_send (\<lambda>i. i mod 64) (None, None, None) demo_vt (ToClient 3) 106 (S2CEcho, [7, 8]) 42 67 demo_world = Some (w', Sent) \<and>
    vt_unmarshal demo_vt (S2CEcho, []) body = Inr (S2CEcho, [7, 8])"
proof -
  have inv: "bus_inv (sw_bus demo_world) (\<lambda>_. [])" "\<not> bs_closed (sw_bus demo_world)"
    using bus_inv_new [OF pool_ok_new] by (simp_all add: demo_world_def, simp add: new_bus_def)
  have tg: "typed_target (\<lambda>i. i mod 64) 67 (ToClient 3)"
    by (simp add: GateIDFromSesID_def)
  show ?thesis
    using typed_send_intact [OF demo_vt_ok inv tg, of "(None, None, None)" 106 "(S2CEcho, [7, 8])" 42]
    by (auto simp: demo_vt_def)
qed


text \<open>
  The called node: its router, its handlers' state and its bus.  A request is decoded, dispatched,
  and the reply is what the handler published on the inbox subject of the request.
\<close>

definition peer_respond ::
  "'m vt \<Rightarrow> string \<Rightarrow> 'm \<Rightarrow> 's \<times> packets databus \<Rightarrow> ('s \<times> packets databus) \<times> bool"
where
  "peer_respond v rep res = (\<lambda>(s, bs). case RpcRespond v log_publish None rep res bs of (bs, err) \<Rightarrow> ((s, bs), err \<noteq> None))"

definition peer_handle ::
  "'m vt \<Rightarrow> 'u message \<Rightarrow> ('u, 'm, 's \<times> packets databus) router \<times> 's \<times> packets databus \<Rightarrow>
     ('u, 'm, 's \<times> packets databus) router \<times> 's \<times> packets databus"
where
  "peer_handle v p = (\<lambda>(rt, st). case Router_Handle v (peer_respond v) (None, None) p rt st of (rt, st, err) \<Rightarrow> (rt, st))"

definition peer_request ::
  "'m vt \<Rightarrow> string \<Rightarrow> string \<Rightarrow> bytes \<Rightarrow> ('u, 'm, 's \<times> packets databus) router \<times> 's \<times> packets databus \<Rightarrow>
     bytes option \<times> ('u, 'm, 's \<times> packets databus) router \<times> 's \<times> packets databus"
where
  "peer_request v inbox subject data st =
     (case DecodeManyAndHandle data subject inbox (peer_handle v) (Map.empty, st) of
        None \<Rightarrow> (None, st)
      | Some ((_, st'), _) \<Rightarrow>
          (map_of (drop (length (bs_net (snd (snd st)))) (bs_net (snd (snd st')))) inbox, st'))"

lemma RpcRespond_ok:
  assumes "vt_ok v" "rep \<noteq> []"
  shows "\<exists>bs' e. RpcRespond v log_publish pick rep m bs = (bs', None) \<and> bs_net bs' = bs_net bs @ [(rep, e)] \<and>
    vt_unmarshal v (vt_zero v (vt_type v m)) e = Inr m"
proof -
  obtain b pool where b: "GetBuffer pick (bs_pool bs) = (b, pool)"
    by (cases "GetBuffer pick (bs_pool bs)")
  define c where "c = grow_buf b (vt_size v m)"
  have "length (take (vt_size v m) (mem c)) = vt_size v m"
    unfolding c_def by (rule length_grow_buf)
  then obtain e where e: "vt_marshal v m (take (vt_size v m) (mem c)) = Some (e, vt_size v m)" "length e = vt_size v m"
    "vt_unmarshal v (vt_zero v (vt_type v m)) e = Inr m"
    using vt_marshal_ok [OF assms(1)] by blast
  let ?bs = "bs\<lparr>bs_pool := FreeBuffer (c\<lparr>mem := e @ drop (length e) (mem c)\<rparr>) pool, bs_net := bs_net bs @ [(rep, e)]\<rparr>"
  have "RpcRespond v log_publish pick rep m bs = (?bs, None)"
    using assms(2) b e by (simp add: RpcRespond_def Let_def c_def [symmetric] log_publish_def)
  then show ?thesis
    using e(3) by (intro exI [of _ ?bs] exI [of _ e]) simp
qed

definition rpc_head :: "u32 \<Rightarrow> 'n databus \<Rightarrow> int \<Rightarrow> u8 \<Rightarrow> u64 \<Rightarrow> head" where
  "rpc_head msgID bs toSer toSerID actorID = \<lparr>ActorID = actorID, SesID = 0, MsgID = msgID, Flag = 0, FromSer = bs_serType bs,
     FromSerID = bs_serID bs, ToSer = word_of_int toSer, ToSerID = toSerID\<rparr>"

lemma RpcCall_request:
  assumes "vt_ok v" "\<not> bs_closed bs" "bs_rpcConn bs" "GetMsgIDS2S (vt_type v req) = Some msgID"
  shows "\<exists>e pool. vt_unmarshal v (vt_zero v (vt_type v req)) e = Inr req \<and> length e = vt_size v req \<and>
    RpcCall v request pick cache req res toSer toSerID actorID bs s =
      (case request (fst (rpcNodeSubjectName cache toSer toSerID))
         (frame \<lparr>Head = rpc_head msgID bs toSer toSerID actorID, Data = e, U = (None :: unit option), reply = []\<rparr>) s of
         (None, s) \<Rightarrow> Some (Inl Rpc_request, bs\<lparr>bs_pool := pool\<rparr>, s)
       | (Some data, s) \<Rightarrow> (case vt_unmarshal v res data of
            Inl _ \<Rightarrow> Some (Inl Rpc_unmarshal, bs\<lparr>bs_pool := pool\<rparr>, s)
          | Inr res \<Rightarrow> Some (Inr res, bs\<lparr>bs_pool := pool\<rparr>, s)))"
proof -
  obtain b pool where b: "GetBuffer pick (bs_pool bs) = (b, pool)"
    by (cases "GetBuffer pick (bs_pool bs)")
  let ?n = "29 + vt_size v req"
  define c where "c = grow_buf b ?n"
  have len: "length (take ?n (mem c)) = ?n"
    unfolding c_def by (rule length_grow_buf)
  let ?h = "rpc_head msgID bs toSer toSerID actorID"
  have enc: "Head_EncodeTo ?h (take ?n (mem c)) (25 + vt_size v req) =
      Some (put_le32 (word_of_nat (25 + vt_size v req)) @ head_bytes ?h @ drop 29 (take ?n (mem c)))"
    by (rule Head_EncodeTo_eq) (use len in linarith)
  have "length (drop 29 (take ?n (mem c))) = vt_size v req"
    using len by simp
  then obtain e where e: "vt_marshal v req (drop 29 (take ?n (mem c))) = Some (e, vt_size v req)" "length e = vt_size v req"
    "vt_unmarshal v (vt_zero v (vt_type v req)) e = Inr req"
    using vt_marshal_ok [OF assms(1)] by blast
  have fr: "frame \<lparr>Head = ?h, Data = e, U = (None :: unit option), reply = []\<rparr> =
      put_le32 (word_of_nat (25 + vt_size v req)) @ head_bytes ?h @ e"
    by (simp add: frame_def FrameBodyHeadSize_def e(2))
  have size: "25 + vt_size v req + 4 = ?n"
    by simp
  show ?thesis
    using assms(2-4) b e enc
    by (intro exI [of _ e] exI [of _ "FreeBuffer (c\<lparr>mem := frame \<lparr>Head = ?h, Data = e, U = (None :: unit option), reply = []\<rparr> @
          drop (length (frame \<lparr>Head = ?h, Data = e, U = (None :: unit option), reply = []\<rparr>)) (mem c)\<rparr>) pool"] conjI)
      (simp_all add: RpcCall_def Let_def FrameBodyHeadSize_def FrameLenSize_def size fr rpc_head_def [symmetric] c_def [symmetric]
        split: prod.split option.split sum.split)
qed


definition lift_rpc ::
  "('m \<Rightarrow> 'm \<Rightarrow> 's \<Rightarrow> 'm \<times> 'm \<times> 's) \<Rightarrow> 'm \<Rightarrow> 'm \<Rightarrow> 's \<times> packets databus \<Rightarrow> 'm \<times> 'm \<times> 's \<times> packets databus"
where
  "lift_rpc g req res = (\<lambda>(s, bs). case g req res s of (req, res, s) \<Rightarrow> (req, res, s, bs))"

lemma decode_one_frame:
  "frame_fits m \<Longrightarrow> \<exists>M'. DecodeManyAndHandle (frame m) sub rep callback (M, s) = Some ((M', callback (received rep m) s), None)"
  using decode_loop_frames [of "[m]" "[]" rep callback]
  by (auto simp: DecodeManyAndHandle_def GetSubMetrics_def Let_def deliver_def split: option.split)

lemma fst_abs_router: "fst (abs_router rt) = rt_max rt"
  by (simp add: abs_router_def)

lemma peer_handle_rpc:
  fixes rt :: "('u, 'm, 's \<times> packets databus) router"
  assumes v: "vt_ok v" and typed: "router_typed v rt" and inbox: "inbox \<noteq> []"
    and tbl: "MsgID (Head m) < word_of_nat (rt_max rt)"
      "snd (abs_router rt) (MsgID (Head m)) = Some (Spec_rpc (vt_zero v reqTy) (vt_zero v resTy) (\<lambda>p. lift_rpc g))"
    and body: "vt_unmarshal v (vt_zero v reqTy) (Data m) = Inr req"
    and run: "g req (vt_zero v resTy) s = (req', res', s')" and res_ty: "vt_type v res' = resTy"
  shows "\<exists>rt' bs' e. peer_handle v (received inbox m) (rt, s, bs) = (rt', s', bs') \<and> bs_net bs' = bs_net bs @ [(inbox, e)] \<and>
    vt_unmarshal v (vt_zero v resTy) e = Inr res' \<and> router_typed v rt' \<and> abs_router rt' = abs_router rt"
proof -
  obtain rt' st err where h: "Router_Handle v (peer_respond v) (None, None) (received inbox m) rt (s, bs) = (rt', st, err)"
    by (cases "Router_Handle v (peer_respond v) (None, None) (received inbox m :: 'u message) rt (s, bs)")
  obtain bs' e where resp: "RpcRespond v log_publish None inbox res' bs = (bs', None)" "bs_net bs' = bs_net bs @ [(inbox, e)]"
    "vt_unmarshal v (vt_zero v resTy) e = Inr res'"
    using RpcRespond_ok [OF v inbox, of None res' bs] res_ty by auto
  have "decode_body v (vt_zero v reqTy) (Data m) = Inr req"
    using body v by (auto simp: decode_body_def vt_ok_def)
  then have "spec_Handle v (peer_respond v) (received inbox m :: 'u message) (abs_router rt) (s, bs) = ((s', bs'), None)"
    using tbl run resp(1)
    by (simp add: spec_Handle_def received_def lift_rpc_def peer_respond_def Reply_def not_le fst_abs_router)
  then have "st = (s', bs')" "router_typed v rt'" "abs_router rt' = abs_router rt"
    using Handle_refines [OF v typed h] by auto
  then show ?thesis
    using h resp by (intro exI [of _ rt'] exI [of _ bs'] exI [of _ e]) (simp add: peer_handle_def)
qed



definition echo_rpc :: "msg_type \<times> bytes \<Rightarrow> msg_type \<times> bytes \<Rightarrow> nat \<Rightarrow> (msg_type \<times> bytes) \<times> (msg_type \<times> bytes) \<times> nat" where
  "echo_rpc req res n = (req, (fst res, snd req), Suc n)"

definition demo_router :: "(unit, msg_type \<times> bytes, nat \<times> packets databus) router" where
  "demo_router = \<lparr>rt_max = 999999, rt_handlers = [23 \<mapsto> RpcHandler (new_factory True (\<lambda>_. (S2SRpcEchoReq, [])))
     (new_factory True (\<lambda>_. (S2SRpcEchoRes, []))) (\<lambda>p. lift_rpc echo_rpc)]\<rparr>"


end
