(* ===== verification/Model_Keys.thy ===== *)
theory Model_Keys
  imports Base Go_Strings
begin

text \<open>
  The names under which the services store their data: component names and ids of
  \<^verbatim>\<open>src/internal/share/model/func.go\<close> and the Redis keys of
  \<^verbatim>\<open>src/internal/share/model/redis_key.go\<close>.
\<close>

definition GetRoleID :: "u64 \<Rightarrow> u64" where
  "GetRoleID accID = accID"

definition GetAccID :: "u64 \<Rightarrow> u64" where
  "GetAccID roleID = roleID"

text \<open>The generated name table; a lookup of a number that is not in it gives the empty string.\<close>

definition TypeComp_name :: "int \<rightharpoonup> string" where
  "TypeComp_name = Map.empty(0 \<mapsto> ''TCBase'', 1 \<mapsto> ''TCExample'', 2 \<mapsto> ''TCEmptyExample'', 3 \<mapsto> ''TCDebug'', 5 \<mapsto> ''TCMax'')"

definition GetCompName :: "int \<Rightarrow> string" where
  "GetCompName comID = (case TypeComp_name comID of None \<Rightarrow> '''' | Some s \<Rightarrow> s)"

definition KeyAccount :: "u64 \<Rightarrow> string" where
  "KeyAccount accID = ''acc'' @ '':{'' @ itoa (unat accID) @ ''}''"

definition KeyAccBind :: "string \<Rightarrow> string" where
  "KeyAccBind bindKey = ''acc_bind'' @ '':'' @ bindKey"

definition KeyAccLoginCD :: "int \<Rightarrow> string \<Rightarrow> string" where
  "KeyAccLoginCD typ acc = ''acc_login_cd'' @ '':'' @ Itoa typ @ '':'' @ acc"

definition KeyRole :: "u64 \<Rightarrow> string" where
  "KeyRole roleID = ''role'' @ '':{'' @ itoa (unat roleID) @ ''}''"

lemma KeyRole_inj [simp]: "KeyRole a = KeyRole b \<longleftrightarrow> a = b"
  by (simp add: KeyRole_def) (rule word_unat_eq_iff [symmetric])

lemma KeyAccount_inj [simp]: "KeyAccount a = KeyAccount b \<longleftrightarrow> a = b"
  by (simp add: KeyAccount_def) (rule word_unat_eq_iff [symmetric])

lemma Itoa_no_colon: "CHR '':'' \<notin> set (Itoa i)"
  using not_in_itoa [of "CHR '':''"] by (simp add: Itoa_def)

lemma Itoa_inj: "Itoa i = Itoa j \<Longrightarrow> i = j"
proof -
  assume eq: "Itoa i = Itoa j"
  have minus: "CHR ''-'' \<notin> set (itoa n)" for n using not_in_itoa [of "CHR ''-''"] by simp
  have "CHR ''-'' \<in> set (Itoa k) \<longleftrightarrow> k < 0" for k by (simp add: Itoa_def minus)
  then have "i < 0 \<longleftrightarrow> j < 0" using eq by metis
  then show "i = j" using eq by (cases "i < 0") (simp_all add: Itoa_def eq_nat_nat_iff)
qed

lemma append_sep_eq:
  assumes "c \<notin> set xs" "c \<notin> set xs'" "xs @ c # ys = xs' @ c # ys'"
  shows "xs = xs' \<and> ys = ys'"
  using assms
proof (induction xs arbitrary: xs')
  case Nil
  then show ?case by (cases xs') auto
next
  case (Cons x xs)
  then show ?case by (cases xs') auto
qed

lemma KeyAccLoginCD_inj: "KeyAccLoginCD t a = KeyAccLoginCD t' a' \<Longrightarrow> t = t' \<and> a = a'"
  using append_sep_eq [OF Itoa_no_colon Itoa_no_colon, of t a t' a'] Itoa_inj [of t t'] by (simp add: KeyAccLoginCD_def)

text \<open>The kinds of data that share the Redis key space, and the key of each.\<close>

datatype stored = Account u64 | Bind string | LoginCD int string | RoleData u64

fun stored_key :: "stored \<Rightarrow> string" where
  "stored_key (Account a) = KeyAccount a"
| "stored_key (Bind b) = KeyAccBind b"
| "stored_key (LoginCD t a) = KeyAccLoginCD t a"
| "stored_key (RoleData r) = KeyRole r"

text \<open>
  The Redis keys are unambiguous: two different things the services store, an account, a binding of
  a third-party account, a login cooldown or a role, never share a key, whatever characters the bindings
  and the third-party account names contain.
\<close>

theorem redis_keys_unambiguous: "stored_key x = stored_key y \<longleftrightarrow> x = y"
proof
  assume "stored_key x = stored_key y"
  then show "x = y"
    by (cases x; cases y)
      (auto dest: KeyAccLoginCD_inj simp: KeyAccBind_def, auto simp: KeyAccount_def KeyAccLoginCD_def KeyRole_def)
qed simp

end
