(* ===== verification/Go_Time.thy ===== *)
theory Go_Time
  imports Base
begin

text \<open>
  What the sources use of Go's \<^verbatim>\<open>time\<close> package, and the helpers of \<^verbatim>\<open>src/pkg/util/time.go\<close>.  A time is
  the number of nanoseconds since the Unix epoch; the local zone has the fixed offset \<open>tz\<close> (seconds east of
  Greenwich).  Dates are those of the proleptic Gregorian calendar.
\<close>

section \<open>Instants and durations\<close>

type_synonym time = int

definition Second :: int where
  "Second = 1000000000"

definition Minute :: int where
  "Minute = 60 * Second"

definition Hour_dur :: int where
  "Hour_dur = 60 * Minute"

text \<open>The zero \<open>time.Time\<close> is the first of January of the year 1, UTC.\<close>

definition zero_time :: time where
  "zero_time = - 62135596800 * Second"

definition Unix :: "time \<Rightarrow> int" where
  "Unix t = t div Second"

text \<open>\<open>Sub\<close> saturates at the bounds of a 64-bit duration.\<close>

definition Sub :: "time \<Rightarrow> time \<Rightarrow> int" where
  "Sub t u = max (- (2 ^ 63)) (min (2 ^ 63 - 1) (t - u))"

definition Time_Add :: "time \<Rightarrow> int \<Rightarrow> time" where
  "Time_Add t d = t + d"

section \<open>Local days\<close>

definition local_day :: "int \<Rightarrow> time \<Rightarrow> int" where
  "local_day tz t = (Unix t + tz) div 86400"

definition Hour :: "int \<Rightarrow> time \<Rightarrow> int" where
  "Hour tz t = (Unix t + tz) mod 86400 div 3600"

definition CurDayBegin :: "int \<Rightarrow> time \<Rightarrow> time" where
  "CurDayBegin tz t = (local_day tz t * 86400 - tz) * Second"

lemma Unix_day_begin: "Unix (CurDayBegin tz t) = local_day tz t * 86400 - tz"
  by (simp add: CurDayBegin_def Unix_def Second_def)

lemma Unix_Add_sec: "Unix (Time_Add t (n * Second)) = Unix t + n"
  by (simp add: Unix_def Time_Add_def Second_def)

lemma day_bounds: "local_day tz t * 86400 \<le> Unix t + tz" "Unix t + tz < (local_day tz t + 1) * 86400"
proof -
  let ?x = "Unix t + tz"
  have "?x = ?x div 86400 * 86400 + ?x mod 86400" by simp
  moreover have "0 \<le> ?x mod 86400" "?x mod 86400 < 86400" by simp_all
  ultimately show "local_day tz t * 86400 \<le> ?x" "?x < (local_day tz t + 1) * 86400"
    unfolding local_day_def by (simp_all only: distrib_right)
qed

section \<open>Calendar dates\<close>

definition leap :: "int \<Rightarrow> bool" where
  "leap y \<longleftrightarrow> y mod 4 = 0 \<and> (y mod 100 \<noteq> 0 \<or> y mod 400 = 0)"

definition year_len :: "int \<Rightarrow> int" where
  "year_len y = (if leap y then 366 else 365)"

definition month_len :: "int \<Rightarrow> nat \<Rightarrow> int" where
  "month_len y m = (if m = 2 then (if leap y then 29 else 28) else if m \<in> {4, 6, 9, 11} then 30 else 31)"

text \<open>Days from the first of January 1970 to the first of January of \<open>y\<close>, and to the first of month \<open>m\<close>.\<close>

definition year_start :: "int \<Rightarrow> int" where
  "year_start y = 365 * y + ((y + 3) div 4 - (y + 99) div 100 + (y + 399) div 400) - 719528"

definition months_before :: "int \<Rightarrow> nat \<Rightarrow> int" where
  "months_before y m = sum_list (map (month_len y) [1..<m])"

definition month_start :: "int \<Rightarrow> nat \<Rightarrow> int" where
  "month_start y m = year_start y + months_before y m"

text \<open>The year of a day and the day's number in it, then its month: count the years of the day's 400-year
  cycle, then the months.\<close>

function year_loop :: "int \<Rightarrow> int \<Rightarrow> int \<times> int" where
  "year_loop y d = (if d < year_len y then (y, d) else year_loop (y + 1) (d - year_len y))"
  by pat_completeness auto
termination
  by (relation "measure (\<lambda>(_, d). nat d)") (auto simp: year_len_def split: if_splits)

declare year_loop.simps [simp del]

definition year_day :: "int \<Rightarrow> int \<times> int" where
  "year_day day = year_loop (400 * ((day + 719528) div 146097)) ((day + 719528) mod 146097)"

function month_loop :: "int \<Rightarrow> nat \<Rightarrow> int \<Rightarrow> nat \<times> int" where
  "month_loop y m d = (if m \<ge> 12 \<or> d < month_len y m then (m, d) else month_loop y (m + 1) (d - month_len y m))"
  by pat_completeness auto
termination
  by (relation "measure (\<lambda>(_, m, _). 12 - m)") auto

declare month_loop.simps [simp del]

definition Year :: "int \<Rightarrow> int" where
  "Year day = fst (year_day day)"

definition Month :: "int \<Rightarrow> nat" where
  "Month day = fst (month_loop (Year day) 1 (snd (year_day day)))"

text \<open>The first day of the following month: \<open>AddDate(0, 1, 0)\<close> on the first of a month normalises month 13.\<close>

definition next_month_start :: "int \<Rightarrow> nat \<Rightarrow> int" where
  "next_month_start y m = (if m = 12 then month_start (y + 1) 1 else month_start y (m + 1))"

lemma div_Suc_int:
  assumes "0 < (k :: int)"
  shows "(a + 1) div k = a div k + (if (a + 1) mod k = 0 then 1 else 0)"
proof -
  have "(a + 1) div k = (k * (a div k) + (a mod k + 1)) div k" by (simp add: add.assoc [symmetric])
  also have "\<dots> = a div k + (a mod k + 1) div k" using assms by (intro div_mult_self4) simp
  also have "(a mod k + 1) div k = (if (a + 1) mod k = 0 then 1 else 0)"
  proof (cases "a mod k + 1 = k")
    case True
    then have "(a + 1) mod k = 0" by (metis mod_add_left_eq mod_self)
    then show ?thesis using True assms by simp
  next
    case False
    have b: "0 \<le> a mod k" "a mod k < k" using assms by simp_all
    then have r: "(a mod k + 1) mod k = a mod k + 1" using False by (intro mod_pos_pos_trivial) linarith+
    then have "(a + 1) mod k \<noteq> 0" using b by (metis mod_add_left_eq add_pos_nonneg add.commute less_irrefl zero_less_one)
    then show ?thesis using b False by (simp add: div_pos_pos_trivial)
  qed
  finally show ?thesis .
qed

lemma year_start_Suc: "year_start (y + 1) = year_start y + year_len y"
proof -
  have key: "365 * (y + 1) + (A + (if p then 1 else 0) - (B + (if q then 1 else 0)) + (C + (if r then 1 else 0))) - 719528
      = 365 * y + (A - B + C) - 719528 + (if p \<and> (\<not> q \<or> r) then 366 else 365)"
    if "q \<Longrightarrow> p" "r \<Longrightarrow> q" for A B C :: int and p q r using that by (cases p; cases q; cases r) simp_all
  have 4: "(y + 1 + 3) div 4 = (y + 3) div 4 + (if y mod 4 = 0 then 1 else 0)"
    using div_Suc_int [of 4 "y + 3"] by simp
  have 100: "(y + 1 + 99) div 100 = (y + 99) div 100 + (if y mod 100 = 0 then 1 else 0)"
    using div_Suc_int [of 100 "y + 99"] by simp
  have 400: "(y + 1 + 399) div 400 = (y + 399) div 400 + (if y mod 400 = 0 then 1 else 0)"
    using div_Suc_int [of 400 "y + 399"] by simp
  have "y mod 100 = 0 \<Longrightarrow> y mod 4 = 0" "y mod 400 = 0 \<Longrightarrow> y mod 100 = 0"
    using dvd_trans [of 4 100 y] dvd_trans [of 100 400 y] by (simp_all add: mod_eq_0_iff_dvd)
  then show ?thesis unfolding year_start_def 4 100 400 year_len_def leap_def by (rule key)
qed

lemma year_start_cycle: "year_start (400 * e) = 146097 * e - 719528"
proof -
  have "(400 * e + 3) div 4 = 100 * e" "(400 * e + 99) div 100 = 4 * e" "(400 * e + 399) div 400 = e" by simp_all
  then show ?thesis by (simp add: year_start_def)
qed

lemma year_loop_spec:
  "0 \<le> d \<Longrightarrow> year_loop y d = (y', d') \<Longrightarrow> year_start y' + d' = year_start y + d \<and> 0 \<le> d' \<and> d' < year_len y'"
proof (induction y d rule: year_loop.induct)
  case (1 y d)
  show ?case
  proof (cases "d < year_len y")
    case True
    then show ?thesis using 1 by (simp add: year_loop.simps)
  next
    case False
    then have "year_loop (y + 1) (d - year_len y) = (y', d')" using 1 by (subst (asm) (2) year_loop.simps) simp
    then show ?thesis using 1 False year_start_Suc [of y] by auto
  qed
qed

lemma year_day_spec:
  "year_day day = (y, d) \<Longrightarrow> year_start y + d = day \<and> 0 \<le> d \<and> d < year_len y"
proof -
  assume "year_day day = (y, d)"
  from year_loop_spec [OF _ this [unfolded year_day_def]]
  have "year_start y + d = year_start (400 * ((day + 719528) div 146097)) + (day + 719528) mod 146097 \<and> 0 \<le> d \<and> d < year_len y"
    by simp
  moreover have "146097 * ((day + 719528) div 146097) + (day + 719528) mod 146097 = day + 719528" by simp
  ultimately show ?thesis unfolding year_start_cycle by linarith
qed

lemma months_before_simps: "months_before y (Suc 0) = 0" "1 \<le> m \<Longrightarrow> months_before y (Suc m) = months_before y m + month_len y m"
  by (simp_all add: months_before_def)

lemma months_before_13: "months_before y 13 = year_len y"
  by (simp add: months_before_def upt_conv_Cons month_len_def year_len_def)

lemma month_loop_spec:
  "1 \<le> m \<Longrightarrow> m \<le> 12 \<Longrightarrow> 0 \<le> d \<Longrightarrow> months_before y m + d < year_len y \<Longrightarrow> month_loop y m d = (m', d') \<Longrightarrow>
   months_before y m' + d' = months_before y m + d \<and> 1 \<le> m' \<and> m' \<le> 12 \<and> 0 \<le> d' \<and> d' < month_len y m'"
proof (induction y m d rule: month_loop.induct)
  case (1 y m d)
  show ?case
  proof (cases "m \<ge> 12 \<or> d < month_len y m")
    case True
    have "d < month_len y m" if "m \<ge> 12"
    proof -
      have "m = 12" using that 1 by simp
      then show ?thesis using 1(5) months_before_13 [of y] months_before_simps(2) [of 12 y] by simp
    qed
    then show ?thesis using True 1 by (auto simp: month_loop.simps)
  next
    case False
    then have "month_loop y (m + 1) (d - month_len y m) = (m', d')" using 1 by (subst (asm) (2) month_loop.simps) simp
    then show ?thesis using 1 False months_before_simps(2) [of m y] by auto
  qed
qed

lemma Month_spec:
  "\<exists>d. month_start (Year day) (Month day) + d = day \<and> 1 \<le> Month day \<and> Month day \<le> 12 \<and> 0 \<le> d \<and> d < month_len (Year day) (Month day)"
proof -
  obtain y d where yd: "year_day day = (y, d)" by fastforce
  obtain m e where me: "month_loop y 1 d = (m, e)" by fastforce
  have y: "Year day = y" "Month day = m" using yd me by (simp_all add: Year_def Month_def)
  from year_day_spec [OF yd] month_loop_spec [OF _ _ _ _ me] show ?thesis
    by (auto simp: y month_start_def months_before_simps)
qed

lemma next_month_start_eq: "1 \<le> m \<Longrightarrow> m \<le> 12 \<Longrightarrow> next_month_start y m = month_start y m + month_len y m"
  using months_before_13 [of y] months_before_simps(2) [of m y] months_before_simps(2) [of 12 y] year_start_Suc [of y]
  by (auto simp: next_month_start_def month_start_def months_before_simps)

text \<open>A day lies between the first of its month and the first of the next.\<close>

lemma month_bounds:
  "month_start (Year day) (Month day) \<le> day" "day < next_month_start (Year day) (Month day)"
  "next_month_start (Year day) (Month day) \<le> month_start (Year day) (Month day) + 31"
  using Month_spec [of day] next_month_start_eq [of "Month day" "Year day"] by (auto simp: month_len_def)

section \<open>Day numbers\<close>

text \<open>Go's integer division truncates towards zero.\<close>

definition quot :: "int \<Rightarrow> int \<Rightarrow> int" where
  "quot a b = (if a < 0 then - (- a div b) else a div b)"

definition gTimeInterval :: int where
  "gTimeInterval = 24 * 3600"

text \<open>Midnight of the first and of the fifth of January 1970, local time.\<close>

definition gTimeGenesisUnix :: "int \<Rightarrow> int" where
  "gTimeGenesisUnix tz = - tz"

definition gTimeGenesisUnixWeek :: "int \<Rightarrow> int" where
  "gTimeGenesisUnixWeek tz = 4 * 86400 - tz"

definition GetZeroDay :: "int \<Rightarrow> int \<Rightarrow> int \<Rightarrow> int" where
  "GetZeroDay tz t resetTime = quot (t - gTimeGenesisUnix tz - resetTime) gTimeInterval"

definition GetZeroWeek :: "int \<Rightarrow> int \<Rightarrow> int \<Rightarrow> int" where
  "GetZeroWeek tz t resetTime = quot (quot (t - gTimeGenesisUnixWeek tz - resetTime) gTimeInterval) 7"

definition GetZeroMonth :: "int \<Rightarrow> int \<Rightarrow> int \<Rightarrow> int" where
  "GetZeroMonth tz unix resetTime =
     (let day = (unix - resetTime + tz) div 86400 in (Year day - 1970) * 12 + int (Month day) - 1)"

definition IsSameDay :: "int \<Rightarrow> int \<Rightarrow> int \<Rightarrow> int \<Rightarrow> bool" where
  "IsSameDay tz a b resetTime =
     (if a = b then True
      else let ad = GetZeroDay tz a resetTime in
        if ad < 0 then False
        else let bd = GetZeroDay tz b resetTime in if bd < 0 then False else ad = bd)"



end
