(* ===== verification/Role.thy ===== *)
theory Role
  imports Sender Swap_Queue Model_Keys Go_Time "HOL-Library.Monad_Syntax"
begin

text \<open>
  A role, \<^verbatim>\<open>src/internal/game/role/role.go\<close>, with its components
  (\<^verbatim>\<open>src/internal/game/component\<close>) and the registration of role handlers
  (\<^verbatim>\<open>src/internal/game/role/router.go\<close>).  The JSON codec is a parameter.  What a role does to the rest of the
  server goes through the record \<open>role_env\<close>: the two methods of the interface \<^verbatim>\<open>ILoginMgr\<close>, the registry, the
  senders, and its own context.  Calendar times use the zone \<open>tz\<close>.  \<^term>\<open>None\<close> as a result is a panic.
\<close>

section \<open>Data\<close>

record RoleData =
  rd_ID :: u64
  rd_Level :: int
  rd_Exp :: u32
  rd_Name :: string
  rd_Country :: u32
  rd_OfflineTime :: int
  rd_OnlineTime :: int
  rd_CreateTime :: int
  rd_ResetTime :: int
  rd_DayChange :: int
  rd_DataResetMonth :: int
  rd_Items :: "(string \<times> int) list"

definition RoleData_zero :: RoleData where
  "RoleData_zero = \<lparr>rd_ID = 0, rd_Level = 0, rd_Exp = 0, rd_Name = '''', rd_Country = 0, rd_OfflineTime = 0, rd_OnlineTime = 0,
     rd_CreateTime = 0, rd_ResetTime = 0, rd_DayChange = 0, rd_DataResetMonth = 0, rd_Items = []\<rparr>"

record DataToSave =
  ds_RoleID :: u64
  ds_Data :: "string \<rightharpoonup> string"

definition TCBase :: int where "TCBase = 0"
definition TCExample :: int where "TCExample = 1"
definition TCEmptyExample :: int where "TCEmptyExample = 2"
definition TCDebug :: int where "TCDebug = 3"
definition TCMax :: nat where "TCMax = 5"

definition DataToSave_Get :: "int \<Rightarrow> DataToSave \<Rightarrow> string" where
  "DataToSave_Get comID d = (case ds_Data d (GetCompName comID) of None \<Rightarrow> '''' | Some s \<Rightarrow> s)"

definition DataToSave_Set :: "int \<Rightarrow> string \<Rightarrow> DataToSave \<Rightarrow> DataToSave" where
  "DataToSave_Set comID s d = d\<lparr>ds_Data := (ds_Data d)(GetCompName comID \<mapsto> s)\<rparr>"

definition DataToSave_IsEmpty :: "DataToSave \<Rightarrow> bool" where
  "DataToSave_IsEmpty d \<longleftrightarrow> ds_Data d = Map.empty"

section \<open>Components\<close>

text \<open>The exported fields of a component are stored; the others are lost with the role object.\<close>

record example_data =
  ex_OnlineCnt :: "32 word"
  ex_OfflineCnt :: "32 word"
  ex_Today :: bool
  ex_Name :: string
  ex_Award :: "32 word set"
  ex_Info :: "32 word list"
  ex_Cnt :: "64 word"
  ex_cur :: "32 word"
  ex_tmp :: "32 word \<rightharpoonup> bool"
  ex_dirty :: bool

record debug_data =
  db_OnlineCnt :: "32 word"
  db_OfflineCnt :: "32 word"
  db_dirty :: bool

datatype comp = CExample example_data | CEmpty | CDebug debug_data

definition example_New :: example_data where
  "example_New = \<lparr>ex_OnlineCnt = 0, ex_OfflineCnt = 0, ex_Today = False, ex_Name = '''', ex_Award = {}, ex_Info = [], ex_Cnt = 0,
     ex_cur = 0, ex_tmp = Map.empty, ex_dirty = False\<rparr>"

definition debug_New :: debug_data where
  "debug_New = \<lparr>db_OnlineCnt = 0, db_OfflineCnt = 0, db_dirty = False\<rparr>"

fun IsDirty :: "comp \<Rightarrow> bool" where
  "IsDirty (CExample d) = ex_dirty d"
| "IsDirty CEmpty = False"
| "IsDirty (CDebug d) = db_dirty d"

fun ClearDirty :: "comp \<Rightarrow> comp" where
  "ClearDirty (CExample d) = CExample (d\<lparr>ex_dirty := False\<rparr>)"
| "ClearDirty CEmpty = CEmpty"
| "ClearDirty (CDebug d) = CDebug (d\<lparr>db_dirty := False\<rparr>)"

definition example_Online :: "example_data \<Rightarrow> example_data" where
  "example_Online d =
     (let d1 = d\<lparr>ex_OnlineCnt := ex_OnlineCnt d + 1\<rparr>;
          c = ex_OnlineCnt d1
      in d1\<lparr>ex_cur := c, ex_Today := True, ex_Name := ''testName'', ex_Award := insert c (ex_Award d1),
            ex_Info := ex_Info d1 @ [c], ex_tmp := (ex_tmp d1)(c \<mapsto> True)\<rparr>)"

text \<open>The check of the stored role data in the debug component's \<open>Online\<close> only logs.\<close>

definition debug_Online :: "debug_data \<Rightarrow> debug_data" where
  "debug_Online d = d\<lparr>db_OnlineCnt := db_OnlineCnt d + 1, db_dirty := True\<rparr>"

fun comp_Online :: "comp \<Rightarrow> comp" where
  "comp_Online (CExample d) = CExample (example_Online d)"
| "comp_Online CEmpty = CEmpty"
| "comp_Online (CDebug d) = CDebug (debug_Online d)"

definition example_Offline :: "example_data \<Rightarrow> example_data option" where
  "example_Offline d =
     (let d1 = d\<lparr>ex_OfflineCnt := ex_OfflineCnt d + 1\<rparr>
      in if ex_OnlineCnt d1 \<noteq> ex_OfflineCnt d1 then None else Some d1)"

definition debug_Offline :: "debug_data \<Rightarrow> debug_data option" where
  "debug_Offline d =
     (let d1 = d\<lparr>db_OfflineCnt := db_OfflineCnt d + 1\<rparr>
      in if db_OnlineCnt d1 \<noteq> db_OfflineCnt d1 then None else Some d1)"

fun comp_Offline :: "comp \<Rightarrow> comp option" where
  "comp_Offline (CExample d) = map_option CExample (example_Offline d)"
| "comp_Offline CEmpty = Some CEmpty"
| "comp_Offline (CDebug d) = map_option CDebug (debug_Offline d)"

fun comp_OnTick :: "comp \<Rightarrow> comp" where
  "comp_OnTick (CExample d) = CExample (d\<lparr>ex_Cnt := ex_Cnt d + 1\<rparr>)"
| "comp_OnTick CEmpty = CEmpty"
| "comp_OnTick (CDebug d) = CDebug d"

text \<open>The interfaces of \<^verbatim>\<open>comp.go\<close> that no component implements yet are parameters of the tick.\<close>

record comp_hooks =
  OnNewDay :: "comp \<Rightarrow> comp"
  OnDataReset :: "comp \<Rightarrow> comp"
  OnNewMonth :: "comp \<Rightarrow> comp"
  OnMinute :: "comp \<Rightarrow> comp"

definition Create :: "comp option list \<Rightarrow> comp option list" where
  "Create comps = comps[nat TCExample := Some (CExample example_New), nat TCEmptyExample := Some CEmpty, nat TCDebug := Some (CDebug debug_New)]"

section \<open>The role object\<close>

record S2SReqLogin =
  lg_SesID :: u64
  lg_RoleID :: u64
  lg_Seq :: u32
  lg_CliInfo :: string
  lg_ConnectedAcc :: "string list"

record role =
  r_ID :: u64
  r_SesID :: u64
  r_Comps :: "comp option list"
  r_Data :: "RoleData option"
  r_CliInfo :: string
  r_ConnectAcc :: "string list"
  r_nowSec :: int
  r_lastSaveRedis :: time
  r_lastSaveDB :: time
  r_lastMinute :: time
  r_LastHeartbeat :: time
  r_HeartbeatTimeOut :: int
  r_dirty :: bool

datatype out_msg =
    LoginOrLogout (lo_RoleID: u64) (lo_GameID: u32) (lo_SesID: u64) (lo_Login: bool)
  | ResLogin (rl_SesID: u64) (rl_Player: RoleData) (rl_ConnectAcc: "string list") (rl_GameID: int)
  | GtDisconnect (gd_SesID: u64) (gd_Why: int)

record 'w role_env =
  env_Logout :: "DataToSave \<Rightarrow> 'w \<Rightarrow> 'w"
  env_SaveRole :: "DataToSave \<Rightarrow> bool \<Rightarrow> 'w \<Rightarrow> 'w \<times> bool"
  env_Unregister :: "u64 \<Rightarrow> u64 \<Rightarrow> 'w \<Rightarrow> 'w"
  env_send :: "out_msg \<Rightarrow> 'w \<Rightarrow> 'w"
  env_Cancel :: "'w \<Rightarrow> 'w"
  env_CtxErr :: "'w \<Rightarrow> bool"

record json =
  j_marshal_role :: "RoleData \<Rightarrow> string option"
  j_unmarshal_role :: "string \<Rightarrow> RoleData \<Rightarrow> RoleData option"
  j_marshal_comp :: "comp \<Rightarrow> string option"
  j_unmarshal_comp :: "string \<Rightarrow> comp \<Rightarrow> comp option"

definition SetDirty :: "role \<Rightarrow> role" where
  "SetDirty r = r\<lparr>r_dirty := True\<rparr>"

text \<open>The loop over the components in \<open>NewRole\<close>: a component without stored data keeps its initial state.\<close>

fun load_comps :: "json \<Rightarrow> DataToSave \<Rightarrow> nat \<Rightarrow> comp option list \<Rightarrow> comp option list option" where
  "load_comps j data i [] = Some []"
| "load_comps j data i (None # cs) = map_option (Cons None) (load_comps j data (Suc i) cs)"
| "load_comps j data i (Some c # cs) =
     (let s = DataToSave_Get (int i) data
      in do { c' \<leftarrow> (if s = '''' then Some c else j_unmarshal_comp j s c);
              map_option (Cons (Some c')) (load_comps j data (Suc i) cs) })"

definition NewRole :: "json \<Rightarrow> time \<Rightarrow> DataToSave \<Rightarrow> S2SReqLogin \<Rightarrow> role option" where
  "NewRole j now data login =
     do { dataBase \<leftarrow> j_unmarshal_role j (DataToSave_Get TCBase data) RoleData_zero;
          comps \<leftarrow> load_comps j data 0 (Create (replicate TCMax None));
          let r = \<lparr>r_ID = ds_RoleID data, r_SesID = lg_SesID login, r_Comps = comps, r_Data = Some dataBase,
                   r_CliInfo = lg_CliInfo login, r_ConnectAcc = lg_ConnectedAcc login, r_nowSec = 0,
                   r_lastSaveRedis = zero_time, r_lastSaveDB = zero_time, r_lastMinute = zero_time,
                   r_LastHeartbeat = zero_time, r_HeartbeatTimeOut = 0, r_dirty = False\<rparr>;
          Some (if rd_CreateTime dataBase = 0
                then SetDirty (r\<lparr>r_Data := Some (dataBase\<lparr>rd_CreateTime := Unix now\<rparr>)\<rparr>) else r) }"

section \<open>Saving\<close>

text \<open>A component that cannot be marshalled is logged and left out.\<close>

fun marshal_comps :: "json \<Rightarrow> bool \<Rightarrow> nat \<Rightarrow> comp option list \<Rightarrow> DataToSave \<Rightarrow> DataToSave" where
  "marshal_comps j force i [] rd = rd"
| "marshal_comps j force i (None # cs) rd = marshal_comps j force (Suc i) cs rd"
| "marshal_comps j force i (Some c # cs) rd =
     marshal_comps j force (Suc i) cs
       (if \<not> force \<and> \<not> IsDirty c then rd
        else case j_marshal_comp j c of None \<Rightarrow> rd | Some s \<Rightarrow> DataToSave_Set (int i) s rd)"

definition marshal :: "json \<Rightarrow> bool \<Rightarrow> role \<Rightarrow> DataToSave option" where
  "marshal j force r =
     do { rd \<leftarrow> (if force \<or> r_dirty r
                 then map_option (\<lambda>s. DataToSave_Set TCBase s \<lparr>ds_RoleID = r_ID r, ds_Data = Map.empty\<rparr>)
                        (Option.bind (r_Data r) (j_marshal_role j))
                 else Some \<lparr>ds_RoleID = r_ID r, ds_Data = Map.empty\<rparr>);
          Some (marshal_comps j force 0 (r_Comps r) rd) }"

definition role_save :: "json \<Rightarrow> 'w role_env \<Rightarrow> bool \<Rightarrow> role \<times> 'w \<Rightarrow> role \<times> 'w" where
  "role_save j env both rw =
     (case rw of (r, w) \<Rightarrow>
       (case marshal j False r of
          None \<Rightarrow> (r, w)
        | Some data \<Rightarrow>
            if DataToSave_IsEmpty data then (r, w)
            else (case env_SaveRole env data both w of
                    (w', True) \<Rightarrow>
                      (r\<lparr>r_dirty := False, r_Comps := map (map_option (\<lambda>c. if IsDirty c then ClearDirty c else c)) (r_Comps r)\<rparr>, w')
                  | (w', False) \<Rightarrow> (r, w'))))"

section \<open>Ticks\<close>

definition MinuteLoop :: "comp_hooks \<Rightarrow> role \<Rightarrow> role" where
  "MinuteLoop hooks r = r\<lparr>r_Comps := map (map_option (OnMinute hooks)) (r_Comps r)\<rparr>"

text \<open>What the tick does to one component.\<close>

definition tick_comp :: "comp_hooks \<Rightarrow> bool \<Rightarrow> bool \<Rightarrow> bool \<Rightarrow> comp \<Rightarrow> comp" where
  "tick_comp hooks dayChange reset monthChange c =
     (let c1 = comp_OnTick c;
          c2 = (if dayChange then OnNewDay hooks c1 else c1);
          c3 = (if reset then OnDataReset hooks c2 else c2)
      in if reset \<and> monthChange then OnNewMonth hooks c3 else c3)"

definition ResetHour :: int where "ResetHour = 8"
definition HeartbeatTime :: int where "HeartbeatTime = 15 * 2"

text \<open>
  The next reset: \<open>now\<close> is the time of the tick, \<open>clk\<close> what \<open>util.CurDayBegin\<close> reads from the clock while the
  tick is handled.
\<close>

definition next_reset :: "int \<Rightarrow> time \<Rightarrow> time \<Rightarrow> int" where
  "next_reset tz now clk =
     (let dayBegin = CurDayBegin tz clk
      in if Hour tz now \<ge> ResetHour then Unix (Time_Add dayBegin ((ResetHour + 24) * Hour_dur))
         else Unix (Time_Add dayBegin (ResetHour * Hour_dur)))"

definition next_month :: "int \<Rightarrow> time \<Rightarrow> int" where
  "next_month tz now =
     (let day = local_day tz now
      in next_month_start (Year day) (Month day) * 86400 - tz + ResetHour * 3600)"

definition next_day :: "int \<Rightarrow> time \<Rightarrow> int" where
  "next_day tz clk = Unix (Time_Add (CurDayBegin tz clk) (24 * Hour_dur))"

definition tick_times :: "int \<Rightarrow> time \<Rightarrow> time \<Rightarrow> time \<Rightarrow> bool \<Rightarrow> bool \<Rightarrow> bool \<Rightarrow> RoleData \<Rightarrow> RoleData" where
  "tick_times tz now clk1 clk2 dayChange reset monthChange d =
     (let d1 = (if reset then d\<lparr>rd_ResetTime := next_reset tz now clk1\<rparr> else d);
          d2 = (if reset \<and> monthChange then d1\<lparr>rd_DataResetMonth := next_month tz now\<rparr> else d1)
      in if dayChange then d2\<lparr>rd_DayChange := next_day tz clk2\<rparr> else d2)"

definition autosave :: "json \<Rightarrow> 'w role_env \<Rightarrow> int \<Rightarrow> time \<Rightarrow> role \<times> 'w \<Rightarrow> role \<times> 'w" where
  "autosave j env autoSave now rw =
     (case rw of (r, w) \<Rightarrow>
       if Sub now (r_lastSaveRedis r) > autoSave * Second
       then let (r1, w1) = (if Sub now (r_lastSaveDB r) > autoSave * 10 * Second
                            then case role_save j env True (r, w) of (r', w') \<Rightarrow> (r'\<lparr>r_lastSaveDB := now\<rparr>, w')
                            else role_save j env False (r, w))
            in (r1\<lparr>r_lastSaveRedis := now\<rparr>, w1)
       else (r, w))"

definition check_heartbeat :: "'w role_env \<Rightarrow> time \<Rightarrow> role \<times> 'w \<Rightarrow> role \<times> 'w" where
  "check_heartbeat env now rw =
     (case rw of (r, w) \<Rightarrow>
       if Sub now (r_LastHeartbeat r) > HeartbeatTime * Second
       then let r1 = r\<lparr>r_HeartbeatTimeOut := r_HeartbeatTimeOut r + 1\<rparr>
            in if r_HeartbeatTimeOut r1 > 2 then (r1, env_Cancel env w) else (r1, w)
       else (r, w))"

definition OnTick ::
    "json \<Rightarrow> comp_hooks \<Rightarrow> 'w role_env \<Rightarrow> int \<Rightarrow> int \<Rightarrow> time \<Rightarrow> time \<Rightarrow> time \<Rightarrow> role \<times> 'w \<Rightarrow> role \<times> 'w" where
  "OnTick j hooks env tz autoSave now clk1 clk2 rw =
     (case rw of (r, w) \<Rightarrow>
       (case r_Data r of
          None \<Rightarrow> (r, w)
        | Some d \<Rightarrow>
            let nowSec = Unix now;
                reset = nowSec > rd_ResetTime d;
                monthChange = (reset \<and> nowSec \<ge> rd_DataResetMonth d);
                dayChange = nowSec > rd_DayChange d;
                r1 = r\<lparr>r_nowSec := nowSec\<rparr>;
                r2 = (if Sub now (r_lastMinute r1) > Minute then MinuteLoop hooks (r1\<lparr>r_lastMinute := now\<rparr>) else r1);
                r3 = r2\<lparr>r_Comps := map (map_option (tick_comp hooks dayChange reset monthChange)) (r_Comps r2)\<rparr>;
                r4 = r3\<lparr>r_Data := Some (tick_times tz now clk1 clk2 dayChange reset monthChange d)\<rparr>
            in check_heartbeat env now (autosave j env autoSave now (r4, w))))"

section \<open>Going online and offline\<close>

definition DisconnectReason_Kick :: int where "DisconnectReason_Kick = 7"

definition Online ::
    "json \<Rightarrow> comp_hooks \<Rightarrow> 'w role_env \<Rightarrow> int \<Rightarrow> int \<Rightarrow> u8 \<Rightarrow> time \<Rightarrow> time \<Rightarrow> time \<Rightarrow> role \<times> 'w \<Rightarrow> (role \<times> 'w) option" where
  "Online j hooks env tz autoSave svcIndex now clk1 clk2 rw =
     (case rw of (r, w) \<Rightarrow> do {
        d \<leftarrow> r_Data r;
        let r1 = r\<lparr>r_Data := Some (d\<lparr>rd_OnlineTime := Unix now\<rparr>), r_lastSaveRedis := now, r_LastHeartbeat := now, r_HeartbeatTimeOut := 0\<rparr>;
        let (r2, w2) = OnTick j hooks env tz autoSave now clk1 clk2 (r1, w);
        let w3 = env_send env (LoginOrLogout (r_ID r2) (ucast svcIndex) (r_SesID r2) True) w2;
        let r3 = r2\<lparr>r_Comps := map (map_option comp_Online) (r_Comps r2)\<rparr>;
        d3 \<leftarrow> r_Data r3;
        Some (r3, env_send env (ResLogin (r_SesID r3) d3 (r_ConnectAcc r3) (uint svcIndex)) w3) })"

definition Disconnect :: "'w role_env \<Rightarrow> int \<Rightarrow> role \<Rightarrow> 'w \<Rightarrow> 'w" where
  "Disconnect env why r w = env_send env (GtDisconnect (r_SesID r) why) w"

fun offline_comps :: "comp option list \<Rightarrow> comp option list option" where
  "offline_comps [] = Some []"
| "offline_comps (None # cs) = map_option (Cons None) (offline_comps cs)"
| "offline_comps (Some c # cs) = do { c' \<leftarrow> comp_Offline c; map_option (Cons (Some c')) (offline_comps cs) }"

definition Offline :: "json \<Rightarrow> 'w role_env \<Rightarrow> u8 \<Rightarrow> time \<Rightarrow> role \<times> 'w \<Rightarrow> (role \<times> 'w) option" where
  "Offline j env svcIndex now rw =
     (case rw of (r, w) \<Rightarrow> do {
        d \<leftarrow> r_Data r;
        let r1 = r\<lparr>r_Data := Some (d\<lparr>rd_OfflineTime := Unix now\<rparr>)\<rparr>;
        comps \<leftarrow> offline_comps (r_Comps r1);
        let r2 = r1\<lparr>r_Comps := comps\<rparr>;
        let w1 = env_Unregister env (r_ID r2) (r_SesID r2) w;
        let w2 = (case marshal j True r2 of None \<Rightarrow> w1 | Some data \<Rightarrow> env_Logout env data w1);
        let w3 = Disconnect env DisconnectReason_Kick r2 w2;
        Some (r2, env_send env (LoginOrLogout (r_ID r2) (ucast svcIndex) 0 False) w3) })"

section \<open>Events\<close>

text \<open>An event carries a function to run, or a message for the router.\<close>

record ('u, 'w) Event =
  evt_Ctx :: "'u message"
  evt_Func :: "(role \<times> 'w \<Rightarrow> role \<times> 'w) option"

definition EventChanSize :: nat where "EventChanSize = 16"

definition handle_event ::
    "'m vt \<Rightarrow> (string \<Rightarrow> 'm \<Rightarrow> role \<times> 'w \<Rightarrow> (role \<times> 'w) \<times> bool) \<Rightarrow> nat option \<times> nat option \<Rightarrow> 'u \<Rightarrow> ('u, 'w) Event
      \<Rightarrow> ('u, 'm, role \<times> 'w) router \<times> (role \<times> 'w) \<Rightarrow> ('u, 'm, role \<times> 'w) router \<times> (role \<times> 'w)" where
  "handle_event v respond picks self evt st =
     (case st of (rt, rw) \<Rightarrow>
       (case evt_Func evt of
          Some f \<Rightarrow> (rt, f rw)
        | None \<Rightarrow> (case Router_Handle v respond picks ((evt_Ctx evt)\<lparr>U := Some self\<rparr>) rt rw of (rt', rw', _) \<Rightarrow> (rt', rw'))))"

text \<open>
  One round of \<open>Run\<close>: wait for the signal (\<^term>\<open>None\<close>: the goroutine blocks), handle the events of the mailbox,
  leave when the context is done.
\<close>

definition run_round ::
    "'m vt \<Rightarrow> (string \<Rightarrow> 'm \<Rightarrow> role \<times> 'w \<Rightarrow> (role \<times> 'w) \<times> bool) \<Rightarrow> nat option \<times> nat option \<Rightarrow> 'w role_env \<Rightarrow> 'u
      \<Rightarrow> ('u, 'w) Event swap_queue \<times> ('u, 'm, role \<times> 'w) router \<times> (role \<times> 'w)
      \<Rightarrow> (('u, 'w) Event swap_queue \<times> ('u, 'm, role \<times> 'w) router \<times> (role \<times> 'w) \<times> bool) option" where
  "run_round v respond picks env self st =
     (case st of (q, rt, rw) \<Rightarrow>
       (case recv_Sig q of
          None \<Rightarrow> None
        | Some q1 \<Rightarrow>
            (case Range (\<lambda>evt (q, s). (q, handle_event v respond picks self evt s)) (q1, rt, rw) of
               (q2, rt2, rw2) \<Rightarrow> Some (q2, rt2, rw2, env_CtxErr env (snd rw2)))))"

section \<open>Messages to the client and handlers\<close>

definition role_SendS ::
    "'n publisher \<Rightarrow> (int \<Rightarrow> int) \<Rightarrow> picks \<Rightarrow> 'm vt \<Rightarrow> role \<Rightarrow> 'm \<Rightarrow> 'n sworld \<Rightarrow> ('n sworld \<times> send_result) option" where
  "role_SendS publish machineID picks v r msg w =
     (case GetMsgIDS2C (vt_type v msg) of
        None \<Rightarrow> Some (w, No_msg_id)
      | Some msgID \<Rightarrow> gnet_SendToClient publish machineID picks v msgID msg (r_SesID r) (r_ID r) w)"

definition role_Send ::
    "bool \<Rightarrow> 'n publisher \<Rightarrow> (int \<Rightarrow> int) \<Rightarrow> picks \<Rightarrow> 'm vt \<Rightarrow> role \<Rightarrow> u32 \<Rightarrow> 'm \<Rightarrow> 'n sworld \<Rightarrow> ('n sworld \<times> send_result) option" where
  "role_Send debug publish machineID picks v r msgID msg w =
     (case (if debug then (case GetMsgIDS2C (vt_type v msg) of
              None \<Rightarrow> Some No_msg_id
            | Some real \<Rightarrow> if real \<noteq> msgID then Some Id_mismatch else None) else None) of
        Some res \<Rightarrow> Some (w, res)
      | None \<Rightarrow> gnet_SendToClient publish machineID picks v msgID msg (r_SesID r) (r_ID r) w)"

definition GetComp :: "nat \<Rightarrow> role \<Rightarrow> comp option option" where
  "GetComp t r = (if t < length (r_Comps r) then Some (r_Comps r ! t) else None)"

text \<open>Registration of handlers that get the role: the router's state is the role and its surroundings.\<close>

definition role_register ::
    "'m vt \<Rightarrow> bool \<Rightarrow> bool \<Rightarrow> msg_type \<Rightarrow> ('m \<Rightarrow> role \<times> 'w \<Rightarrow> 'm \<times> (role \<times> 'w))
      \<Rightarrow> ('u, 'm, role \<times> 'w) router \<Rightarrow> ('u, 'm, role \<times> 'w) router option" where
  "role_register v isReady usePool ty df rt = register_handler v isReady usePool ty (\<lambda>c m rw. df m rw) rt"

definition role_On ::
    "'m vt \<Rightarrow> bool \<Rightarrow> msg_type \<Rightarrow> ('m \<Rightarrow> role \<times> 'w \<Rightarrow> 'm \<times> (role \<times> 'w)) \<Rightarrow> ('u, 'm, role \<times> 'w) router \<Rightarrow> ('u, 'm, role \<times> 'w) router option" where
  "role_On v isReady ty df = role_register v isReady False ty df"

definition role_OnP ::
    "'m vt \<Rightarrow> bool \<Rightarrow> msg_type \<Rightarrow> ('m \<Rightarrow> role \<times> 'w \<Rightarrow> 'm \<times> (role \<times> 'w)) \<Rightarrow> ('u, 'm, role \<times> 'w) router \<Rightarrow> ('u, 'm, role \<times> 'w) router option" where
  "role_OnP v isReady ty df = role_register v isReady True ty df"

definition role_registerRpc ::
    "'m vt \<Rightarrow> bool \<Rightarrow> bool \<Rightarrow> msg_type \<Rightarrow> msg_type \<Rightarrow> ('m \<Rightarrow> 'm \<Rightarrow> role \<times> 'w \<Rightarrow> 'm \<times> 'm \<times> (role \<times> 'w))
      \<Rightarrow> ('u, 'm, role \<times> 'w) router \<Rightarrow> ('u, 'm, role \<times> 'w) router option" where
  "role_registerRpc v isReady usePool reqTy resTy df rt = registerRpc v isReady usePool reqTy resTy df rt"

definition role_OnRpc ::
    "'m vt \<Rightarrow> bool \<Rightarrow> msg_type \<Rightarrow> msg_type \<Rightarrow> ('m \<Rightarrow> 'm \<Rightarrow> role \<times> 'w \<Rightarrow> 'm \<times> 'm \<times> (role \<times> 'w))
      \<Rightarrow> ('u, 'm, role \<times> 'w) router \<Rightarrow> ('u, 'm, role \<times> 'w) router option" where
  "role_OnRpc v isReady = role_registerRpc v isReady False"

definition role_OnRpcP ::
    "'m vt \<Rightarrow> bool \<Rightarrow> msg_type \<Rightarrow> msg_type \<Rightarrow> ('m \<Rightarrow> 'm \<Rightarrow> role \<times> 'w \<Rightarrow> 'm \<times> 'm \<times> (role \<times> 'w))
      \<Rightarrow> ('u, 'm, role \<times> 'w) router \<Rightarrow> ('u, 'm, role \<times> 'w) router option" where
  "role_OnRpcP v isReady = role_registerRpc v isReady True"

text \<open>\<open>onHeartBeat\<close> of \<^verbatim>\<open>logon_service/handle.go\<close>: the answer to the client aside, it restarts the count.\<close>

definition onHeartBeat :: "time \<Rightarrow> role \<Rightarrow> role" where
  "onHeartBeat now r = r\<lparr>r_HeartbeatTimeOut := 0, r_LastHeartbeat := now\<rparr>"

section \<open>Storing a role and loading it again\<close>

text \<open>What JSON promises: decoding an encoded value into a fresh object of its type restores the exported
  fields; the empty string is not JSON, and no encoding is empty.\<close>

fun fresh :: "comp \<Rightarrow> comp" where
  "fresh (CExample d) = CExample example_New"
| "fresh CEmpty = CEmpty"
| "fresh (CDebug d) = CDebug debug_New"

fun exported :: "comp \<Rightarrow> comp" where
  "exported (CExample d) = CExample (d\<lparr>ex_cur := 0, ex_tmp := Map.empty, ex_dirty := False\<rparr>)"
| "exported CEmpty = CEmpty"
| "exported (CDebug d) = CDebug (d\<lparr>db_dirty := False\<rparr>)"

definition json_ok :: "json \<Rightarrow> bool" where
  "json_ok j \<longleftrightarrow>
     (\<forall>d s. j_marshal_role j d = Some s \<longrightarrow> j_unmarshal_role j s RoleData_zero = Some d)
   \<and> (\<forall>d. j_unmarshal_role j '''' d = None)
   \<and> (\<forall>c s. j_marshal_comp j c = Some s \<longrightarrow> s \<noteq> '''' \<and> j_unmarshal_comp j s (fresh c) = Some (exported c))"

definition comps_ok :: "comp option list \<Rightarrow> bool" where
  "comps_ok cs \<longleftrightarrow> map (map_option fresh) cs = Create (replicate TCMax None)"

lemma Create_eq: "Create (replicate TCMax None) = [None, Some (CExample example_New), Some CEmpty, Some (CDebug debug_New), None]"
  by (simp add: Create_def TCMax_def TCExample_def TCEmptyExample_def TCDebug_def numeral_eq_Suc)

lemma comps_ok_cases:
  assumes "comps_ok cs"
  obtains e d where "cs = [None, Some (CExample e), Some CEmpty, Some (CDebug d), None]"
proof -
  have "map (map_option fresh) cs = [None, Some (CExample example_New), Some CEmpty, Some (CDebug debug_New), None]"
    using assms by (simp add: comps_ok_def Create_eq)
  then obtain a b c d e where cs: "cs = [a, b, c, d, e]"
    and f: "map_option fresh a = None" "map_option fresh b = Some (CExample example_New)" "map_option fresh c = Some CEmpty"
      "map_option fresh d = Some (CDebug debug_New)" "map_option fresh e = None"
    by (auto simp: map_eq_Cons_conv)
  from f have "a = None" "e = None" by simp_all
  moreover from f obtain x where "b = Some (CExample x)" by (cases b) (auto elim: fresh.elims)
  moreover from f have "c = Some CEmpty" by (cases c) (auto elim: fresh.elims)
  moreover from f obtain y where "d = Some (CDebug y)" by (cases d) (auto elim: fresh.elims)
  ultimately show thesis using that cs by blast
qed

lemma comp_names [simp]: "GetCompName 0 = ''TCBase''" "GetCompName 1 = ''TCExample''" "GetCompName 2 = ''TCEmptyExample''" "GetCompName 3 = ''TCDebug''"
  by (simp_all add: GetCompName_def TypeComp_name_def)

text \<open>
  C17. Storing a role and loading it again restores it.  A role that went offline and marshalled
  everything is rebuilt by \<open>NewRole\<close> with the same id, the same role data and the exported fields of every
  component, for the session of the new login.
\<close>

theorem role_roundtrip:
  assumes j: "json_ok j" and data: "r_Data r = Some d" "rd_CreateTime d \<noteq> 0" "j_marshal_role j d \<noteq> None"
    and comps: "comps_ok (r_Comps r)" "\<forall>c. Some c \<in> set (r_Comps r) \<longrightarrow> j_marshal_comp j c \<noteq> None"
  shows "\<exists>saved r'. marshal j True r = Some saved \<and> NewRole j now saved login = Some r'
     \<and> r_ID r' = r_ID r \<and> r_Data r' = r_Data r \<and> r_Comps r' = map (map_option exported) (r_Comps r)
     \<and> r_SesID r' = lg_SesID login \<and> \<not> r_dirty r'"
proof -
  obtain e g where cs: "r_Comps r = [None, Some (CExample e), Some CEmpty, Some (CDebug g), None]"
    by (rule comps_ok_cases [OF comps(1)])
  obtain sb where sb: "j_marshal_role j d = Some sb" using data(3) by blast
  obtain s1 s2 s3 where s: "j_marshal_comp j (CExample e) = Some s1" "j_marshal_comp j CEmpty = Some s2" "j_marshal_comp j (CDebug g) = Some s3"
    using comps(2) unfolding cs by (metis list.set_intros(1,2) option.exhaust)
  have base: "j_unmarshal_role j sb RoleData_zero = Some d" using j sb by (simp add: json_ok_def)
  have back_comp: "s1 \<noteq> ''''" "s2 \<noteq> ''''" "s3 \<noteq> ''''"
    "j_unmarshal_comp j s1 (CExample example_New) = Some (exported (CExample e))"
    "j_unmarshal_comp j s2 CEmpty = Some (exported CEmpty)"
    "j_unmarshal_comp j s3 (CDebug debug_New) = Some (exported (CDebug g))"
    using j s unfolding json_ok_def by (metis fresh.simps)+
  let ?m = "Map.empty(''TCBase'' \<mapsto> sb, ''TCExample'' \<mapsto> s1, ''TCEmptyExample'' \<mapsto> s2, ''TCDebug'' \<mapsto> s3)"
  have m: "marshal j True r = Some \<lparr>ds_RoleID = r_ID r, ds_Data = ?m\<rparr>"
    by (simp add: marshal_def data sb cs s DataToSave_Set_def TCBase_def)
  have "load_comps j \<lparr>ds_RoleID = r_ID r, ds_Data = ?m\<rparr> 0 (Create (replicate TCMax None)) = Some (map (map_option exported) (r_Comps r))"
    using back_comp by (simp add: Create_eq cs DataToSave_Get_def)
  moreover have "j_unmarshal_role j (DataToSave_Get TCBase \<lparr>ds_RoleID = r_ID r, ds_Data = ?m\<rparr>) RoleData_zero = Some d"
    using base by (simp add: DataToSave_Get_def TCBase_def)
  ultimately show ?thesis using m data by (simp add: NewRole_def Let_def)
qed

definition demo_rd :: RoleData where
  "demo_rd = RoleData_zero\<lparr>rd_ID := 7, rd_Level := 1, rd_Name := ''7'', rd_CreateTime := 1700000000\<rparr>"

definition demo_ex :: example_data where
  "demo_ex = example_New\<lparr>ex_OnlineCnt := 1, ex_OfflineCnt := 1, ex_Info := [1], ex_cur := 1, ex_tmp := [1 \<mapsto> True]\<rparr>"

definition demo_json :: json where
  "demo_json = \<lparr>
     j_marshal_role = (\<lambda>d. if d = demo_rd then Some ''{7}'' else None),
     j_unmarshal_role = (\<lambda>s _. if s = ''{7}'' then Some demo_rd else None),
     j_marshal_comp = (\<lambda>c. if c = CExample demo_ex then Some ''{E}'' else if c = CEmpty then Some ''{}''
                           else if c = CDebug debug_New then Some ''{D}'' else None),
     j_unmarshal_comp = (\<lambda>s _. if s = ''{E}'' then Some (exported (CExample demo_ex)) else if s = ''{}'' then Some CEmpty
                           else if s = ''{D}'' then Some (CDebug debug_New) else None)\<rparr>"

lemma demo_json_ok: "json_ok demo_json"
  by (auto simp: json_ok_def demo_json_def debug_New_def split: if_splits)

definition demo_login :: "u64 \<Rightarrow> S2SReqLogin" where
  "demo_login ses = \<lparr>lg_SesID = ses, lg_RoleID = 7, lg_Seq = 1, lg_CliInfo = '''', lg_ConnectedAcc = []\<rparr>"

definition demo_role :: role where
  "demo_role = \<lparr>r_ID = 7, r_SesID = 500, r_Comps = [None, Some (CExample demo_ex), Some CEmpty, Some (CDebug debug_New), None],
     r_Data = Some demo_rd, r_CliInfo = '''', r_ConnectAcc = [], r_nowSec = 0, r_lastSaveRedis = 0, r_lastSaveDB = 0, r_lastMinute = 0,
     r_LastHeartbeat = 0, r_HeartbeatTimeOut = 0, r_dirty = False\<rparr>"

theorem role_roundtrip_witness:
  "\<exists>saved r'. marshal demo_json True demo_role = Some saved \<and> NewRole demo_json 0 saved (demo_login 900) = Some r'
     \<and> r_ID r' = 7 \<and> r_SesID r' = 900 \<and> r_Data r' = Some demo_rd"
proof -
  have "comps_ok (r_Comps demo_role)" by (simp add: comps_ok_def Create_eq demo_role_def)
  moreover have "\<forall>c. Some c \<in> set (r_Comps demo_role) \<longrightarrow> j_marshal_comp demo_json c \<noteq> None"
    by (auto simp: demo_role_def demo_json_def)
  ultimately show ?thesis
    using role_roundtrip [OF demo_json_ok, of demo_role demo_rd 0 "demo_login 900"]
    by (auto simp: demo_role_def demo_json_def demo_rd_def demo_login_def)
qed

section \<open>Resets\<close>

lemma role_save_frame:
  "r_Data (fst (role_save j env b (r, w))) = r_Data r"
  "r_HeartbeatTimeOut (fst (role_save j env b (r, w))) = r_HeartbeatTimeOut r"
  "r_LastHeartbeat (fst (role_save j env b (r, w))) = r_LastHeartbeat r"
  by (auto simp: role_save_def split: option.split prod.split bool.split)

lemma autosave_frame:
  "r_Data (fst (autosave j env a now (r, w))) = r_Data r"
  "r_HeartbeatTimeOut (fst (autosave j env a now (r, w))) = r_HeartbeatTimeOut r"
  "r_LastHeartbeat (fst (autosave j env a now (r, w))) = r_LastHeartbeat r"
  using role_save_frame [of j env _ r w]
  by (auto simp: autosave_def Let_def split_def)

lemma check_heartbeat_frame: "r_Data (fst (check_heartbeat env now rw)) = r_Data (fst rw)"
  by (auto simp: check_heartbeat_def Let_def split: prod.split)

lemma OnTick_Data:
  assumes "r_Data r = Some d"
  shows "r_Data (fst (OnTick j hooks env tz a now clk1 clk2 (r, w))) =
    Some (tick_times tz now clk1 clk2 (Unix now > rd_DayChange d) (Unix now > rd_ResetTime d)
      (Unix now > rd_ResetTime d \<and> Unix now \<ge> rd_DataResetMonth d) d)"
  using assms by (simp add: OnTick_def Let_def check_heartbeat_frame autosave_frame)

lemma next_reset_bounds:
  assumes "local_day tz clk = local_day tz now"
  shows "Unix now < next_reset tz now clk" "next_reset tz now clk \<le> Unix now + 86400" "(next_reset tz now clk + tz) mod 86400 = 8 * 3600"
proof -
  let ?D = "local_day tz now * 86400" and ?x = "Unix now + tz"
  have b: "?D \<le> ?x" "?x < ?D + 86400" using day_bounds(1) [of tz now] day_bounds(2) [of now tz] by (simp_all add: distrib_right)
  have m: "?x mod 86400 = ?x - ?D" unfolding local_day_def by (simp add: minus_div_mult_eq_mod)
  have h: "Hour tz now \<ge> 8 \<longleftrightarrow> 8 * 3600 \<le> ?x - ?D"
    unfolding Hour_def m using div_mult_mod_eq [of "?x - ?D" 3600] pos_mod_bound [of 3600 "?x - ?D"] pos_mod_sign [of 3600 "?x - ?D"]
    by linarith
  have nr: "next_reset tz now clk = (if Hour tz now \<ge> 8 then ?D - tz + 32 * 3600 else ?D - tz + 8 * 3600)"
  proof -
    have "(8 + 24) * Hour_dur = (32 * 3600) * Second" "8 * Hour_dur = (8 * 3600) * Second"
      by (simp_all add: Hour_dur_def Minute_def Second_def)
    then show ?thesis
      by (simp only: next_reset_def Let_def ResetHour_def Unix_Add_sec Unix_day_begin assms)
  qed
  show "Unix now < next_reset tz now clk" "next_reset tz now clk \<le> Unix now + 86400"
    using b h by (auto simp: nr)
  have "(?D + 32 * 3600) mod 86400 = 8 * 3600" "(?D + 8 * 3600) mod 86400 = 8 * 3600" by simp_all
  then show "(next_reset tz now clk + tz) mod 86400 = 8 * 3600" by (simp add: nr)
qed

lemma next_day_bounds:
  assumes "local_day tz clk = local_day tz now"
  shows "Unix now < next_day tz clk" "next_day tz clk \<le> Unix now + 86400" "(next_day tz clk + tz) mod 86400 = 0"
proof -
  have nd: "next_day tz clk = local_day tz now * 86400 - tz + 86400"
  proof -
    have "24 * Hour_dur = 86400 * Second" by (simp add: Hour_dur_def Minute_def Second_def)
    then show ?thesis by (simp only: next_day_def Unix_Add_sec Unix_day_begin assms)
  qed
  show "Unix now < next_day tz clk" "next_day tz clk \<le> Unix now + 86400"
    using day_bounds(1) [of tz now] day_bounds(2) [of now tz] by (simp_all add: nd distrib_right)
  show "(next_day tz clk + tz) mod 86400 = 0" by (simp add: nd)
qed

lemma next_month_bounds: "Unix now < next_month tz now" "(next_month tz now + tz) mod 86400 = 8 * 3600"
proof -
  let ?N = "next_month_start (Year (local_day tz now)) (Month (local_day tz now))"
  have "local_day tz now + 1 \<le> ?N" using month_bounds(2) [of "local_day tz now"] by simp
  then have "(local_day tz now + 1) * 86400 \<le> ?N * 86400" by simp
  then show "Unix now < next_month tz now" using day_bounds(2) [of now tz] by (simp add: next_month_def ResetHour_def Let_def)
  show "(next_month tz now + tz) mod 86400 = 8 * 3600" by (simp add: next_month_def ResetHour_def Let_def)
qed

text \<open>
  Every reset happens once per period.  When a tick is handled on the local day it was issued, and the
  role's reset time has passed, the next reset time becomes the first 08:00 local time after the tick, at
  most a day away; likewise the day change becomes the next midnight, and the monthly reset 08:00 on the first
  of the following month.  A time that has not passed is left alone, so the same tick cannot reset twice.
\<close>

theorem reset_schedule:
  assumes "r_Data r = Some d" "local_day tz clk1 = local_day tz now" "local_day tz clk2 = local_day tz now"
  shows "\<exists>d'. r_Data (fst (OnTick j hooks env tz a now clk1 clk2 (r, w))) = Some d'
     \<and> (if Unix now > rd_ResetTime d
        then Unix now < rd_ResetTime d' \<and> rd_ResetTime d' \<le> Unix now + 86400 \<and> (rd_ResetTime d' + tz) mod 86400 = 8 * 3600
        else rd_ResetTime d' = rd_ResetTime d)
     \<and> (if Unix now > rd_DayChange d
        then Unix now < rd_DayChange d' \<and> rd_DayChange d' \<le> Unix now + 86400 \<and> (rd_DayChange d' + tz) mod 86400 = 0
        else rd_DayChange d' = rd_DayChange d)
     \<and> (if Unix now > rd_ResetTime d \<and> Unix now \<ge> rd_DataResetMonth d
        then rd_DataResetMonth d' = next_month tz now \<and> Unix now < rd_DataResetMonth d' \<and> (rd_DataResetMonth d' + tz) mod 86400 = 8 * 3600
        else rd_DataResetMonth d' = rd_DataResetMonth d)"
  using next_reset_bounds [OF assms(2)] next_day_bounds [OF assms(3)] next_month_bounds(1) [of now tz] next_month_bounds(2) [of tz now]
  by (simp add: OnTick_Data [OF assms(1)] tick_times_def Let_def)

definition demo_env :: "bool role_env" where
  "demo_env = \<lparr>env_Logout = \<lambda>_ w. w, env_SaveRole = \<lambda>_ _ w. (w, True), env_Unregister = \<lambda>_ _ w. w, env_send = \<lambda>_ w. w,
     env_Cancel = \<lambda>_. True, env_CtxErr = \<lambda>w. w\<rparr>"

definition no_hooks :: comp_hooks where
  "no_hooks = \<lparr>OnNewDay = id, OnDataReset = id, OnNewMonth = id, OnMinute = id\<rparr>"

theorem reset_schedule_witness:
  "\<exists>d'. r_Data (fst (OnTick demo_json no_hooks demo_env 28800 300 (1700000000 * Second) (1700000000 * Second) (1700000000 * Second) (demo_role, False))) = Some d'
     \<and> 1700000000 < rd_ResetTime d' \<and> (rd_ResetTime d' + 28800) mod 86400 = 28800"
  using reset_schedule [of demo_role demo_rd 28800 "1700000000 * Second" "1700000000 * Second" "1700000000 * Second" demo_json no_hooks demo_env 300 False]
  by (auto simp: demo_role_def demo_rd_def RoleData_zero_def Unix_def Second_def)

text \<open>
  The proviso is needed: a tick issued in the last second of a day and handled in the first of the next
  computes the reset from the later day, and one daily reset is skipped.
\<close>

lemma late_tick_skips_a_reset:
  "next_reset 0 ((86400 * k - 1) * Second) (86400 * k * Second) = 86400 * k - 1 + 1 + 32 * 3600"
proof -
  have "Unix ((86400 * k - 1) * Second) = 86400 * k - 1" "Unix (86400 * k * Second) = 86400 * k"
    by (simp_all add: Unix_def Second_def)
  moreover have "(86400 * k - 1) mod 86400 = 86399"
  proof -
    have "86400 * k - 1 = 86399 + (k - 1) * 86400" by simp
    then show ?thesis by (simp only: mod_mult_self1) simp
  qed
  moreover have "(8 + 24) * Hour_dur = (32 * 3600) * Second" by (simp add: Hour_dur_def Minute_def Second_def)
  ultimately show ?thesis
    by (simp only: next_reset_def Let_def ResetHour_def Hour_def Unix_Add_sec Unix_day_begin local_day_def) simp
qed

section \<open>Heartbeats\<close>

text \<open>Handing data to the login service does not touch the role's context.\<close>

definition env_ctx_laws :: "'w role_env \<Rightarrow> bool" where
  "env_ctx_laws env \<longleftrightarrow> (\<forall>w. env_CtxErr env (env_Cancel env w)) \<and> (\<forall>d b w. env_CtxErr env (fst (env_SaveRole env d b w)) = env_CtxErr env w)"

lemma role_save_ctx: "env_ctx_laws env \<Longrightarrow> env_CtxErr env (snd (role_save j env b (r, w))) = env_CtxErr env w"
proof -
  assume laws: "env_ctx_laws env"
  have "env_CtxErr env w' = env_CtxErr env w" if "env_SaveRole env data b w = (w', ok)" for data w' ok
    using laws that unfolding env_ctx_laws_def by (metis fst_conv)
  then show ?thesis by (auto simp: role_save_def split: option.split prod.split bool.split)
qed

lemma autosave_ctx: "env_ctx_laws env \<Longrightarrow> env_CtxErr env (snd (autosave j env a now (r, w))) = env_CtxErr env w"
  using role_save_ctx [of env j _ r w] by (auto simp: autosave_def Let_def split_def)

definition late :: "time \<Rightarrow> time \<Rightarrow> bool" where
  "late t0 t \<longleftrightarrow> Sub t t0 > HeartbeatTime * Second"

lemma check_heartbeat_eq:
  fixes r :: role and w :: 'w and now :: time
  assumes "env_ctx_laws env"
  defines "rw' \<equiv> check_heartbeat env now (r, w)"
  shows "r_HeartbeatTimeOut (fst rw') = r_HeartbeatTimeOut r + (if late (r_LastHeartbeat r) now then 1 else 0)"
    and "r_LastHeartbeat (fst rw') = r_LastHeartbeat r"
    and "env_CtxErr env (snd rw') \<longleftrightarrow> env_CtxErr env w \<or> (late (r_LastHeartbeat r) now \<and> r_HeartbeatTimeOut r \<ge> 2)"
  using assms(1) by (auto simp: rw'_def check_heartbeat_def late_def Let_def env_ctx_laws_def)

lemma OnTick_heartbeat:
  fixes r :: role and w :: 'w and now clk1 clk2 :: time and tz a :: int and j :: json and hooks :: comp_hooks
  assumes laws: "env_ctx_laws env" and d: "r_Data r = Some d"
  defines "rw' \<equiv> OnTick j hooks env tz a now clk1 clk2 (r, w)"
  shows "r_HeartbeatTimeOut (fst rw') = r_HeartbeatTimeOut r + (if late (r_LastHeartbeat r) now then 1 else 0)"
    and "r_LastHeartbeat (fst rw') = r_LastHeartbeat r"
    and "env_CtxErr env (snd rw') \<longleftrightarrow> env_CtxErr env w \<or> (late (r_LastHeartbeat r) now \<and> r_HeartbeatTimeOut r \<ge> 2)"
proof -
  obtain r4 where rw: "rw' = check_heartbeat env now (autosave j env a now (r4, w))"
    and r4: "r_HeartbeatTimeOut r4 = r_HeartbeatTimeOut r" "r_LastHeartbeat r4 = r_LastHeartbeat r"
  proof -
    define r2 where "r2 = (if Sub now (r_lastMinute r) > Minute then MinuteLoop hooks ((r\<lparr>r_nowSec := Unix now\<rparr>)\<lparr>r_lastMinute := now\<rparr>) else r\<lparr>r_nowSec := Unix now\<rparr>)"
    have "r_HeartbeatTimeOut r2 = r_HeartbeatTimeOut r" "r_LastHeartbeat r2 = r_LastHeartbeat r" by (simp_all add: r2_def MinuteLoop_def)
    then show thesis
      by (intro that [of "r2\<lparr>r_Comps := map (map_option (tick_comp hooks (rd_DayChange d < Unix now) (rd_ResetTime d < Unix now)
            (rd_ResetTime d < Unix now \<and> rd_DataResetMonth d \<le> Unix now))) (r_Comps r2),
          r_Data := Some (tick_times tz now clk1 clk2 (rd_DayChange d < Unix now) (rd_ResetTime d < Unix now)
            (rd_ResetTime d < Unix now \<and> rd_DataResetMonth d \<le> Unix now) d)\<rparr>"])
        (simp_all add: rw'_def OnTick_def d Let_def r2_def [symmetric])
  qed
  obtain r5 w5 where a5: "autosave j env a now (r4, w) = (r5, w5)" by fastforce
  have r5: "r_HeartbeatTimeOut r5 = r_HeartbeatTimeOut r" "r_LastHeartbeat r5 = r_LastHeartbeat r" "env_CtxErr env w5 = env_CtxErr env w"
    using autosave_frame(2,3) [of j env a now r4 w] autosave_ctx [OF laws, of j a now r4 w] r4 a5 by simp_all
  note c = check_heartbeat_eq [OF laws, of now r5 w5]
  show "r_HeartbeatTimeOut (fst rw') = r_HeartbeatTimeOut r + (if late (r_LastHeartbeat r) now then 1 else 0)"
    "r_LastHeartbeat (fst rw') = r_LastHeartbeat r"
    "env_CtxErr env (snd rw') \<longleftrightarrow> env_CtxErr env w \<or> (late (r_LastHeartbeat r) now \<and> r_HeartbeatTimeOut r \<ge> 2)"
    using c unfolding rw a5 by (simp_all add: r5)
qed

text \<open>
  C18. A role whose client falls silent is cancelled, and only such a role.  After a heartbeat at \<open>t0\<close>, the
  context is cancelled by the ticks that follow if and only if at least three of them come more than thirty
  seconds after \<open>t0\<close>, whatever saving the ticks do.
\<close>

theorem silent_client_is_cancelled:
  assumes laws: "env_ctx_laws env" and "r_Data r \<noteq> None" "\<not> env_CtxErr env w"
  shows "env_CtxErr env (snd (fold (\<lambda>t. OnTick j hooks env tz a t (clk1 t) (clk2 t)) ts (onHeartBeat t0 r, w)))
     \<longleftrightarrow> 3 \<le> length (filter (late t0) ts)"
proof -
  define f where "f = (\<lambda>t. OnTick j hooks env tz a t (clk1 t) (clk2 t))"
  have gen: "env_CtxErr env (snd (fold f ts (r1, w1))) \<longleftrightarrow> env_CtxErr env w1 \<or> 3 \<le> n + length (filter (late t0) ts)"
    if "r_Data r1 \<noteq> None" "r_LastHeartbeat r1 = t0" "r_HeartbeatTimeOut r1 = int n" "3 \<le> n \<longrightarrow> env_CtxErr env w1" for r1 w1 n ts
    using that
  proof (induction ts arbitrary: r1 w1 n)
    case Nil
    then show ?case by auto
  next
    case (Cons t ts)
    obtain d where d: "r_Data r1 = Some d" using Cons.prems(1) by blast
    obtain r2 w2 where s: "f t (r1, w1) = (r2, w2)" by fastforce
    then have s': "OnTick j hooks env tz a t (clk1 t) (clk2 t) (r1, w1) = (r2, w2)" by (simp add: f_def)
    note h = OnTick_heartbeat [OF laws d, of j hooks tz a t "clk1 t" "clk2 t" w1, unfolded s']
    have d2: "r_Data r2 \<noteq> None" using OnTick_Data [OF d, of j hooks env tz a t "clk1 t" "clk2 t" w1] by (simp add: s')
    let ?n = "n + (if late t0 t then 1 else 0)"
    have "env_CtxErr env (snd (fold f ts (r2, w2))) \<longleftrightarrow> env_CtxErr env w2 \<or> 3 \<le> ?n + length (filter (late t0) ts)"
      using Cons.prems h d2 by (intro Cons.IH) auto
    moreover have "env_CtxErr env w2 \<longleftrightarrow> env_CtxErr env w1 \<or> (late t0 t \<and> 2 \<le> n)"
      using h(3) Cons.prems by simp
    ultimately show ?case using s by auto
  qed
  show ?thesis
    using gen [of "onHeartBeat t0 r" 0 w ts] assms(2,3) by (simp add: onHeartBeat_def f_def)
qed

theorem silent_client_is_cancelled_witness:
  "snd (fold (\<lambda>t. OnTick demo_json no_hooks demo_env 0 300 t t t) [30 * Second, 31 * Second, 34 * Second, 37 * Second] (onHeartBeat 0 demo_role, False))
   \<and> \<not> snd (fold (\<lambda>t. OnTick demo_json no_hooks demo_env 0 300 t t t) [30 * Second, 31 * Second, 34 * Second] (onHeartBeat 0 demo_role, False))"
proof -
  have laws: "env_ctx_laws demo_env" by (simp add: env_ctx_laws_def demo_env_def)
  note t = silent_client_is_cancelled [OF laws, of demo_role False demo_json no_hooks 0 300 "\<lambda>t. t" "\<lambda>t. t" _ 0]
  show ?thesis
    using t [of "[30 * Second, 31 * Second, 34 * Second, 37 * Second]"] t [of "[30 * Second, 31 * Second, 34 * Second]"]
    by (simp add: demo_env_def demo_role_def late_def Sub_def HeartbeatTime_def Second_def)
qed

section \<open>Two consequences of the data\<close>

text \<open>\<open>SetDefaultValue\<close> of \<^verbatim>\<open>src/pkg/cfg/default.go\<close>, for the field the role reads.\<close>

definition SetDefaultValue :: "int \<Rightarrow> int" where
  "SetDefaultValue autoSave = (if autoSave = 0 then 5 * Minute else autoSave)"

text \<open>
  The default is five minutes in nanoseconds, and the tick compares it with seconds: no difference of two
  times is that large, so with the default configuration a role is never saved while it is online.
\<close>

lemma default_never_saves: "autosave j env (SetDefaultValue 0) now rw = rw"
proof -
  have le: "Sub now t \<le> 9223372036854775807" for t by (simp add: Sub_def)
  have "SetDefaultValue 0 * Second = 300000000000000000000" by (simp add: SetDefaultValue_def Minute_def Second_def)
  then have "\<not> Sub now t > SetDefaultValue 0 * Second" for t using le [of t] by linarith
  then show ?thesis by (simp add: autosave_def split: prod.split)
qed

text \<open>
  The debug component marks itself dirty when it goes online.  If it is stored in that state and the process
  dies, the next session ends in a panic: the role never leaves the registry and never reports its logout.
\<close>

lemma offline_after_crash_panics:
  assumes "db_OnlineCnt d = db_OfflineCnt d + 1"
  shows "comp_Offline (comp_Online (CDebug d)) = None"
  using assms by (simp add: debug_Online_def debug_Offline_def Let_def)

section \<open>The interface of the login service\<close>

text \<open>
  What a role relies on when it saves (\<^verbatim>\<open>ILoginMgr\<close> of \<^verbatim>\<open>rep.go\<close>): an accepted request is queued in order, a
  refused one changes nothing.
\<close>

locale login_mgr =
  fixes save_role :: "DataToSave \<Rightarrow> bool \<Rightarrow> 'w \<Rightarrow> 'w \<times> bool" and accepted :: "'w \<Rightarrow> DataToSave list"
  assumes save_ok: "save_role d b w = (w', True) \<Longrightarrow> accepted w' = accepted w @ [d]"
    and save_refused: "save_role d b w = (w', False) \<Longrightarrow> w' = w"
begin

text \<open>A save either leaves everything as it was, dirty marks included, or hands over what was dirty and clears the marks.\<close>

lemma save_handed_over:
  assumes "env_SaveRole env = save_role" "role_save j env b (r, w) = (r', w')"
  shows "(r' = r \<and> w' = w) \<or>
    (\<exists>d. marshal j False r = Some d \<and> accepted w' = accepted w @ [d] \<and> \<not> r_dirty r' \<and> (\<forall>c. Some c \<in> set (r_Comps r') \<longrightarrow> \<not> IsDirty c))"
proof (cases "marshal j False r")
  case None
  then show ?thesis using assms(2) by (simp add: role_save_def)
next
  case (Some d)
  show ?thesis
  proof (cases "DataToSave_IsEmpty d")
    case True
    then show ?thesis using assms(2) Some by (simp add: role_save_def)
  next
    case False
    obtain w1 ok where s: "save_role d b w = (w1, ok)" by fastforce
    have clean: "\<not> IsDirty (if IsDirty c then ClearDirty c else c)" for c by (cases c) auto
    have all_clean: "\<not> IsDirty c" if "Some c \<in> set (map (map_option (\<lambda>c. if IsDirty c then ClearDirty c else c)) (r_Comps r))" for c
    proof -
      from that obtain x where "x \<in> set (r_Comps r)" "Some c = map_option (\<lambda>c. if IsDirty c then ClearDirty c else c) x" by auto
      then show ?thesis using clean by (cases x rule: option.exhaust) auto
    qed
    show ?thesis
    proof (cases ok)
      case True
      then have r': "r' = r\<lparr>r_dirty := False, r_Comps := map (map_option (\<lambda>c. if IsDirty c then ClearDirty c else c)) (r_Comps r)\<rparr>"
        and w': "w' = w1"
        using assms s Some False by (simp_all add: role_save_def)
      have "accepted w' = accepted w @ [d]" using save_ok [of d b w w1] s True w' by simp
      moreover have "r_Comps r' = map (map_option (\<lambda>c. if IsDirty c then ClearDirty c else c)) (r_Comps r)" "\<not> r_dirty r'"
        by (simp_all add: r')
      ultimately show ?thesis using Some all_clean by metis
    next
      case refused: False
      then show ?thesis using assms s Some False save_refused [of d b w w1] by (simp add: role_save_def)
    qed
  qed
qed

end

end
