(* ===== verification/Shards.thy ===== *)
theory Shards
  imports Base
begin

text \<open>
  Sharded maps: the role registry, the session table of the gateway and the online table of the
  center split one map over an array of shards, each with its own lock, and pick the shard of a
  key with a bit mask.  Here are the operations on an array of shards, and the interface that
  makes the array behave as one map.
\<close>

type_synonym ('k, 'v) shards = "('k \<rightharpoonup> 'v) list"

definition shards_new :: "nat \<Rightarrow> ('k, 'v) shards" where
  "shards_new n = replicate n (\<lambda>_. None)"

definition shards_get :: "('k \<Rightarrow> nat) \<Rightarrow> ('k, 'v) shards \<Rightarrow> 'k \<rightharpoonup> 'v" where
  "shards_get ix ss k = (ss ! ix k) k"

definition shards_put :: "('k \<Rightarrow> nat) \<Rightarrow> ('k, 'v) shards \<Rightarrow> 'k \<Rightarrow> 'v \<Rightarrow> ('k, 'v) shards" where
  "shards_put ix ss k v = ss[ix k := (ss ! ix k)(k \<mapsto> v)]"

definition shards_del :: "('k \<Rightarrow> nat) \<Rightarrow> ('k, 'v) shards \<Rightarrow> 'k \<Rightarrow> ('k, 'v) shards" where
  "shards_del ix ss k = ss[ix k := (ss ! ix k)(k := None)]"

text \<open>The sum of \<open>len\<close> over the shards, as every \<open>Count\<close> computes it.\<close>

definition shards_count :: "('k, 'v) shards \<Rightarrow> nat" where
  "shards_count ss = sum_list (map map_len ss)"

text \<open>A key is only ever stored in the shard the mask picks for it.\<close>

definition shards_ok :: "('k \<Rightarrow> nat) \<Rightarrow> nat \<Rightarrow> ('k, 'v) shards \<Rightarrow> bool" where
  "shards_ok ix n ss \<longleftrightarrow> length ss = n \<and> (\<forall>i < n. finite (dom (ss ! i)) \<and> (\<forall>k \<in> dom (ss ! i). ix k = i))"

locale sharding =
  fixes ix :: "'k \<Rightarrow> nat" and n :: nat
  assumes ix_bound: "ix k < n"
begin

lemma ok_new: "shards_ok ix n (shards_new n)"
  by (simp add: shards_ok_def shards_new_def)

lemma ok_put: "shards_ok ix n ss \<Longrightarrow> shards_ok ix n (shards_put ix ss k v)"
  by (auto simp: shards_ok_def shards_put_def nth_list_update_case split: if_splits)

lemma ok_del: "shards_ok ix n ss \<Longrightarrow> shards_ok ix n (shards_del ix ss k)"
  by (auto simp: shards_ok_def shards_del_def nth_list_update_case split: if_splits)

lemma get_new: "shards_get ix (shards_new n) = (\<lambda>_. None)"
  by (simp add: shards_get_def shards_new_def ix_bound fun_eq_iff)

lemma get_put: "shards_ok ix n ss \<Longrightarrow> shards_get ix (shards_put ix ss k v) = (shards_get ix ss)(k \<mapsto> v)"
  by (auto simp: shards_ok_def shards_get_def shards_put_def nth_list_update_case ix_bound fun_eq_iff)

lemma get_del: "shards_ok ix n ss \<Longrightarrow> shards_get ix (shards_del ix ss k) = (shards_get ix ss)(k := None)"
  by (auto simp: shards_ok_def shards_get_def shards_del_def nth_list_update_case ix_bound fun_eq_iff)

lemma dom_get: "shards_ok ix n ss \<Longrightarrow> dom (shards_get ix ss) = (\<Union>i<n. dom (ss ! i))"
proof -
  assume ok: "shards_ok ix n ss"
  show ?thesis
  proof (intro equalityI subsetI)
    fix k assume "k \<in> dom (shards_get ix ss)"
    then show "k \<in> (\<Union>i<n. dom (ss ! i))" using ix_bound [of k] unfolding shards_get_def by blast
  next
    fix k assume "k \<in> (\<Union>i<n. dom (ss ! i))"
    then obtain i where i: "i < n" "k \<in> dom (ss ! i)" by auto
    with ok have "ix k = i" by (auto simp: shards_ok_def)
    with i show "k \<in> dom (shards_get ix ss)" by (simp add: shards_get_def dom_def)
  qed
qed

lemma finite_dom_get: "shards_ok ix n ss \<Longrightarrow> finite (dom (shards_get ix ss))"
  by (simp add: dom_get) (simp add: shards_ok_def)

text \<open>Counting shard by shard counts every key once.\<close>

lemma count_get: "shards_ok ix n ss \<Longrightarrow> shards_count ss = map_len (shards_get ix ss)"
proof -
  assume ok: "shards_ok ix n ss"
  have "shards_count ss = (\<Sum>i<n. card (dom (ss ! i)))"
    using ok by (simp add: shards_count_def shards_ok_def map_len_def sum_list_sum_nth atLeast0LessThan)
  also have "\<dots> = card (\<Union>i<n. dom (ss ! i))"
    using ok by (intro card_UN_disjoint [symmetric]) (auto simp: shards_ok_def, metis domI)
  finally show ?thesis by (simp add: map_len_def dom_get ok)
qed

end

text \<open>The mask of a power-of-two shard count, and any other mask below the array length.\<close>

definition mask_ix :: "u64 \<Rightarrow> u64 \<Rightarrow> nat" where
  "mask_ix m k = unat (k AND m)"

lemma mask_ix_bound: "mask_ix m k \<le> unat m"
  by (simp add: mask_ix_def unat_and_le)

end
