(* ===== verification/Registry.thy ===== *)
theory Registry
  imports Shards Swap_Queue
begin

text \<open>
  The role registry of \<^verbatim>\<open>src/internal/game/role/registry.go\<close>: two sharded maps, from role ids to the
  parts of a role object the other goroutines may touch, and from session ids to role ids.  A role object
  is an address; its mailbox, its cancellable context and its wait group are kept in a store under that
  address, so that two entries that share a role object share its mailbox.  Every method takes each of its
  locks once, so a method is one step of state, with one exception: \<open>KickAndWait\<close> and \<open>CloseAndWait\<close> block
  on wait groups, and return here the role objects they block on.
\<close>

section \<open>State and operations\<close>

type_synonym addr = nat

record 'e role_box =
  events :: "'e swap_queue"
  cancelled :: bool
  wait :: nat

record registry =
  roleShards :: "(u64, addr) shards"
  sesShards :: "(u64, u64) shards"

record 'e rworld =
  rw_reg :: registry
  rw_box :: "addr \<Rightarrow> 'e role_box"

definition shardCount :: nat where
  "shardCount = 64"

definition getShard :: "u64 \<Rightarrow> nat" where
  "getShard k = mask_ix (of_nat shardCount - 1) k"

definition NewRegistry :: registry where
  "NewRegistry = \<lparr>roleShards = shards_new shardCount, sesShards = shards_new shardCount\<rparr>"

text \<open>\<open>meta.Kick\<close>: cancel the context, then wake the role's goroutine.\<close>

definition meta_Kick :: "addr \<Rightarrow> 'e rworld \<Rightarrow> 'e rworld" where
  "meta_Kick a w =
     w\<lparr>rw_box := (rw_box w)(a := (rw_box w a)\<lparr>cancelled := True, events := Wake (events (rw_box w a))\<rparr>)\<rparr>"

definition Register :: "u64 \<Rightarrow> u64 \<Rightarrow> addr \<Rightarrow> registry \<Rightarrow> registry" where
  "Register roleID sesID r m =
     (let m1 = m\<lparr>sesShards := shards_put getShard (sesShards m) sesID roleID\<rparr>
      in m1\<lparr>roleShards := shards_put getShard (roleShards m1) roleID r\<rparr>)"

definition Count :: "registry \<Rightarrow> nat" where
  "Count m = shards_count (roleShards m)"

definition reg_get :: "u64 \<Rightarrow> registry \<Rightarrow> addr option" where
  "reg_get roleID m = shards_get getShard (roleShards m) roleID"

definition getBySes :: "u64 \<Rightarrow> registry \<Rightarrow> addr option" where
  "getBySes sesID m =
     (case shards_get getShard (sesShards m) sesID of None \<Rightarrow> None | Some roleID \<Rightarrow> reg_get roleID m)"

definition Unregister :: "u64 \<Rightarrow> u64 \<Rightarrow> registry \<Rightarrow> registry" where
  "Unregister roleID sesID m =
     (if shards_get getShard (sesShards m) sesID = Some roleID
      then let m1 = m\<lparr>sesShards := shards_del getShard (sesShards m) sesID\<rparr>
           in m1\<lparr>roleShards := shards_del getShard (roleShards m1) roleID\<rparr>
      else m)"

definition push_event :: "addr \<Rightarrow> 'e \<Rightarrow> 'e rworld \<Rightarrow> 'e rworld \<times> queue_err option" where
  "push_event a e w =
     (case Push (events (rw_box w a)) e of (q, err) \<Rightarrow>
        (w\<lparr>rw_box := (rw_box w)(a := (rw_box w a)\<lparr>events := q\<rparr>)\<rparr>, err))"

text \<open>
  Ranging over a Go map visits its keys in an order the runtime picks: \<open>order\<close> lists the keys.  A failed
  push is logged and the loop goes on.
\<close>

definition onTick :: "'e \<Rightarrow> u64 list \<Rightarrow> nat \<Rightarrow> 'e rworld \<Rightarrow> 'e rworld" where
  "onTick evt order shardIdx w =
     (let metas = map (\<lambda>k. the ((roleShards (rw_reg w) ! shardIdx) k)) order
      in fold (\<lambda>a w. fst (push_event a evt w)) metas w)"

definition KickAndWait :: "u64 \<Rightarrow> 'e rworld \<Rightarrow> 'e rworld \<times> addr option" where
  "KickAndWait roleID w =
     (case reg_get roleID (rw_reg w) of None \<Rightarrow> (w, None) | Some a \<Rightarrow> (meta_Kick a w, Some a))"

definition Kick :: "u64 \<Rightarrow> 'e rworld \<Rightarrow> 'e rworld" where
  "Kick sesID w = (case getBySes sesID (rw_reg w) of None \<Rightarrow> w | Some a \<Rightarrow> meta_Kick a w)"

definition CloseAndWait :: "(nat \<Rightarrow> u64 list) \<Rightarrow> 'e rworld \<Rightarrow> 'e rworld \<times> addr list" where
  "CloseAndWait order w =
     (let metas = concat (map (\<lambda>i. map (\<lambda>k. the ((roleShards (rw_reg w) ! i) k)) (order i)) [0..<shardCount])
      in (fold meta_Kick metas w, metas))"

datatype dispatch_err = Role_not_exist | Role_event_full

definition Dispatch :: "u64 \<Rightarrow> 'e \<Rightarrow> 'e rworld \<Rightarrow> 'e rworld \<times> dispatch_err option" where
  "Dispatch roleID evt w =
     (case reg_get roleID (rw_reg w) of
        None \<Rightarrow> (w, Some Role_not_exist)
      | Some a \<Rightarrow> (case push_event a evt w of
                    (w', None) \<Rightarrow> (w', None)
                  | (w', Some _) \<Rightarrow> (w', Some Role_event_full)))"

definition DispatchBySesID :: "u64 \<Rightarrow> 'e \<Rightarrow> 'e rworld \<Rightarrow> 'e rworld \<times> dispatch_err option" where
  "DispatchBySesID sesID evt w =
     (case getBySes sesID (rw_reg w) of
        None \<Rightarrow> (w, Some Role_not_exist)
      | Some a \<Rightarrow> (case push_event a evt w of
                    (w', None) \<Rightarrow> (w', None)
                  | (w', Some _) \<Rightarrow> (w', Some Role_event_full)))"

text \<open>\<open>Run\<close>: the ticker walks over the shards, one shard per tick, and starts again.\<close>

definition next_tick :: "nat \<Rightarrow> nat" where
  "next_tick curTick = (if Suc curTick \<ge> shardCount then 0 else Suc curTick)"

fun tick_run :: "(nat \<Rightarrow> 'e) \<Rightarrow> (nat \<Rightarrow> u64 list) \<Rightarrow> nat \<Rightarrow> nat \<Rightarrow> 'e rworld \<Rightarrow> 'e rworld \<times> nat" where
  "tick_run evt order 0 curTick w = (w, curTick)"
| "tick_run evt order (Suc n) curTick w =
     tick_run evt order n (next_tick curTick) (onTick (evt curTick) (order curTick) curTick w)"

section \<open>The registry as two maps\<close>

lemma getShard_bound: "getShard k < shardCount"
  using mask_ix_bound [of "of_nat shardCount - 1" k] by (simp add: getShard_def shardCount_def)

interpretation sh: sharding getShard shardCount
  by unfold_locales (rule getShard_bound)

definition reg_ok :: "registry \<Rightarrow> bool" where
  "reg_ok m \<longleftrightarrow> shards_ok getShard shardCount (roleShards m) \<and> shards_ok getShard shardCount (sesShards m)"

definition roles_of :: "registry \<Rightarrow> u64 \<rightharpoonup> addr" where
  "roles_of m = shards_get getShard (roleShards m)"

definition ses_of :: "registry \<Rightarrow> u64 \<rightharpoonup> u64" where
  "ses_of m = shards_get getShard (sesShards m)"

lemma ok_NewRegistry: "reg_ok NewRegistry"
  by (simp add: reg_ok_def NewRegistry_def sh.ok_new)

lemma ok_Register: "reg_ok m \<Longrightarrow> reg_ok (Register roleID sesID r m)"
  by (simp add: reg_ok_def Register_def sh.ok_put)

lemma ok_Unregister: "reg_ok m \<Longrightarrow> reg_ok (Unregister roleID sesID m)"
  by (simp add: reg_ok_def Unregister_def sh.ok_del)

lemma roles_of_New [shard_simps]: "roles_of NewRegistry = Map.empty" "ses_of NewRegistry = Map.empty"
  by (simp_all add: roles_of_def ses_of_def NewRegistry_def sh.get_new)

lemma roles_of_Register [shard_simps]:
  "reg_ok m \<Longrightarrow> roles_of (Register roleID sesID r m) = (roles_of m)(roleID \<mapsto> r)"
  "reg_ok m \<Longrightarrow> ses_of (Register roleID sesID r m) = (ses_of m)(sesID \<mapsto> roleID)"
  by (simp_all add: reg_ok_def roles_of_def ses_of_def Register_def sh.get_put)

lemma roles_of_Unregister [shard_simps]:
  "reg_ok m \<Longrightarrow> roles_of (Unregister roleID sesID m) =
     (if ses_of m sesID = Some roleID then (roles_of m)(roleID := None) else roles_of m)"
  "reg_ok m \<Longrightarrow> ses_of (Unregister roleID sesID m) =
     (if ses_of m sesID = Some roleID then (ses_of m)(sesID := None) else ses_of m)"
  by (simp_all add: reg_ok_def roles_of_def ses_of_def Unregister_def sh.get_del)

lemma reg_get_roles_of [shard_simps]: "reg_get roleID m = roles_of m roleID"
  by (simp add: reg_get_def roles_of_def)

lemma getBySes_of [shard_simps]: "getBySes sesID m = Option.bind (ses_of m sesID) (roles_of m)"
  by (simp add: getBySes_def ses_of_def reg_get_roles_of split: option.split)

lemma Count_roles_of [shard_simps]: "reg_ok m \<Longrightarrow> Count m = map_len (roles_of m)"
  by (simp add: Count_def roles_of_def reg_ok_def sh.count_get)

section \<open>Histories of logins and logouts\<close>

text \<open>
  A history registers and unregisters roles.  In the histories of the game server a role registers with a
  fresh session while it is not registered, and unregisters with the session it registered with;
  \<open>live\<close> holds the (role, session, object) triples that are registered.
\<close>

datatype reg_op = RRegister u64 u64 addr | RUnregister u64 u64

fun reg_step :: "reg_op \<Rightarrow> registry \<Rightarrow> registry" where
  "reg_step (RRegister r s a) m = Register r s a m"
| "reg_step (RUnregister r s) m = Unregister r s m"

fun live_step :: "reg_op \<Rightarrow> (u64 \<times> u64 \<times> addr) list \<Rightarrow> (u64 \<times> u64 \<times> addr) list" where
  "live_step (RRegister r s a) live = (r, s, a) # live"
| "live_step (RUnregister r s) live = filter (\<lambda>(r', s', _). (r', s') \<noteq> (r, s)) live"

fun op_fresh :: "reg_op \<Rightarrow> (u64 \<times> u64 \<times> addr) list \<Rightarrow> bool" where
  "op_fresh (RRegister r s a) live \<longleftrightarrow> r \<notin> fst ` set live \<and> s \<notin> fst ` snd ` set live"
| "op_fresh (RUnregister r s) live \<longleftrightarrow> True"

fun history_ok :: "reg_op list \<Rightarrow> (u64 \<times> u64 \<times> addr) list \<Rightarrow> bool" where
  "history_ok [] live \<longleftrightarrow> True"
| "history_ok (p # ps) live \<longleftrightarrow> op_fresh p live \<and> history_ok ps (live_step p live)"

definition reg_agrees :: "registry \<Rightarrow> (u64 \<times> u64 \<times> addr) list \<Rightarrow> bool" where
  "reg_agrees m live \<longleftrightarrow> reg_ok m \<and> distinct (map fst live) \<and> distinct (map (fst \<circ> snd) live)
     \<and> (\<forall>r a. roles_of m r = Some a \<longleftrightarrow> (\<exists>s. (r, s, a) \<in> set live))
     \<and> (\<forall>s r. ses_of m s = Some r \<longleftrightarrow> (\<exists>a. (r, s, a) \<in> set live))"

lemma live_step_unregister_mem:
  "(r, s, a) \<in> set (live_step (RUnregister r0 s0) live) \<longleftrightarrow> (r, s, a) \<in> set live \<and> (r, s) \<noteq> (r0, s0)"
  by auto

lemma reg_agrees_unique:
  assumes "reg_agrees m live" "(r, s, a) \<in> set live" "(r', s', a') \<in> set live" "r = r' \<or> s = s'"
  shows "(r, s, a) = (r', s', a')"
proof -
  have d: "inj_on fst (set live)" "inj_on (fst \<circ> snd) (set live)"
    using assms(1) by (simp_all add: reg_agrees_def distinct_map)
  from assms(4) show ?thesis
  proof
    assume "r = r'" then show ?thesis using inj_onD [OF d(1) _ assms(2,3)] by simp
  next
    assume "s = s'" then show ?thesis using inj_onD [OF d(2) _ assms(2,3)] by simp
  qed
qed

lemma reg_agrees_register:
  assumes "reg_agrees m live" "op_fresh (RRegister r s a) live"
  shows "reg_agrees (Register r s a m) ((r, s, a) # live)"
  using assms by (auto simp: reg_agrees_def ok_Register shard_simps image_iff)

lemma reg_agrees_unregister:
  assumes ag: "reg_agrees m live"
  shows "reg_agrees (Unregister r s m) (live_step (RUnregister r s) live)"
proof -
  have ok: "reg_ok m" and d: "distinct (map fst live)" "distinct (map (fst \<circ> snd) live)"
    and ro: "\<And>r a. roles_of m r = Some a \<longleftrightarrow> (\<exists>s. (r, s, a) \<in> set live)"
    and se: "\<And>s r. ses_of m s = Some r \<longleftrightarrow> (\<exists>a. (r, s, a) \<in> set live)"
    using ag by (auto simp: reg_agrees_def)
  note un = reg_agrees_unique [OF ag]
  have df: "distinct (map f xs) \<Longrightarrow> distinct (map f (filter P xs))" for f :: "_ \<Rightarrow> u64" and P and xs :: "(u64 \<times> u64 \<times> addr) list"
    by (induction xs) auto
  show ?thesis
    unfolding reg_agrees_def live_step_unregister_mem
  proof (intro conjI allI)
    show "reg_ok (Unregister r s m)" by (rule ok_Unregister [OF ok])
    show "distinct (map fst (live_step (RUnregister r s) live))"
      "distinct (map (fst \<circ> snd) (live_step (RUnregister r s) live))" using d by (simp_all add: df)
    show "roles_of (Unregister r s m) r' = Some a \<longleftrightarrow> (\<exists>s'. (r', s', a) \<in> set live \<and> (r', s') \<noteq> (r, s))" for r' a
    proof (cases "ses_of m s = Some r")
      case True
      then obtain b where b: "(r, s, b) \<in> set live" using se by blast
      show ?thesis using True ro [of r' a] un [OF b] by (auto simp: roles_of_Unregister ok)
    next
      case False
      then show ?thesis using ro [of r' a] se [of s r] by (auto simp: roles_of_Unregister ok)
    qed
    show "ses_of (Unregister r s m) s' = Some r' \<longleftrightarrow> (\<exists>a. (r', s', a) \<in> set live \<and> (r', s') \<noteq> (r, s))" for s' r'
    proof (cases "ses_of m s = Some r")
      case True
      then obtain b where b: "(r, s, b) \<in> set live" using se by blast
      show ?thesis using True se [of s' r'] un [OF b] by (auto simp: roles_of_Unregister ok)
    next
      case False
      then show ?thesis using se [of s' r'] se [of s r] by (auto simp: roles_of_Unregister ok)
    qed
  qed
qed

lemma reg_agrees_run:
  "reg_agrees m live \<Longrightarrow> history_ok ps live \<Longrightarrow> reg_agrees (fold reg_step ps m) (fold live_step ps live)"
proof (induction ps arbitrary: m live)
  case Nil
  then show ?case by simp
next
  case (Cons p ps)
  have "reg_agrees (reg_step p m) (live_step p live)"
  proof (cases p)
    case (RRegister r s a)
    then show ?thesis using reg_agrees_register [OF Cons.prems(1)] Cons.prems(2) by simp
  next
    case (RUnregister r s)
    then show ?thesis using reg_agrees_unregister [OF Cons.prems(1), of r s] by simp
  qed
  then show ?case using Cons.IH Cons.prems(2) by simp
qed

lemma reg_agrees_new: "reg_agrees NewRegistry []"
  by (simp add: reg_agrees_def ok_NewRegistry shard_simps)

lemma reg_agrees_card: "reg_agrees m live \<Longrightarrow> Count m = length live"
proof -
  assume ag: "reg_agrees m live"
  then have "dom (roles_of m) = fst ` set live" by (force simp: reg_agrees_def dom_def image_iff)
  moreover have "card (fst ` set live) = length live"
    using ag distinct_card [of "map fst live"] by (simp add: reg_agrees_def)
  ultimately show ?thesis using ag by (simp add: reg_agrees_def Count_roles_of map_len_def)
qed

text \<open>
  C11. The two sharded maps of the registry behave as one table of live (role, session, object) triples.
  After any history in which a role registers only while neither it nor its session is registered, looking
  up a role or a session gives exactly the object registered for it, and \<open>Count\<close> counts the live roles,
  across all shards.
\<close>

theorem registry_tracks_live_roles:
  assumes "history_ok ps []"
  defines "m \<equiv> fold reg_step ps NewRegistry" and "live \<equiv> fold live_step ps []"
  shows "(reg_get r m = Some a \<longleftrightarrow> (\<exists>s. (r, s, a) \<in> set live))
     \<and> (getBySes s m = Some a \<longleftrightarrow> (\<exists>r. (r, s, a) \<in> set live))
     \<and> Count m = length live"
proof -
  have ag: "reg_agrees m live"
    unfolding m_def live_def by (rule reg_agrees_run [OF reg_agrees_new assms(1)])
  then have ro: "\<And>r a. roles_of m r = Some a \<longleftrightarrow> (\<exists>s. (r, s, a) \<in> set live)"
    and se: "\<And>s r. ses_of m s = Some r \<longleftrightarrow> (\<exists>a. (r, s, a) \<in> set live)"
    by (auto simp: reg_agrees_def)
  have "getBySes s m = Some a \<longleftrightarrow> (\<exists>r. (r, s, a) \<in> set live)"
  proof
    assume "getBySes s m = Some a"
    then obtain r where r: "ses_of m s = Some r" "roles_of m r = Some a"
      by (auto simp: getBySes_of bind_eq_Some_conv)
    then obtain b s' where "(r, s, b) \<in> set live" "(r, s', a) \<in> set live" using ro se by blast
    then show "\<exists>r. (r, s, a) \<in> set live" using reg_agrees_unique [OF ag] by blast
  next
    assume "\<exists>r. (r, s, a) \<in> set live"
    then obtain r where "(r, s, a) \<in> set live" by blast
    then have "ses_of m s = Some r" "roles_of m r = Some a" using ro se by blast+
    then show "getBySes s m = Some a" by (simp add: getBySes_of)
  qed
  then show ?thesis using ro reg_agrees_card [OF ag] by (simp add: reg_get_roles_of)
qed

theorem registry_tracks_live_roles_witness:
  "getBySes 900 (fold reg_step [RRegister 7 500 1, RRegister 71 501 2, RUnregister 7 500, RRegister 7 900 3] NewRegistry) = Some 3
   \<and> Count (fold reg_step [RRegister 7 500 1, RRegister 71 501 2, RUnregister 7 500, RRegister 7 900 3] NewRegistry) = 2"
  using registry_tracks_live_roles [of "[RRegister 7 500 1, RRegister 71 501 2, RUnregister 7 500, RRegister 7 900 3]" 7 3 900]
  by simp

section \<open>Dispatching, kicking and ticking\<close>

lemma push_event_box:
  "rw_reg (fst (push_event a e w)) = rw_reg w"
  "b \<noteq> a \<Longrightarrow> rw_box (fst (push_event a e w)) b = rw_box w b"
  "events (rw_box (fst (push_event a e w)) a) = fst (Push (events (rw_box w a)) e)"
  "snd (push_event a e w) = snd (Push (events (rw_box w a)) e)"
  by (simp_all add: push_event_def split_def)

lemma push_events_box:
  assumes "distinct as"
  shows "rw_reg (fold (\<lambda>a w. fst (push_event a e w)) as w) = rw_reg w
     \<and> (b \<notin> set as \<longrightarrow> rw_box (fold (\<lambda>a w. fst (push_event a e w)) as w) b = rw_box w b)
     \<and> (b \<in> set as \<longrightarrow> events (rw_box (fold (\<lambda>a w. fst (push_event a e w)) as w) b) = fst (Push (events (rw_box w b)) e))"
  using assms
proof (induction as arbitrary: w)
  case Nil
  then show ?case by simp
next
  case (Cons a as)
  then show ?case
    using Cons.IH [of "fst (push_event a e w)"] push_event_box(1) [of a e w] push_event_box(2) [of b a e w] push_event_box(3) [of a e w]
    by (cases "b = a") auto
qed

definition orders_ok :: "registry \<Rightarrow> (nat \<Rightarrow> u64 list) \<Rightarrow> bool" where
  "orders_ok m order \<longleftrightarrow> (\<forall>i < shardCount. distinct (order i) \<and> set (order i) = dom (roleShards m ! i))"

definition own_box :: "registry \<Rightarrow> bool" where
  "own_box m \<longleftrightarrow> inj_on (roles_of m) (dom (roles_of m))"

lemma own_boxD: "own_box m \<Longrightarrow> roles_of m r = Some a \<Longrightarrow> roles_of m r' = Some a \<Longrightarrow> r = r'"
  unfolding own_box_def by (metis domI inj_onD)

lemma shard_key:
  assumes "reg_ok m" "i < shardCount" "k \<in> dom (roleShards m ! i)"
  shows "getShard k = i" and "(roleShards m ! i) k = roles_of m k"
proof -
  show "getShard k = i" using assms by (auto simp: reg_ok_def shards_ok_def)
  then show "(roleShards m ! i) k = roles_of m k" by (simp add: roles_of_def shards_get_def)
qed

lemma shard_addrs:
  assumes ok: "reg_ok m" and own: "own_box m" and ord: "orders_ok m order" and i: "i < shardCount"
  defines "as \<equiv> map (\<lambda>k. the ((roleShards m ! i) k)) (order i)"
  shows "distinct as" and "roles_of m r = Some a \<Longrightarrow> a \<in> set as \<longleftrightarrow> getShard r = i"
proof -
  have o: "distinct (order i)" "set (order i) = dom (roleShards m ! i)" using ord i by (simp_all add: orders_ok_def)
  have val: "(roleShards m ! i) k = roles_of m k \<and> roles_of m k \<noteq> None" if "k \<in> set (order i)" for k
    using shard_key(2) [OF ok i, of k] that o(2) by (metis domIff)
  have "inj_on (\<lambda>k. the ((roleShards m ! i) k)) (set (order i))"
  proof (rule inj_onI)
    fix k k' assume kk: "k \<in> set (order i)" "k' \<in> set (order i)"
      and eq: "the ((roleShards m ! i) k) = the ((roleShards m ! i) k')"
    have "roles_of m k = Some (the (roles_of m k))" "roles_of m k' = Some (the (roles_of m k))"
      using val [OF kk(1)] val [OF kk(2)] eq by auto
    then show "k = k'" by (rule own_boxD [OF own])
  qed
  then show "distinct as" using o(1) by (simp add: as_def distinct_map)
  assume r: "roles_of m r = Some a"
  show "a \<in> set as \<longleftrightarrow> getShard r = i"
  proof
    assume "a \<in> set as"
    then obtain k where k: "k \<in> set (order i)" "a = the ((roleShards m ! i) k)" by (auto simp: as_def)
    then have "roles_of m k = Some a" using val [OF k(1)] by auto
    then have "k = r" using own_boxD [OF own _ r] by blast
    then show "getShard r = i" using shard_key(1) [OF ok i, of k] k(1) o(2) by simp
  next
    assume g: "getShard r = i"
    then have "(roleShards m ! i) r = Some a" using r by (simp add: roles_of_def shards_get_def)
    then show "a \<in> set as" using o(2) by (force simp: as_def)
  qed
qed

lemma onTick_box:
  assumes "reg_ok (rw_reg w)" "own_box (rw_reg w)" "orders_ok (rw_reg w) order" "i < shardCount"
    and "roles_of (rw_reg w) r = Some a"
  shows "rw_reg (onTick evt (order i) i w) = rw_reg w"
    and "events (rw_box (onTick evt (order i) i w) a) =
      (if getShard r = i then fst (Push (events (rw_box w a)) evt) else events (rw_box w a))"
  using push_events_box [OF shard_addrs(1) [OF assms(1-4)], of evt w a] shard_addrs(2) [OF assms(1-4), OF assms(5)]
  by (simp_all add: onTick_def)

lemma tick_run_box:
  assumes "reg_ok (rw_reg w)" "own_box (rw_reg w)" "orders_ok (rw_reg w) order" "c + n \<le> shardCount"
    and "roles_of (rw_reg w) r = Some a"
  shows "rw_reg (fst (tick_run evt order n c w)) = rw_reg w
     \<and> events (rw_box (fst (tick_run evt order n c w)) a) =
        (if c \<le> getShard r \<and> getShard r < c + n then fst (Push (events (rw_box w a)) (evt (getShard r)))
         else events (rw_box w a))
     \<and> (0 < n \<longrightarrow> snd (tick_run evt order n c w) = (if c + n = shardCount then 0 else c + n))"
  using assms
proof (induction n arbitrary: c w)
  case 0
  then show ?case by auto
next
  case (Suc n)
  let ?w = "onTick (evt c) (order c) c w"
  have c: "c < shardCount" using Suc.prems(4) by simp
  note tk = onTick_box [OF Suc.prems(1-3) c Suc.prems(5), of "evt c"]
  show ?case
  proof (cases n)
    case 0
    then show ?thesis using tk Suc.prems(4) by (auto simp: next_tick_def)
  next
    case (Suc n')
    then have nx: "next_tick c = Suc c" using Suc.prems(4) by (simp add: next_tick_def)
    have "Suc c + n \<le> shardCount" using Suc.prems(4) by simp
    from Suc.IH [of ?w, OF _ _ _ this] show ?thesis
      using tk Suc.prems nx Suc by (auto simp: tk(1))
  qed
qed

text \<open>
  One cycle of the ticker visits every shard once: it offers every registered role exactly one tick
  event, the one of the role's own shard, leaves the registry alone and starts the next cycle at shard 0,
  whatever order the shards' maps are visited in.
\<close>

theorem tick_cycle:
  assumes "reg_ok (rw_reg w)" "own_box (rw_reg w)" "orders_ok (rw_reg w) order"
    and "reg_get r (rw_reg w) = Some a"
  shows "events (rw_box (fst (tick_run evt order shardCount 0 w)) a)
           = fst (Push (events (rw_box w a)) (evt (getShard r)))
     \<and> rw_reg (fst (tick_run evt order shardCount 0 w)) = rw_reg w
     \<and> snd (tick_run evt order shardCount 0 w) = 0"
  using tick_run_box [OF assms(1-3), of 0 shardCount r a evt] assms(4) getShard_bound [of r]
  by (simp add: reg_get_roles_of shardCount_def)

definition demo_box :: "nat role_box" where
  "demo_box = \<lparr>events = NewSwapQueue Suc 16 1600, cancelled = False, wait = 1\<rparr>"

definition demo_rworld :: "nat rworld" where
  "demo_rworld = \<lparr>rw_reg = Register 71 501 2 (Register 7 500 1 NewRegistry), rw_box = \<lambda>_. demo_box\<rparr>"

definition demo_order :: "nat \<Rightarrow> u64 list" where
  "demo_order i = (if i = 7 then [71, 7] else [])"

lemma demo_shard: "getShard 7 = 7" "getShard 71 = 7"
  by (simp_all add: getShard_def mask_ix_def shardCount_def)

lemma demo_roles:
  "roleShards (rw_reg demo_rworld) =
     (replicate shardCount Map.empty)[7 := Map.empty(7 \<mapsto> 1, 71 \<mapsto> 2)]"
  by (simp add: demo_rworld_def Register_def NewRegistry_def shards_put_def shards_new_def demo_shard shardCount_def)

lemma demo_orders: "orders_ok (rw_reg demo_rworld) demo_order"
  unfolding orders_ok_def demo_roles by (auto simp: demo_order_def nth_list_update_case split: if_splits)

theorem tick_cycle_witness:
  "sq_write (events (rw_box (fst (tick_run (\<lambda>i. 1000 + i) demo_order shardCount 0 demo_rworld)) 2)) = [1007]"
proof -
  have ok: "reg_ok (rw_reg demo_rworld)" by (simp add: demo_rworld_def ok_Register ok_NewRegistry)
  have ro: "roles_of (rw_reg demo_rworld) = Map.empty(7 \<mapsto> 1, 71 \<mapsto> 2)"
    by (simp add: demo_rworld_def shard_simps ok_Register ok_NewRegistry)
  then have own: "own_box (rw_reg demo_rworld)" by (auto simp: own_box_def inj_on_def)
  have "reg_get 71 (rw_reg demo_rworld) = Some 2" by (simp add: reg_get_roles_of ro)
  from tick_cycle [OF ok own demo_orders this, of "\<lambda>i. 1000 + i"] show ?thesis
    by (simp add: demo_shard demo_rworld_def demo_box_def NewSwapQueue_def Push_def pushData_def append_write_def Wake_def)
qed

section \<open>Shutdown\<close>

lemma meta_Kick_box:
  "rw_box (meta_Kick b w) a =
     (if a = b then (rw_box w a)\<lparr>cancelled := True, events := Wake (events (rw_box w a))\<rparr> else rw_box w a)"
  by (simp add: meta_Kick_def)

lemma Kick_all:
  "rw_reg (fold meta_Kick as w) = rw_reg w"
  "a \<notin> set as \<Longrightarrow> rw_box (fold meta_Kick as w) a = rw_box w a"
  "a \<in> set as \<Longrightarrow> cancelled (rw_box (fold meta_Kick as w) a) \<and> sq_sig (events (rw_box (fold meta_Kick as w) a))
     \<and> sq_write (events (rw_box (fold meta_Kick as w) a)) = sq_write (events (rw_box w a))"
proof (induction as arbitrary: w)
  case (Cons b as)
  { case 1 then show ?case by (simp add: Cons.IH(1)) (simp add: meta_Kick_def) }
  { case 2 then show ?case by (simp add: Cons.IH(2)) (simp add: meta_Kick_def) }
  { case 3
    then show ?case
      using Cons.IH(2,3) [of "meta_Kick b w"] meta_Kick_box [of b w a] by (cases "a \<in> set as") (auto simp: Wake_fields) }
qed simp_all

lemma CloseAndWait_addrs:
  assumes ok: "reg_ok (rw_reg w)" and ord: "orders_ok (rw_reg w) order"
  shows "set (snd (CloseAndWait order w)) = ran (roles_of (rw_reg w))"
proof -
  let ?m = "rw_reg w"
  have o: "set (order i) = dom (roleShards ?m ! i)" if "i < shardCount" for i
    using ord that by (simp add: orders_ok_def)
  have "set (snd (CloseAndWait order w)) =
      (\<Union>i\<in>{..<shardCount}. (\<lambda>k. the ((roleShards ?m ! i) k)) ` dom (roleShards ?m ! i))"
    by (simp add: CloseAndWait_def Let_def o atLeast0LessThan)
  also have "\<dots> = ran (roles_of ?m)"
  proof (intro equalityI subsetI)
    fix a assume "a \<in> (\<Union>i\<in>{..<shardCount}. (\<lambda>k. the ((roleShards ?m ! i) k)) ` dom (roleShards ?m ! i))"
    then obtain i k where ik: "i < shardCount" "k \<in> dom (roleShards ?m ! i)" "a = the ((roleShards ?m ! i) k)" by auto
    then have "roles_of ?m k = Some a" using shard_key(2) [OF ok ik(1,2)] by (metis domIff option.exhaust_sel)
    then show "a \<in> ran (roles_of ?m)" by (rule ranI)
  next
    fix a assume "a \<in> ran (roles_of ?m)"
    then obtain k where "roles_of ?m k = Some a" by (auto simp: ran_def)
    then have "(roleShards ?m ! getShard k) k = Some a" by (simp add: roles_of_def shards_get_def)
    then show "a \<in> (\<Union>i\<in>{..<shardCount}. (\<lambda>k. the ((roleShards ?m ! i) k)) ` dom (roleShards ?m ! i))"
      using getShard_bound [of k] by force
  qed
  finally show ?thesis .
qed

text \<open>
  Shutting the registry down reaches every role: \<open>CloseAndWait\<close> waits for exactly the registered role
  objects, and by then it has cancelled and woken each of them without touching the events they still have
  to handle; objects that are not registered are left alone.
\<close>

theorem close_reaches_every_role:
  assumes "reg_ok (rw_reg w)" "orders_ok (rw_reg w) order"
  shows "set (snd (CloseAndWait order w)) = {a. \<exists>r. reg_get r (rw_reg w) = Some a}
     \<and> (\<forall>a. if \<exists>r. reg_get r (rw_reg w) = Some a
            then cancelled (rw_box (fst (CloseAndWait order w)) a) \<and> sq_sig (events (rw_box (fst (CloseAndWait order w)) a))
              \<and> sq_write (events (rw_box (fst (CloseAndWait order w)) a)) = sq_write (events (rw_box w a))
            else rw_box (fst (CloseAndWait order w)) a = rw_box w a)"
proof -
  have s: "set (snd (CloseAndWait order w)) = {a. \<exists>r. reg_get r (rw_reg w) = Some a}"
    using CloseAndWait_addrs [OF assms] by (simp add: ran_def reg_get_roles_of)
  have f: "fst (CloseAndWait order w) = fold meta_Kick (snd (CloseAndWait order w)) w"
    by (simp add: CloseAndWait_def Let_def)
  show ?thesis
    unfolding f using s Kick_all(2,3) [of _ "snd (CloseAndWait order w)" w] by auto
qed

theorem close_reaches_every_role_witness:
  "set (snd (CloseAndWait demo_order demo_rworld)) = {1, 2} \<and> cancelled (rw_box (fst (CloseAndWait demo_order demo_rworld)) 2)"
proof -
  have ok: "reg_ok (rw_reg demo_rworld)" by (simp add: demo_rworld_def ok_Register ok_NewRegistry)
  have ro: "roles_of (rw_reg demo_rworld) = Map.empty(7 \<mapsto> 1, 71 \<mapsto> 2)"
    by (simp add: demo_rworld_def shard_simps ok_Register ok_NewRegistry)
  have "{a. \<exists>r. reg_get r (rw_reg demo_rworld) = Some a} = {1, 2}"
    by (auto simp: reg_get_roles_of ro split: if_splits intro: exI [of _ 7] exI [of _ 71])
  moreover have "\<exists>r. reg_get r (rw_reg demo_rworld) = Some 2"
    by (rule exI [of _ 71]) (simp add: reg_get_roles_of ro)
  ultimately show ?thesis
    using close_reaches_every_role [OF ok demo_orders] by (metis (mono_tags, lifting))
qed

end
