(* ===== verification/Saver.thy ===== *)
theory Saver
  imports Swap_Queue Model_Keys
begin

text \<open>
  The saver of the logon service, \<^verbatim>\<open>src/internal/game/logon_service/save.go\<close>: save requests arrive through a
  swap queue, are merged per role into a batch, and the batch is written to Redis and, for the requests
  that ask for it, to MongoDB.  Redis and MongoDB are parameters: \<open>exec\<close> runs a pipeline and \<open>bulk\<close> a bulk
  write on a store \<open>'x\<close>, and both say whether there was an error.  What the code relies on is in
  \<open>redis_laws\<close> and \<open>mongo_laws\<close>.  Times and durations are nanoseconds.
\<close>

section \<open>Data and operations\<close>

record opSaveData =
  ID :: u64
  Data :: "string \<rightharpoonup> string"
  Both :: bool

text \<open>\<open>Values\<close> ranges over the map: \<open>order\<close> is the order it visits the fields in.\<close>

definition Values :: "string list \<Rightarrow> opSaveData \<Rightarrow> (string \<times> string) list" where
  "Values order d = map (\<lambda>k. (k, the (Data d k))) order"

datatype redis_cmd = HSet string "(string \<times> string) list" | Expire string int

text \<open>An upsert of one document: the filter's \<open>id\<close> and the fields of \<open>$set\<close>.\<close>

type_synonym update_one = "u64 \<times> (string \<times> string) list"

record 'x saver =
  q :: "opSaveData swap_queue"
  closeCh :: bool
  batch :: "u64 \<rightharpoonup> opSaveData"
  backoff :: int
  nextFlush :: int
  store :: 'x
  posted :: "u64 list list"

definition opChanSize :: nat where
  "opChanSize = 40960"

definition newSaver :: "(nat \<Rightarrow> nat) \<Rightarrow> 'x \<Rightarrow> 'x saver" where
  "newSaver grow x = \<lparr>q = NewSwapQueue grow 4096 opChanSize, closeCh = False, batch = Map.empty,
     backoff = 0, nextFlush = 0, store = x, posted = []\<rparr>"

text \<open>Closing a closed channel panics.\<close>

definition saver_close :: "'x saver \<Rightarrow> 'x saver option" where
  "saver_close s = (if closeCh s then None else Some (s\<lparr>q := Close (q s), closeCh := True\<rparr>))"

definition post :: "opSaveData \<Rightarrow> 'x saver \<Rightarrow> 'x saver" where
  "post op s = s\<lparr>q := fst (Push (q s) op)\<rparr>"

text \<open>
  \<open>postMustSave\<close> retries while the queue is full.  Between two attempts the saver's own goroutine runs:
  \<open>env i\<close> is what happens to the queue during the \<open>i\<close>-th sleep.  \<^term>\<open>None\<close> means that \<open>fuel\<close> attempts were
  not enough; the boolean says whether the request was queued.
\<close>

fun postMustSave ::
    "nat \<Rightarrow> (nat \<Rightarrow> opSaveData swap_queue \<Rightarrow> opSaveData swap_queue) \<Rightarrow> opSaveData
      \<Rightarrow> opSaveData swap_queue \<Rightarrow> (opSaveData swap_queue \<times> bool) option" where
  "postMustSave 0 env op sq = None"
| "postMustSave (Suc fuel) env op sq =
     (case Push sq op of
        (sq', None) \<Rightarrow> Some (sq', True)
      | (sq', Some ErrQueueClosed) \<Rightarrow> Some (sq', False)
      | (sq', Some ErrQueueFull) \<Rightarrow> postMustSave fuel (\<lambda>i. env (Suc i)) op (env 0 sq'))"

text \<open>\<open>merge\<close>: the fields of the new request overwrite those of the old one, and \<open>Both\<close> sticks.\<close>

definition merge :: "(u64 \<rightharpoonup> opSaveData) \<Rightarrow> opSaveData \<Rightarrow> (u64 \<rightharpoonup> opSaveData)" where
  "merge b d =
     (case b (ID d) of
        Some old \<Rightarrow>
          let old1 = (if Both d then old\<lparr>Both := True\<rparr> else old)
          in b(ID d \<mapsto> old1\<lparr>Data := Data old1 ++ Data d\<rparr>)
      | None \<Rightarrow> b(ID d \<mapsto> d))"

text \<open>The update of each request that has fields, with every field below \<open>data\<close>.\<close>

definition db_models :: "(u64 \<Rightarrow> string list) \<Rightarrow> opSaveData list \<Rightarrow> update_one list" where
  "db_models vord toDB =
     map (\<lambda>d. (ID d, map (\<lambda>(k, v). (''data.'' @ k, v)) (Values (vord (ID d)) d)))
         (filter (\<lambda>d. Values (vord (ID d)) d \<noteq> []) toDB)"

text \<open>
  \<open>saveToDB\<close>.  A request without fields makes no update; when there is no update at all nothing is written
  and no success is reported, otherwise the success of every request is.
\<close>

definition saveToDB ::
    "('x \<Rightarrow> update_one list \<Rightarrow> 'x \<times> bool) \<Rightarrow> (u64 \<Rightarrow> string list) \<Rightarrow> opSaveData list
      \<Rightarrow> 'x \<times> u64 list list \<Rightarrow> ('x \<times> u64 list list) \<times> bool" where
  "saveToDB bulk vord toDB xp =
     (case xp of (x, p) \<Rightarrow>
       let models = db_models vord toDB
       in if models = [] then ((x, p), True)
          else (case bulk x models of
                  (x', False) \<Rightarrow> ((x', p), False)
                | (x', True) \<Rightarrow> ((x', p @ [map ID toDB]), True)))"

definition week :: int where
  "week = 1000000000 * 60 * 60 * 24 * 7"

definition chunk_cmds :: "(u64 \<Rightarrow> string list) \<Rightarrow> opSaveData list \<Rightarrow> redis_cmd list" where
  "chunk_cmds vord chunk =
     concat (map (\<lambda>v. [HSet (KeyRole (ID v)) (Values (vord (ID v)) v), Expire (KeyRole (ID v)) week]) chunk)"

definition saveChunk ::
    "('x \<Rightarrow> redis_cmd list \<Rightarrow> 'x \<times> bool) \<Rightarrow> ('x \<Rightarrow> update_one list \<Rightarrow> 'x \<times> bool) \<Rightarrow> (u64 \<Rightarrow> string list)
      \<Rightarrow> opSaveData list \<Rightarrow> 'x \<times> u64 list list \<Rightarrow> ('x \<times> u64 list list) \<times> bool" where
  "saveChunk exec bulk vord chunk xp =
     (case xp of (x, p) \<Rightarrow>
       (case exec x (chunk_cmds vord chunk) of
          (x', False) \<Rightarrow> ((x', p), False)
        | (x', True) \<Rightarrow> saveToDB bulk vord (filter Both chunk) (x', p)))"

definition chunkSize :: nat where
  "chunkSize = 1000"

text \<open>The loop over the chunks, by the index of the first request of the chunk.\<close>

function save_loop ::
    "('x \<Rightarrow> redis_cmd list \<Rightarrow> 'x \<times> bool) \<Rightarrow> ('x \<Rightarrow> update_one list \<Rightarrow> 'x \<times> bool) \<Rightarrow> (u64 \<Rightarrow> string list)
      \<Rightarrow> opSaveData list \<Rightarrow> nat \<Rightarrow> 'x \<times> u64 list list \<Rightarrow> ('x \<times> u64 list list) \<times> bool" where
  "save_loop exec bulk vord allData i xp =
     (if i < length allData
      then let hi = min (i + chunkSize) (length allData);
               chunk = take (hi - i) (drop i allData)
           in (case saveChunk exec bulk vord chunk xp of
                 (xp', False) \<Rightarrow> (xp', False)
               | (xp', True) \<Rightarrow> save_loop exec bulk vord allData (i + chunkSize) xp')
      else (xp, True))"
  by pat_completeness auto
termination
  by (relation "measure (\<lambda>(_, _, _, allData, i, _). length allData - i)") (auto simp: chunkSize_def)

declare save_loop.simps [simp del]

definition saveBatch ::
    "('x \<Rightarrow> redis_cmd list \<Rightarrow> 'x \<times> bool) \<Rightarrow> ('x \<Rightarrow> update_one list \<Rightarrow> 'x \<times> bool)
      \<Rightarrow> u64 list \<Rightarrow> (u64 \<Rightarrow> string list) \<Rightarrow> (u64 \<rightharpoonup> opSaveData)
      \<Rightarrow> 'x \<times> u64 list list \<Rightarrow> ('x \<times> u64 list list) \<times> bool" where
  "saveBatch exec bulk order vord b xp = save_loop exec bulk vord (map (\<lambda>k. the (b k)) order) 0 xp"

text \<open>
  What one attempt to flush sees of the world: the two readings of the clock, the order in which the batch
  and the fields of each request are visited.
\<close>

record attempt =
  now1 :: int
  now2 :: int
  order :: "u64 list"
  vorder :: "u64 \<Rightarrow> string list"

definition second :: int where
  "second = 1000000000"

definition millisecond :: int where
  "millisecond = 1000000"

definition next_backoff :: "int \<Rightarrow> int" where
  "next_backoff b = min (b * 2 + 100 * millisecond) (5 * second)"

definition flush ::
    "('x \<Rightarrow> redis_cmd list \<Rightarrow> 'x \<times> bool) \<Rightarrow> ('x \<Rightarrow> update_one list \<Rightarrow> 'x \<times> bool) \<Rightarrow> attempt \<Rightarrow> 'x saver \<Rightarrow> 'x saver" where
  "flush exec bulk a s =
     (if batch s = Map.empty \<or> now1 a < nextFlush s then s
      else (case saveBatch exec bulk (order a) (vorder a) (batch s) (store s, posted s) of
              ((x, p), True) \<Rightarrow> s\<lparr>store := x, posted := p, batch := Map.empty, backoff := 0\<rparr>
            | ((x, p), False) \<Rightarrow>
                let bo = next_backoff (backoff s)
                in s\<lparr>store := x, posted := p, backoff := bo, nextFlush := now2 a + bo\<rparr>))"

definition merge_queue :: "'x saver \<Rightarrow> 'x saver" where
  "merge_queue s =
     (case Range (\<lambda>d (sq, b). (sq, merge b d)) (q s, batch s) of (sq, b) \<Rightarrow> s\<lparr>q := sq, batch := b\<rparr>)"

definition batchSize :: nat where
  "batchSize = 500"

text \<open>The three cases of the loop's \<open>select\<close>: a signal, a tick, and the close channel.\<close>

definition run_sig ::
    "('x \<Rightarrow> redis_cmd list \<Rightarrow> 'x \<times> bool) \<Rightarrow> ('x \<Rightarrow> update_one list \<Rightarrow> 'x \<times> bool) \<Rightarrow> attempt \<Rightarrow> 'x saver \<Rightarrow> 'x saver option" where
  "run_sig exec bulk a s =
     (case recv_Sig (q s) of
        None \<Rightarrow> None
      | Some sq \<Rightarrow>
          let s1 = merge_queue (s\<lparr>q := sq\<rparr>)
          in Some (if map_len (batch s1) \<ge> batchSize then flush exec bulk a s1 else s1))"

definition run_tick ::
    "('x \<Rightarrow> redis_cmd list \<Rightarrow> 'x \<times> bool) \<Rightarrow> ('x \<Rightarrow> update_one list \<Rightarrow> 'x \<times> bool) \<Rightarrow> attempt \<Rightarrow> 'x saver \<Rightarrow> 'x saver" where
  "run_tick exec bulk a s = flush exec bulk a s"

fun close_loop ::
    "('x \<Rightarrow> redis_cmd list \<Rightarrow> 'x \<times> bool) \<Rightarrow> ('x \<Rightarrow> update_one list \<Rightarrow> 'x \<times> bool) \<Rightarrow> nat \<Rightarrow> (nat \<Rightarrow> attempt) \<Rightarrow> 'x saver \<Rightarrow> 'x saver option" where
  "close_loop exec bulk 0 att s = (if batch s = Map.empty then Some s else None)"
| "close_loop exec bulk (Suc fuel) att s =
     (if batch s = Map.empty then Some s
      else close_loop exec bulk fuel (\<lambda>i. att (Suc i)) (flush exec bulk (att 0) s))"

definition run_close ::
    "('x \<Rightarrow> redis_cmd list \<Rightarrow> 'x \<times> bool) \<Rightarrow> ('x \<Rightarrow> update_one list \<Rightarrow> 'x \<times> bool) \<Rightarrow> nat \<Rightarrow> (nat \<Rightarrow> attempt) \<Rightarrow> 'x saver \<Rightarrow> 'x saver option" where
  "run_close exec bulk fuel att s = (if closeCh s then close_loop exec bulk fuel att (merge_queue s) else None)"

section \<open>What the stores promise\<close>

text \<open>
  \<open>hashes x k\<close> is the content of the Redis hash at key \<open>k\<close>, empty when there is no such key; the keys outlive
  the week that \<open>Expire\<close> gives them.  A pipeline without an error has run all its commands; one with an
  error may have run any part of them.  A bulk write is to another database.
\<close>

fun hash_step :: "redis_cmd \<Rightarrow> (string \<Rightarrow> string \<rightharpoonup> string) \<Rightarrow> (string \<Rightarrow> string \<rightharpoonup> string)" where
  "hash_step (HSet k kvs) h = h(k := h k ++ map_of (rev kvs))"
| "hash_step (Expire k t) h = h"

definition redis_laws ::
    "('x \<Rightarrow> redis_cmd list \<Rightarrow> 'x \<times> bool) \<Rightarrow> ('x \<Rightarrow> update_one list \<Rightarrow> 'x \<times> bool) \<Rightarrow> ('x \<Rightarrow> string \<Rightarrow> string \<rightharpoonup> string) \<Rightarrow> bool" where
  "redis_laws exec bulk hashes \<longleftrightarrow>
     (\<forall>x cmds x'. exec x cmds = (x', True) \<longrightarrow> hashes x' = fold hash_step cmds (hashes x))
   \<and> (\<forall>x cmds x'. exec x cmds = (x', False) \<longrightarrow>
        (\<exists>part \<in> set (subseqs cmds). hashes x' = fold hash_step part (hashes x)))
   \<and> (\<forall>x ms. hashes (fst (bulk x ms)) = hashes x)"

text \<open>
  \<open>docs x i\<close> holds the fields of the document whose \<open>id\<close> is \<open>i\<close>.  An unordered bulk write with an error may
  have applied any of its updates; a pipeline does not touch the documents.
\<close>

fun doc_step :: "update_one \<Rightarrow> (u64 \<Rightarrow> string \<rightharpoonup> string) \<Rightarrow> (u64 \<Rightarrow> string \<rightharpoonup> string)" where
  "doc_step (i, kvs) m = m(i := m i ++ map_of (rev kvs))"

definition mongo_laws ::
    "('x \<Rightarrow> redis_cmd list \<Rightarrow> 'x \<times> bool) \<Rightarrow> ('x \<Rightarrow> update_one list \<Rightarrow> 'x \<times> bool) \<Rightarrow> ('x \<Rightarrow> u64 \<Rightarrow> string \<rightharpoonup> string) \<Rightarrow> bool" where
  "mongo_laws exec bulk docs \<longleftrightarrow>
     (\<forall>x ms x'. bulk x ms = (x', True) \<longrightarrow> docs x' = fold doc_step ms (docs x))
   \<and> (\<forall>x ms x'. bulk x ms = (x', False) \<longrightarrow>
        (\<exists>part \<in> set (subseqs ms). docs x' = fold doc_step part (docs x)))
   \<and> (\<forall>x cmds. docs (fst (exec x cmds)) = docs x)"

text \<open>\<open>HSET\<close> without a field is a command with too few arguments: the server rejects it.\<close>

definition hset_arity :: "('x \<Rightarrow> redis_cmd list \<Rightarrow> 'x \<times> bool) \<Rightarrow> bool" where
  "hset_arity exec \<longleftrightarrow> (\<forall>x cmds k. HSet k [] \<in> set cmds \<longrightarrow> \<not> snd (exec x cmds))"

text \<open>An outage ends: \<open>left x\<close> bounds the number of calls with well-formed commands that still fail.\<close>

definition recovers ::
    "('x \<Rightarrow> redis_cmd list \<Rightarrow> 'x \<times> bool) \<Rightarrow> ('x \<Rightarrow> update_one list \<Rightarrow> 'x \<times> bool) \<Rightarrow> ('x \<Rightarrow> nat) \<Rightarrow> bool" where
  "recovers exec bulk left \<longleftrightarrow>
     (\<forall>x cmds. (\<forall>k. HSet k [] \<notin> set cmds) \<longrightarrow>
        left (fst (exec x cmds)) \<le> left x \<and> (\<not> snd (exec x cmds) \<longrightarrow> left (fst (exec x cmds)) < left x))
   \<and> (\<forall>x ms. left (fst (bulk x ms)) \<le> left x \<and> (\<not> snd (bulk x ms) \<longrightarrow> left (fst (bulk x ms)) < left x))"

section \<open>Merging\<close>

definition bdata :: "(u64 \<rightharpoonup> opSaveData) \<Rightarrow> u64 \<Rightarrow> string \<rightharpoonup> string" where
  "bdata b i = (case b i of None \<Rightarrow> Map.empty | Some d \<Rightarrow> Data d)"

definition batch_ok :: "(u64 \<rightharpoonup> opSaveData) \<Rightarrow> bool" where
  "batch_ok b \<longleftrightarrow> (\<forall>i d. b i = Some d \<longrightarrow> ID d = i)"

primrec deltas :: "opSaveData list \<Rightarrow> u64 \<Rightarrow> string \<rightharpoonup> string" where
  "deltas [] i = Map.empty"
| "deltas (d # ops) i = (if ID d = i then Data d else Map.empty) ++ deltas ops i"

lemma deltas_append: "deltas (xs @ ys) i = deltas xs i ++ deltas ys i"
  by (induction xs) simp_all

lemma bdata_merge: "bdata (merge b d) i = bdata b i ++ (if ID d = i then Data d else Map.empty)"
  by (cases "b (ID d)") (auto simp: merge_def bdata_def Let_def)

lemma batch_ok_merge: "batch_ok b \<Longrightarrow> batch_ok (merge b d)"
  by (cases "b (ID d)") (auto simp: batch_ok_def merge_def Let_def split: if_splits)

lemma fold_merge:
  "bdata (fold (\<lambda>d b. merge b d) ops b) i = bdata b i ++ deltas ops i"
  "batch_ok b \<Longrightarrow> batch_ok (fold (\<lambda>d b. merge b d) ops b)"
  by (induction ops arbitrary: b) (simp_all add: bdata_merge batch_ok_merge)

text \<open>The saver's callback leaves its queue alone, so ranging over the queue is a fold over what it held.\<close>

lemma fold_callback: "fold (\<lambda>d (sq, b). (sq, merge b d)) ops (sq, b) = (sq, fold (\<lambda>d b. merge b d) ops b)"
  by (induction ops arbitrary: b) simp_all

lemma merge_queue_batch: "batch (merge_queue s) = fold (\<lambda>d b. merge b d) (sq_write (q s)) (batch s)"
  by (simp add: merge_queue_def Range_def fold_callback)

lemma merge_queue_frame:
  "sq_write (q (merge_queue s)) = []" "store (merge_queue s) = store s" "posted (merge_queue s) = posted s"
  "nextFlush (merge_queue s) = nextFlush s" "backoff (merge_queue s) = backoff s" "closeCh (merge_queue s) = closeCh s"
  by (simp_all add: merge_queue_def Range_def fold_callback Range_finish_def Range_swap_def Let_def)

section \<open>Writing a batch\<close>

definition attempt_ok :: "attempt \<Rightarrow> (u64 \<rightharpoonup> opSaveData) \<Rightarrow> bool" where
  "attempt_ok a b \<longleftrightarrow> is_order (order a) b \<and> (\<forall>i d. b i = Some d \<longrightarrow> is_order (vorder a i) (Data d))"

lemma map_of_rev_order: "is_order ks m \<Longrightarrow> map_of (rev (map (\<lambda>k. (k, the (m k))) ks)) = m"
  using map_of_order [of "rev ks" m] by (simp add: is_order_def rev_map)

lemma Values_order: "is_order vo (Data d) \<Longrightarrow> map_of (rev (Values vo d)) = Data d"
  by (simp add: Values_def map_of_rev_order)

text \<open>Commands that write the same fields under one key can be repeated or partly dropped.\<close>

definition cmds_write :: "redis_cmd list \<Rightarrow> (string \<Rightarrow> string \<rightharpoonup> string) \<Rightarrow> bool" where
  "cmds_write cmds D \<longleftrightarrow> (\<forall>k kvs. HSet k kvs \<in> set cmds \<longrightarrow> map_of (rev kvs) = D k)"

lemma map_add_idem [simp]: "m ++ D ++ D = m ++ D"
  by (auto simp: map_add_def split: option.split)

lemma fold_hash_step:
  "cmds_write cmds D \<Longrightarrow>
   fold hash_step cmds h k = (if \<exists>kvs. HSet k kvs \<in> set cmds then h k ++ D k else h k)"
proof (induction cmds arbitrary: h)
  case Nil
  then show ?case by simp
next
  case (Cons c cmds)
  have ih: "fold hash_step cmds h' k = (if \<exists>kvs. HSet k kvs \<in> set cmds then h' k ++ D k else h' k)" for h'
    using Cons by (simp add: cmds_write_def)
  show ?case
  proof (cases c)
    case (HSet k' kvs)
    then have "map_of (rev kvs) = D k'" using Cons.prems by (simp add: cmds_write_def)
    then show ?thesis using HSet by (auto simp: ih)
  next
    case (Expire k' t)
    then show ?thesis by (simp add: ih)
  qed
qed

text \<open>\<open>progress\<close>: every role's hash is as it was or has the role's part of the batch on top.\<close>

definition progress :: "(u64 \<rightharpoonup> opSaveData) \<Rightarrow> (string \<Rightarrow> string \<rightharpoonup> string) \<Rightarrow> (string \<Rightarrow> string \<rightharpoonup> string) \<Rightarrow> bool" where
  "progress b h h' \<longleftrightarrow> (\<forall>i. h' (KeyRole i) = h (KeyRole i) \<or> h' (KeyRole i) = h (KeyRole i) ++ bdata b i)"

definition written :: "(u64 \<rightharpoonup> opSaveData) \<Rightarrow> u64 \<Rightarrow> (string \<Rightarrow> string \<rightharpoonup> string) \<Rightarrow> bool" where
  "written b i h \<longleftrightarrow> h (KeyRole i) ++ bdata b i = h (KeyRole i)"

lemma progress_refl [simp]: "progress b h h"
  by (simp add: progress_def)

lemma progress_trans: "progress b h h1 \<Longrightarrow> progress b h1 h2 \<Longrightarrow> progress b h h2"
  unfolding progress_def by (metis map_add_idem)

lemma progress_written: "progress b h h' \<Longrightarrow> written b i h \<Longrightarrow> written b i h'"
  unfolding progress_def written_def by metis

lemma progress_eff: "progress b h h' \<Longrightarrow> h' (KeyRole i) ++ bdata b i = h (KeyRole i) ++ bdata b i"
  unfolding progress_def by (metis map_add_idem)

definition entries :: "(u64 \<Rightarrow> string list) \<Rightarrow> (u64 \<rightharpoonup> opSaveData) \<Rightarrow> opSaveData list \<Rightarrow> bool" where
  "entries vord b ds \<longleftrightarrow> (\<forall>d \<in> set ds. b (ID d) = Some d \<and> is_order (vord (ID d)) (Data d))"

lemma chunk_cmds_HSet:
  "HSet k kvs \<in> set (chunk_cmds vord ds) \<longleftrightarrow> (\<exists>d \<in> set ds. k = KeyRole (ID d) \<and> kvs = Values (vord (ID d)) d)"
  by (auto simp: chunk_cmds_def)

lemma chunk_cmds_write:
  assumes "entries vord b ds"
  shows "cmds_write (chunk_cmds vord ds) (\<lambda>k. bdata b (inv KeyRole k))"
proof -
  have "inj KeyRole" by (simp add: inj_on_def)
  then show ?thesis
    using assms by (auto simp: cmds_write_def chunk_cmds_HSet entries_def Values_order bdata_def)
qed

lemma chunk_progress:
  assumes en: "entries vord b ds" and part: "set part \<subseteq> set (chunk_cmds vord ds)"
  shows "progress b h (fold hash_step part h)"
    and "part = chunk_cmds vord ds \<Longrightarrow> d \<in> set ds \<Longrightarrow> written b (ID d) (fold hash_step part h)"
proof -
  have inv: "inv KeyRole (KeyRole i) = i" for i by (simp add: inv_f_f inj_on_def)
  have cw: "cmds_write part (\<lambda>k. bdata b (inv KeyRole k))"
    using chunk_cmds_write [OF en] part by (auto simp: cmds_write_def)
  note f = fold_hash_step [OF cw, of h]
  show "progress b h (fold hash_step part h)" by (simp add: progress_def f inv)
  assume p: "part = chunk_cmds vord ds" and d: "d \<in> set ds"
  have "\<exists>kvs. HSet (KeyRole (ID d)) kvs \<in> set part" using d by (auto simp: p chunk_cmds_HSet)
  then show "written b (ID d) (fold hash_step part h)" by (simp add: written_def f inv)
qed

lemma subseqs_subset: "part \<in> set (subseqs xs) \<Longrightarrow> set part \<subseteq> set xs"
  by (metis imageI PowD subseqs_powset)

lemma redis_ok: "redis_laws exec bulk hashes \<Longrightarrow> exec x cmds = (x', True) \<Longrightarrow> hashes x' = fold hash_step cmds (hashes x)"
  by (simp add: redis_laws_def)

lemma redis_part:
  assumes "redis_laws exec bulk hashes" "exec x cmds = (x', False)"
  obtains part where "set part \<subseteq> set cmds" "hashes x' = fold hash_step part (hashes x)"
proof -
  have "\<exists>part \<in> set (subseqs cmds). hashes x' = fold hash_step part (hashes x)"
    using assms by (simp add: redis_laws_def)
  then show ?thesis using that subseqs_subset by metis
qed

text \<open>The three outcomes of \<open>saveToDB\<close>.\<close>

lemma saveToDB_cases:
  obtains (none) "db_models vord ds = []" "saveToDB bulk vord ds (x, p) = ((x, p), True)"
  | (failed) x' where "bulk x (db_models vord ds) = (x', False)" "saveToDB bulk vord ds (x, p) = ((x', p), False)"
  | (ok) x' where "bulk x (db_models vord ds) = (x', True)" "saveToDB bulk vord ds (x, p) = ((x', p @ [map ID ds]), True)"
proof (cases "db_models vord ds = []")
  case True
  then show thesis by (intro none) (simp_all add: saveToDB_def)
next
  case False
  obtain x' r where "bulk x (db_models vord ds) = (x', r)" by fastforce
  then show thesis
    using False by (cases r) (simp_all add: failed ok saveToDB_def)
qed

lemma saveToDB_hashes:
  assumes "redis_laws exec bulk hashes"
  shows "hashes (fst (fst (saveToDB bulk vord ds (x, p)))) = hashes x"
proof -
  have "hashes (fst (bulk x ms)) = hashes x" for ms using assms by (simp add: redis_laws_def)
  then show ?thesis
    by (cases rule: saveToDB_cases [of vord ds bulk x p]) (metis fst_conv)+
qed

lemma saveChunk_progress:
  assumes laws: "redis_laws exec bulk hashes" and en: "entries vord b ds"
    and r: "saveChunk exec bulk vord ds (x, p) = ((x', p'), ok)"
  shows "progress b (hashes x) (hashes x')" and "ok \<Longrightarrow> d \<in> set ds \<Longrightarrow> written b (ID d) (hashes x')"
proof -
  obtain x1 ok1 where e: "exec x (chunk_cmds vord ds) = (x1, ok1)" by fastforce
  have A: "progress b (hashes x) (hashes x') \<and> (ok \<longrightarrow> (\<forall>d \<in> set ds. written b (ID d) (hashes x')))"
  proof (cases ok1)
    case False
    then have "exec x (chunk_cmds vord ds) = (x1, False)" using e by simp
    then obtain part where part: "set part \<subseteq> set (chunk_cmds vord ds)" "hashes x1 = fold hash_step part (hashes x)"
      by (rule redis_part [OF laws])
    have "x' = x1" "\<not> ok" using r e False by (simp_all add: saveChunk_def)
    then show ?thesis using chunk_progress(1) [OF en part(1)] part(2) by simp
  next
    case True
    have h1: "hashes x1 = fold hash_step (chunk_cmds vord ds) (hashes x)"
      using redis_ok [OF laws, of x _ x1] e True by simp
    have "saveToDB bulk vord (filter Both ds) (x1, p) = ((x', p'), ok)" using r e True by (simp add: saveChunk_def)
    then have "hashes x' = hashes x1" using saveToDB_hashes [OF laws, of vord "filter Both ds" x1 p] by simp
    then show ?thesis
      using chunk_progress(1) [OF en order.refl, of "hashes x"] chunk_progress(2) [OF en order.refl refl, of _ "hashes x"]
      by (simp add: h1)
  qed
  show "progress b (hashes x) (hashes x')" using A by blast
  show "ok \<Longrightarrow> d \<in> set ds \<Longrightarrow> written b (ID d) (hashes x')" using A by blast
qed

lemma entries_part: "entries vord b ds \<Longrightarrow> entries vord b (take n (drop i ds))"
  by (auto simp: entries_def dest: in_set_takeD in_set_dropD)

lemma save_loop_progress:
  assumes laws: "redis_laws exec bulk hashes" and en: "entries vord b ds"
    and r: "save_loop exec bulk vord ds i (x, p) = ((x', p'), ok)"
  shows "progress b (hashes x) (hashes x') \<and> (ok \<longrightarrow> (\<forall>d \<in> set (drop i ds). written b (ID d) (hashes x')))"
  using r
proof (induction "length ds - i" arbitrary: i x p rule: less_induct)
  case less
  show ?case
  proof (cases "i < length ds")
    case False
    then show ?thesis using less.prems by (simp add: save_loop.simps)
  next
    case True
    define chunk where "chunk = take (min (i + chunkSize) (length ds) - i) (drop i ds)"
    have chunk': "chunk = take chunkSize (drop i ds)" by (auto simp: chunk_def min_def)
    obtain x1 p1 ok1 where c: "saveChunk exec bulk vord chunk (x, p) = ((x1, p1), ok1)"
      by (cases "saveChunk exec bulk vord chunk (x, p)") auto
    have en': "entries vord b chunk" unfolding chunk_def by (rule entries_part [OF en])
    note cp = saveChunk_progress [OF laws en' c]
    show ?thesis
    proof (cases ok1)
      case False
      then have "x' = x1" "\<not> ok" using less.prems True c by (simp_all add: save_loop.simps chunk_def Let_def)
      then show ?thesis using cp(1) by simp
    next
      case ok1: True
      have rest: "save_loop exec bulk vord ds (i + chunkSize) (x1, p1) = ((x', p'), ok)"
        using less.prems True c ok1 by (subst (asm) save_loop.simps) (simp add: chunk_def [symmetric])
      have "length ds - (i + chunkSize) < length ds - i" using True by (simp add: chunkSize_def)
      from less.hyps [OF this rest] have
        ih: "progress b (hashes x1) (hashes x')" "ok \<longrightarrow> (\<forall>d \<in> set (drop (i + chunkSize) ds). written b (ID d) (hashes x'))"
        by blast+
      have "drop i ds = chunk @ drop (i + chunkSize) ds" unfolding chunk' by (simp add: add.commute flip: drop_drop)
      moreover have "ok \<longrightarrow> (\<forall>d \<in> set chunk. written b (ID d) (hashes x'))"
        using cp(2) ok1 progress_written [OF ih(1)] by blast
      ultimately show ?thesis using ih progress_trans [OF cp(1) ih(1)] by auto
    qed
  qed
qed

lemma attempt_entries:
  assumes "batch_ok b" "attempt_ok a b"
  shows "entries (vorder a) b (map (\<lambda>k. the (b k)) (order a))"
  unfolding entries_def
proof
  fix d assume "d \<in> set (map (\<lambda>k. the (b k)) (order a))"
  then obtain k where k: "k \<in> set (order a)" "d = the (b k)" by auto
  then obtain d' where "b k = Some d'" using assms(2) is_order_D [of "order a" b k] by (auto simp: attempt_ok_def)
  then have "b k = Some d" using k by simp
  then show "b (ID d) = Some d \<and> is_order (vorder a (ID d)) (Data d)"
    using assms by (auto simp: batch_ok_def attempt_ok_def)
qed

lemma saveBatch_eff:
  assumes laws: "redis_laws exec bulk hashes" and b: "batch_ok b" "attempt_ok a b"
    and r: "saveBatch exec bulk (order a) (vorder a) b (x, p) = ((x', p'), ok)"
  shows "hashes x' (KeyRole i) ++ bdata b i = hashes x (KeyRole i) ++ bdata b i"
    and "ok \<Longrightarrow> hashes x' (KeyRole i) = hashes x (KeyRole i) ++ bdata b i"
proof -
  from save_loop_progress [OF laws attempt_entries [OF b] r [unfolded saveBatch_def]]
  have pr: "progress b (hashes x) (hashes x')"
    and wr: "ok \<longrightarrow> (\<forall>d \<in> set (map (\<lambda>k. the (b k)) (order a)). written b (ID d) (hashes x'))" by simp_all
  show e: "hashes x' (KeyRole i) ++ bdata b i = hashes x (KeyRole i) ++ bdata b i" by (rule progress_eff [OF pr])
  assume ok
  show "hashes x' (KeyRole i) = hashes x (KeyRole i) ++ bdata b i"
  proof (cases "b i")
    case None
    then show ?thesis using e by (simp add: bdata_def)
  next
    case (Some d)
    then have "i \<in> set (order a)" using b(2) is_order_D [of "order a" b i] by (simp add: attempt_ok_def)
    then have "d \<in> set (map (\<lambda>k. the (b k)) (order a))" using Some by force
    then have "written b (ID d) (hashes x')" using wr \<open>ok\<close> by blast
    moreover have "ID d = i" using Some b(1) by (simp add: batch_ok_def)
    ultimately show ?thesis using e by (simp add: written_def)
  qed
qed

text \<open>What a flush can do to the saver: nothing, write the batch and drop it, or fail and back off.\<close>

lemma flush_cases:
  obtains (idle) "batch s = Map.empty \<or> now1 a < nextFlush s" "flush exec bulk a s = s"
  | (saved) x p where "batch s \<noteq> Map.empty" "nextFlush s \<le> now1 a"
      "saveBatch exec bulk (order a) (vorder a) (batch s) (store s, posted s) = ((x, p), True)"
      "flush exec bulk a s = s\<lparr>store := x, posted := p, batch := Map.empty, backoff := 0\<rparr>"
  | (failed) x p where "batch s \<noteq> Map.empty" "nextFlush s \<le> now1 a"
      "saveBatch exec bulk (order a) (vorder a) (batch s) (store s, posted s) = ((x, p), False)"
      "flush exec bulk a s = s\<lparr>store := x, posted := p, backoff := next_backoff (backoff s),
         nextFlush := now2 a + next_backoff (backoff s)\<rparr>"
proof (cases "batch s = Map.empty \<or> now1 a < nextFlush s")
  case True
  then show thesis by (intro idle) (simp_all add: flush_def)
next
  case False
  obtain x p ok where r: "saveBatch exec bulk (order a) (vorder a) (batch s) (store s, posted s) = ((x, p), ok)"
    by (cases "saveBatch exec bulk (order a) (vorder a) (batch s) (store s, posted s)") auto
  show thesis
  proof (cases ok)
    case True
    then show thesis using False r by (intro saved [of x p]) (simp_all add: flush_def)
  next
    case nok: False
    then show thesis using False r by (intro failed [of x p]) (simp_all add: flush_def Let_def)
  qed
qed

text \<open>\<open>eff\<close>: what a role's hash will hold once the batch and the queue are written.\<close>

definition eff :: "('x \<Rightarrow> string \<Rightarrow> string \<rightharpoonup> string) \<Rightarrow> 'x saver \<Rightarrow> u64 \<Rightarrow> string \<rightharpoonup> string" where
  "eff hashes s i = hashes (store s) (KeyRole i) ++ bdata (batch s) i ++ deltas (sq_write (q s)) i"

lemma flush_eff:
  assumes laws: "redis_laws exec bulk hashes" and b: "batch_ok (batch s)" "attempt_ok a (batch s)"
  shows "eff hashes (flush exec bulk a s) i = eff hashes s i" and "batch_ok (batch (flush exec bulk a s))"
    and "q (flush exec bulk a s) = q s" and "closeCh (flush exec bulk a s) = closeCh s"
    and "batch (flush exec bulk a s) = batch s \<or> batch (flush exec bulk a s) = Map.empty"
proof -
  have "eff hashes (flush exec bulk a s) i = eff hashes s i \<and> batch_ok (batch (flush exec bulk a s))
    \<and> q (flush exec bulk a s) = q s \<and> closeCh (flush exec bulk a s) = closeCh s
    \<and> (batch (flush exec bulk a s) = batch s \<or> batch (flush exec bulk a s) = Map.empty)"
  proof (cases rule: flush_cases [of s a exec bulk])
    case idle
    then show ?thesis using b by simp
  next
    case (saved x p)
    then show ?thesis using saveBatch_eff(2) [OF laws b saved(3)] by (simp add: eff_def bdata_def batch_ok_def)
  next
    case (failed x p)
    then show ?thesis using saveBatch_eff(1) [OF laws b failed(3)] b by (simp add: eff_def)
  qed
  then show "eff hashes (flush exec bulk a s) i = eff hashes s i" "batch_ok (batch (flush exec bulk a s))"
    "q (flush exec bulk a s) = q s" "closeCh (flush exec bulk a s) = closeCh s"
    "batch (flush exec bulk a s) = batch s \<or> batch (flush exec bulk a s) = Map.empty" by blast+
qed

lemma merge_queue_eff:
  "eff hashes (merge_queue s) i = eff hashes s i" "batch_ok (batch s) \<Longrightarrow> batch_ok (batch (merge_queue s))"
  by (simp_all add: eff_def merge_queue_frame merge_queue_batch fold_merge)

section \<open>Histories of a saver\<close>

text \<open>
  The steps between which other goroutines may run: an accepted or refused request, a signal, a tick.
  The list holds the accepted requests in order.
\<close>

inductive saves ::
    "('x \<Rightarrow> redis_cmd list \<Rightarrow> 'x \<times> bool) \<Rightarrow> ('x \<Rightarrow> update_one list \<Rightarrow> 'x \<times> bool) \<Rightarrow> 'x saver \<Rightarrow> opSaveData list \<Rightarrow> 'x saver \<Rightarrow> bool"
  for exec bulk s0 where
    start: "saves exec bulk s0 [] s0"
  | accepted: "saves exec bulk s0 ops s \<Longrightarrow> snd (Push (q s) op) = None \<Longrightarrow> saves exec bulk s0 (ops @ [op]) (post op s)"
  | refused: "saves exec bulk s0 ops s \<Longrightarrow> snd (Push (q s) op) \<noteq> None \<Longrightarrow> saves exec bulk s0 ops (post op s)"
  | signal: "saves exec bulk s0 ops s \<Longrightarrow> attempt_ok a (batch (merge_queue s)) \<Longrightarrow> run_sig exec bulk a s = Some s'
      \<Longrightarrow> saves exec bulk s0 ops s'"
  | ticked: "saves exec bulk s0 ops s \<Longrightarrow> attempt_ok a (batch s) \<Longrightarrow> saves exec bulk s0 ops (run_tick exec bulk a s)"

lemma post_eff:
  "eff hashes (post op s) i =
     eff hashes s i ++ (if snd (Push (q s) op) = None \<and> ID op = i then Data op else Map.empty)"
  by (cases rule: pushData_cases [of "q s" op])
    (simp_all add: eff_def post_def Push_def Wake_fields append_write_fields deltas_append)

lemma post_frame: "batch (post op s) = batch s" "closeCh (post op s) = closeCh s" "nextFlush (post op s) = nextFlush s"
    "store (post op s) = store s"
  by (simp_all add: post_def)

lemma run_sig_cases:
  assumes "run_sig exec bulk a s = Some s'"
  obtains s1 where "eff hashes s1 i = eff hashes s i" "batch s1 = batch (merge_queue s)" "closeCh s1 = closeCh s"
    "s' = s1 \<or> s' = flush exec bulk a s1"
proof -
  obtain sq where sq: "recv_Sig (q s) = Some sq" and
    s': "s' = (let s1 = merge_queue (s\<lparr>q := sq\<rparr>) in if map_len (batch s1) \<ge> batchSize then flush exec bulk a s1 else s1)"
    using assms by (auto simp: run_sig_def Let_def split: option.splits)
  have w: "sq_write sq = sq_write (q s)" using sq by (auto simp: recv_Sig_def split: if_splits)
  let ?s1 = "merge_queue (s\<lparr>q := sq\<rparr>)"
  have "eff hashes ?s1 i = eff hashes s i" using merge_queue_eff(1) [of hashes "s\<lparr>q := sq\<rparr>" i] w by (simp add: eff_def)
  moreover have "batch ?s1 = batch (merge_queue s)" by (simp add: merge_queue_batch w)
  moreover have "s' = ?s1 \<or> s' = flush exec bulk a ?s1" by (simp add: s' Let_def)
  ultimately show ?thesis using that [of ?s1] by (simp add: merge_queue_frame)
qed

lemma saves_eff:
  assumes "saves exec bulk s0 ops s" "redis_laws exec bulk hashes" "batch_ok (batch s0)"
  shows "eff hashes s i = eff hashes s0 i ++ deltas ops i \<and> batch_ok (batch s) \<and> closeCh s = closeCh s0"
  using assms
proof (induction rule: saves.induct)
  case start
  then show ?case by simp
next
  case (accepted ops s op)
  then show ?case by (simp add: post_eff deltas_append post_frame)
next
  case (refused ops s op)
  then show ?case by (auto simp: post_eff post_frame)
next
  case (signal ops s a s')
  obtain s1 where s1: "eff hashes s1 i = eff hashes s i" "batch s1 = batch (merge_queue s)" "closeCh s1 = closeCh s"
    "s' = s1 \<or> s' = flush exec bulk a s1" by (rule run_sig_cases [OF signal.hyps(3)])
  have ih: "eff hashes s i = eff hashes s0 i ++ deltas ops i" "batch_ok (batch s)" "closeCh s = closeCh s0"
    using signal by blast+
  have "batch_ok (batch s1)" unfolding s1(2) by (rule merge_queue_eff(2) [OF ih(2)])
  then show ?case using s1 ih flush_eff [OF signal.prems(1), of s1 a] signal.hyps(2) by auto
next
  case (ticked ops s a)
  then show ?case using flush_eff [of exec bulk hashes s a] by (simp add: run_tick_def)
qed

section \<open>Closing a saver\<close>

lemma close_loop_eff:
  assumes laws: "redis_laws exec bulk hashes" and "batch_ok (batch s)" "\<forall>k. attempt_ok (att k) (batch s)"
    and "sq_write (q s) = []" "close_loop exec bulk fuel att s = Some s'"
  shows "hashes (store s') (KeyRole i) = eff hashes s i"
  using assms(2-5)
proof (induction fuel arbitrary: att s)
  case 0
  then show ?case by (auto simp: eff_def bdata_def split: if_splits)
next
  case (Suc fuel)
  show ?case
  proof (cases "batch s = Map.empty")
    case True
    then show ?thesis using Suc.prems by (simp add: eff_def bdata_def)
  next
    case False
    have a0: "attempt_ok (att 0) (batch s)" using Suc.prems(2) by blast
    note fe = flush_eff [OF laws Suc.prems(1) a0]
    show ?thesis
    proof (cases "batch (flush exec bulk (att 0) s) = Map.empty")
      case True
      have "close_loop exec bulk fuel (\<lambda>i. att (Suc i)) (flush exec bulk (att 0) s) = Some s'"
        using Suc.prems(4) False by simp
      then have "s' = flush exec bulk (att 0) s" using True by (cases fuel) simp_all
      then show ?thesis using True fe(1) [of i] fe(3) Suc.prems(3) by (simp add: eff_def bdata_def)
    next
      case nonempty: False
      then have "batch (flush exec bulk (att 0) s) = batch s" using fe(5) by blast
      then have "hashes (store s') (KeyRole i) = eff hashes (flush exec bulk (att 0) s) i"
        using Suc.prems False fe by (intro Suc.IH [of _ "\<lambda>i. att (Suc i)"]) simp_all
      then show ?thesis using fe(1) by simp
    qed
  qed
qed

lemma saver_close_frame:
  "saver_close s = Some s1 \<Longrightarrow> eff hashes s1 i = eff hashes s i \<and> batch s1 = batch s \<and> closeCh s1 \<and> sq_write (q s1) = sq_write (q s)"
  by (auto simp: saver_close_def eff_def Close_fields split: if_splits)

lemma eff_newSaver: "eff hashes (newSaver grow x) i = hashes x (KeyRole i)" "batch (newSaver grow x) = Map.empty"
  by (simp_all add: eff_def newSaver_def NewSwapQueue_def bdata_def)

text \<open>
  C12. No accepted save is lost, and the newest value of every field wins.  Whatever signals, ticks,
  failed writes (which may leave any part of a pipeline behind) and retries happen, once the saver has been
  closed and has returned, the Redis hash of every role is what it was at the start, overwritten field by
  field with all the requests accepted for that role, in the order they were accepted.
\<close>

theorem closed_saver_saved_everything:
  assumes laws: "redis_laws exec bulk hashes"
    and run: "saves exec bulk (newSaver grow x) ops s" and cl: "saver_close s = Some s1"
    and att: "\<forall>k. attempt_ok (att k) (batch (merge_queue s1))" and ret: "run_close exec bulk fuel att s1 = Some s2"
  shows "hashes (store s2) (KeyRole i) = hashes x (KeyRole i) ++ deltas ops i"
proof -
  have "batch_ok (batch (newSaver grow x))" by (simp add: eff_newSaver batch_ok_def)
  from saves_eff [OF run laws this, of i]
  have e: "eff hashes s i = hashes x (KeyRole i) ++ deltas ops i" and ok: "batch_ok (batch s)"
    by (simp_all add: eff_newSaver)
  have s1: "eff hashes s1 i = eff hashes s i" "batch s1 = batch s" "closeCh s1"
    using saver_close_frame [OF cl, of hashes i] by blast+
  have "close_loop exec bulk fuel att (merge_queue s1) = Some s2" using ret s1(3) by (simp add: run_close_def)
  then have "hashes (store s2) (KeyRole i) = eff hashes (merge_queue s1) i"
    using ok s1(2) att by (intro close_loop_eff [OF laws]) (simp_all add: merge_queue_eff(2) merge_queue_frame)
  then show ?thesis using e s1(1) by (simp add: merge_queue_eff(1))
qed

text \<open>
  A store for examples: two databases and a counter of calls that will still fail.  A pipeline that fails
  while the counter runs down has nevertheless been executed, as after a timeout of the client.
\<close>

type_synonym demo_store = "(string \<Rightarrow> string \<rightharpoonup> string) \<times> (u64 \<Rightarrow> string \<rightharpoonup> string) \<times> nat"

definition demo_exec :: "demo_store \<Rightarrow> redis_cmd list \<Rightarrow> demo_store \<times> bool" where
  "demo_exec x cmds = (case x of (h, m, n) \<Rightarrow>
     if list_ex (\<lambda>c. case c of HSet k kvs \<Rightarrow> kvs = [] | _ \<Rightarrow> False) cmds then ((h, m, n), False)
     else ((fold hash_step cmds h, m, n - 1), n = 0))"

definition demo_bulk :: "demo_store \<Rightarrow> update_one list \<Rightarrow> demo_store \<times> bool" where
  "demo_bulk x ms = (case x of (h, m, n) \<Rightarrow> ((h, fold doc_step ms m, n), True))"

lemma Nil_subseqs: "[] \<in> set (subseqs xs)"
  by (induction xs) (auto simp: Let_def)

lemma demo_bad: "list_ex (\<lambda>c. case c of HSet k kvs \<Rightarrow> kvs = [] | _ \<Rightarrow> False) cmds \<longleftrightarrow> (\<exists>k. HSet k [] \<in> set cmds)"
proof
  assume "list_ex (\<lambda>c. case c of HSet k kvs \<Rightarrow> kvs = [] | _ \<Rightarrow> False) cmds"
  then obtain c where "c \<in> set cmds" "case c of HSet k kvs \<Rightarrow> kvs = [] | _ \<Rightarrow> False" by (auto simp: list_ex_iff)
  then show "\<exists>k. HSet k [] \<in> set cmds" by (cases c rule: redis_cmd.exhaust) auto
qed (force simp: list_ex_iff)

lemma demo_redis_laws: "redis_laws demo_exec demo_bulk fst"
  unfolding redis_laws_def
proof (intro conjI allI impI)
  show "fst x' = fold hash_step cmds (fst x)" if "demo_exec x cmds = (x', True)" for x cmds x'
    using that by (cases x) (auto simp: demo_exec_def split: if_splits)
  show "\<exists>part\<in>set (subseqs cmds). fst x' = fold hash_step part (fst x)" if "demo_exec x cmds = (x', False)" for x cmds x'
  proof (cases "list_ex (\<lambda>c. case c of HSet k kvs \<Rightarrow> kvs = [] | _ \<Rightarrow> False) cmds")
    case True
    then have "fst x' = fold hash_step [] (fst x)" using that by (cases x) (auto simp: demo_exec_def)
    then show ?thesis using Nil_subseqs by blast
  next
    case False
    then have "fst x' = fold hash_step cmds (fst x)" using that by (cases x) (auto simp: demo_exec_def)
    then show ?thesis using subseqs_refl by blast
  qed
  show "fst (fst (demo_bulk x ms)) = fst x" for x ms by (cases x) (simp add: demo_bulk_def)
qed

definition demo_op :: "string \<Rightarrow> opSaveData" where
  "demo_op v = \<lparr>ID = 5, Data = [''TCBase'' \<mapsto> v], Both = False\<rparr>"

definition demo_att :: "nat \<Rightarrow> attempt" where
  "demo_att k = \<lparr>now1 = 200 * millisecond * int k, now2 = 200 * millisecond * int k, order = [5], vorder = \<lambda>_. [''TCBase'']\<rparr>"

definition demo_start :: "demo_store saver" where
  "demo_start = newSaver Suc (\<lambda>_. Map.empty, \<lambda>_. Map.empty, 1)"

definition demo_end :: "demo_store saver" where
  "demo_end = post (demo_op ''new'') (post (demo_op ''old'') demo_start)"

lemma demo_q: "sq_write (q demo_end) = [demo_op ''old'', demo_op ''new'']" "batch demo_end = Map.empty" "\<not> closeCh demo_end"
  by (simp_all add: demo_end_def post_def demo_start_def newSaver_def NewSwapQueue_def Push_def pushData_def append_write_def
      Wake_def opChanSize_def)

lemma demo_saves: "saves demo_exec demo_bulk demo_start ([] @ [demo_op ''old''] @ [demo_op ''new'']) demo_end"
  unfolding demo_end_def append_assoc [symmetric]
  by (intro saves.intros)
    (simp_all add: post_def demo_start_def newSaver_def NewSwapQueue_def Push_def pushData_def append_write_def Wake_def opChanSize_def)

lemma demo_batch: "batch (merge_queue (demo_end\<lparr>q := Close (q demo_end), closeCh := True\<rparr>)) = [5 \<mapsto> demo_op ''new'']"
proof -
  have "Map.empty(''TCBase'' \<mapsto> ''old'', ''TCBase'' \<mapsto> ''new'') = [''TCBase'' \<mapsto> ''new'']" by simp
  then show ?thesis
    by (simp add: merge_queue_batch Close_fields demo_q merge_def demo_op_def Let_def)
qed

lemma demo_attempts: "attempt_ok (demo_att k) [5 \<mapsto> demo_op v]"
  by (simp add: attempt_ok_def demo_att_def is_order_def demo_op_def)

section \<open>The saver returns\<close>

definition filled :: "(u64 \<rightharpoonup> opSaveData) \<Rightarrow> bool" where
  "filled b \<longleftrightarrow> (\<forall>i d. b i = Some d \<longrightarrow> Data d \<noteq> Map.empty)"

lemma filled_merge: "filled b \<Longrightarrow> Data d \<noteq> Map.empty \<Longrightarrow> filled (merge b d)"
  by (cases "b (ID d)") (auto simp: filled_def merge_def Let_def split: if_splits)

lemma filled_fold: "filled b \<Longrightarrow> \<forall>d \<in> set ops. Data d \<noteq> Map.empty \<Longrightarrow> filled (fold (\<lambda>d b. merge b d) ops b)"
  by (induction ops arbitrary: b) (simp_all add: filled_merge)

lemma filled_cmds:
  assumes "entries vord b ds" "filled b"
  shows "HSet k [] \<notin> set (chunk_cmds vord ds)"
proof
  assume "HSet k [] \<in> set (chunk_cmds vord ds)"
  then obtain d where d: "d \<in> set ds" "Values (vord (ID d)) d = []" by (auto simp: chunk_cmds_HSet)
  then have "is_order [] (Data d)" using assms(1) by (auto simp: entries_def Values_def)
  then have "Data d = Map.empty" using dom_eq_empty_conv [of "Data d"] by (simp add: is_order_def)
  then show False using assms d(1) by (auto simp: entries_def filled_def)
qed

lemma saveToDB_left:
  assumes "recovers exec bulk left" "saveToDB bulk vord ds (x, p) = ((x', p'), ok)"
  shows "left x' \<le> left x \<and> (\<not> ok \<longrightarrow> left x' < left x)"
proof -
  have r: "left (fst (bulk x ms)) \<le> left x \<and> (\<not> snd (bulk x ms) \<longrightarrow> left (fst (bulk x ms)) < left x)" for ms
    using assms(1) by (simp add: recovers_def)
  show ?thesis
    using assms(2) r [of "db_models vord ds"] by (cases rule: saveToDB_cases [of vord ds bulk x p]) auto
qed

lemma saveChunk_left:
  assumes rec: "recovers exec bulk left" and en: "entries vord b ds" "filled b"
    and r: "saveChunk exec bulk vord ds (x, p) = ((x', p'), ok)"
  shows "left x' \<le> left x \<and> (\<not> ok \<longrightarrow> left x' < left x)"
proof -
  obtain x1 ok1 where e: "exec x (chunk_cmds vord ds) = (x1, ok1)" by fastforce
  have l: "left x1 \<le> left x \<and> (\<not> ok1 \<longrightarrow> left x1 < left x)"
    using rec filled_cmds [OF en] e unfolding recovers_def by (metis fst_conv snd_conv)
  show ?thesis
  proof (cases ok1)
    case True
    then have "saveToDB bulk vord (filter Both ds) (x1, p) = ((x', p'), ok)" using r e by (simp add: saveChunk_def)
    from saveToDB_left [OF rec this] l show ?thesis by auto
  next
    case False
    then show ?thesis using r e l by (simp add: saveChunk_def)
  qed
qed

lemma save_loop_left:
  assumes rec: "recovers exec bulk left" and en: "entries vord b ds" "filled b"
    and r: "save_loop exec bulk vord ds i (x, p) = ((x', p'), ok)"
  shows "left x' \<le> left x \<and> (\<not> ok \<longrightarrow> left x' < left x)"
  using r
proof (induction "length ds - i" arbitrary: i x p rule: less_induct)
  case less
  show ?case
  proof (cases "i < length ds")
    case False
    then show ?thesis using less.prems by (simp add: save_loop.simps)
  next
    case True
    define chunk where "chunk = take (min (i + chunkSize) (length ds) - i) (drop i ds)"
    obtain x1 p1 ok1 where c: "saveChunk exec bulk vord chunk (x, p) = ((x1, p1), ok1)"
      by (cases "saveChunk exec bulk vord chunk (x, p)") auto
    note l1 = saveChunk_left [OF rec entries_part [OF en(1)] en(2) c [unfolded chunk_def]]
    show ?thesis
    proof (cases ok1)
      case False
      then show ?thesis using l1 less.prems True c by (simp add: save_loop.simps chunk_def Let_def)
    next
      case ok1: True
      have rest: "save_loop exec bulk vord ds (i + chunkSize) (x1, p1) = ((x', p'), ok)"
        using less.prems True c ok1 by (subst (asm) save_loop.simps) (simp add: chunk_def [symmetric])
      have "length ds - (i + chunkSize) < length ds - i" using True by (simp add: chunkSize_def)
      from less.hyps [OF this rest] l1 show ?thesis by auto
    qed
  qed
qed

text \<open>The loop sleeps for 100 milliseconds between two attempts.\<close>

definition close_clock :: "(nat \<Rightarrow> attempt) \<Rightarrow> bool" where
  "close_clock att \<longleftrightarrow> (\<forall>k. now1 (att k) \<le> now2 (att k) \<and> now2 (att k) + 100 * millisecond \<le> now1 (att (Suc k)))"

lemma close_clock_Suc: "close_clock att \<Longrightarrow> close_clock (\<lambda>k. att (Suc k))"
  by (simp add: close_clock_def)

lemma close_loop_done: "batch s = Map.empty \<Longrightarrow> close_loop exec bulk fuel att s = Some s"
  by (cases fuel) simp_all

lemma close_loop_batch: "close_loop exec bulk fuel att s = Some s' \<Longrightarrow> batch s' = Map.empty"
  by (induction fuel arbitrary: att s) (auto split: if_splits)

lemma close_loop_returns:
  assumes rec: "recovers exec bulk left"
  shows "batch_ok (batch s) \<Longrightarrow> filled (batch s) \<Longrightarrow> \<forall>k. attempt_ok (att k) (batch s) \<Longrightarrow> close_clock att
    \<Longrightarrow> left (store s) \<le> L \<Longrightarrow> W \<le> 50 \<Longrightarrow> nextFlush s \<le> now1 (att 0) + int W * (100 * millisecond)
    \<Longrightarrow> 51 * L + W < fuel \<Longrightarrow> \<exists>s'. close_loop exec bulk fuel att s = Some s'"
proof (induction fuel arbitrary: att s L W)
  case 0
  then show ?case by simp
next
  case (Suc fuel)
  let ?att = "\<lambda>k. att (Suc k)"
  have clk: "now1 (att 0) \<le> now2 (att 0)" "now2 (att 0) + 100 * millisecond \<le> now1 (att 1)"
    using Suc.prems(4) by (simp_all add: close_clock_def)
  show ?case
  proof (cases rule: flush_cases [of s "att 0" exec bulk])
    case idle
    show ?thesis
    proof (cases "batch s = Map.empty")
      case True
      then show ?thesis by simp
    next
      case False
      then have "now1 (att 0) < nextFlush s" using idle(1) by blast
      then obtain W' where W: "W = Suc W'" using Suc.prems(7) by (cases W) auto
      have "\<exists>s'. close_loop exec bulk fuel ?att s = Some s'"
        using Suc.prems clk by (intro Suc.IH [of s ?att L W']) (simp_all add: W close_clock_Suc algebra_simps)
      then show ?thesis using False idle(2) by simp
    qed
  next
    case (saved x p)
    then show ?thesis by (simp add: close_loop_done)
  next
    case (failed x p)
    have "left x < left (store s)"
      using save_loop_left [OF rec attempt_entries [OF Suc.prems(1)] Suc.prems(2) failed(3) [unfolded saveBatch_def]] Suc.prems(3)
      by blast
    then obtain L' where L: "L = Suc L'" "left x \<le> L'" using Suc.prems(5) by (cases L) auto
    have bo: "next_backoff (backoff s) \<le> 50 * (100 * millisecond)"
      by (simp add: next_backoff_def second_def millisecond_def)
    have "\<exists>s'. close_loop exec bulk fuel ?att (flush exec bulk (att 0) s) = Some s'"
      using Suc.prems clk L bo
      by (intro Suc.IH [of _ ?att L' 50]) (simp_all add: failed(4) close_clock_Suc millisecond_def)
    then show ?thesis using failed(1) by simp
  qed
qed

lemma demo_recovers: "recovers demo_exec demo_bulk (\<lambda>(h, m, n). n)"
  unfolding recovers_def by (auto simp: demo_exec_def demo_bulk_def demo_bad split: if_splits)

lemma demo_filled: "batch_ok [5 \<mapsto> demo_op v]" "filled [5 \<mapsto> demo_op v]"
  by (auto simp: batch_ok_def filled_def demo_op_def)

lemma demo_clock: "close_clock demo_att"
  by (simp add: close_clock_def demo_att_def millisecond_def algebra_simps)

lemma demo_store_end: "store demo_end = (\<lambda>_. Map.empty, \<lambda>_. Map.empty, 1)" "nextFlush demo_end = 0" "now1 (demo_att 0) = 0"
  by (simp_all add: demo_end_def post_def demo_start_def newSaver_def demo_att_def)

theorem closed_saver_saved_everything_witness:
  "\<exists>s1 s2. saver_close demo_end = Some s1 \<and> run_close demo_exec demo_bulk 102 demo_att s1 = Some s2
     \<and> fst (store s2) (KeyRole 5) ''TCBase'' = Some ''new''"
proof -
  let ?s1 = "demo_end\<lparr>q := Close (q demo_end), closeCh := True\<rparr>"
  have cl: "saver_close demo_end = Some ?s1" by (simp add: saver_close_def demo_q)
  have att: "\<forall>k. attempt_ok (demo_att k) (batch (merge_queue ?s1))" by (simp add: demo_batch demo_attempts)
  have ret: "\<exists>s2. run_close demo_exec demo_bulk 102 demo_att ?s1 = Some s2"
    using close_loop_returns [OF demo_recovers, of "merge_queue ?s1" demo_att 1 0 102]
    by (simp add: run_close_def demo_batch demo_attempts demo_clock demo_filled merge_queue_frame demo_store_end)
  then obtain s2 where s2: "run_close demo_exec demo_bulk 102 demo_att ?s1 = Some s2" by blast
  have "fst (store s2) (KeyRole 5) = Map.empty ++ deltas ([] @ [demo_op ''old''] @ [demo_op ''new'']) 5"
    using closed_saver_saved_everything [OF demo_redis_laws demo_saves [unfolded demo_start_def] cl att s2, of 5] by simp
  then show ?thesis using cl s2 by (auto simp: demo_op_def)
qed


lemma flush_batch: "batch (flush exec bulk a s) = batch s \<or> batch (flush exec bulk a s) = Map.empty" "q (flush exec bulk a s) = q s"
  by (cases rule: flush_cases [of s a exec bulk]; simp)+

lemma filled_flush: "filled (batch s) \<Longrightarrow> filled (batch (flush exec bulk a s))"
  using flush_batch(1) [of exec bulk a s] by (metis filled_def option.distinct(1))

lemma saves_filled:
  assumes "saves exec bulk s0 ops s" "\<forall>d \<in> set ops. Data d \<noteq> Map.empty"
    "filled (batch s0)" "\<forall>d \<in> set (sq_write (q s0)). Data d \<noteq> Map.empty"
  shows "filled (batch s) \<and> (\<forall>d \<in> set (sq_write (q s)). Data d \<noteq> Map.empty)"
  using assms
proof (induction rule: saves.induct)
  case (accepted ops s op)
  then show ?case
    by (cases rule: pushData_cases [of "q s" op]) (simp_all add: post_def Push_def Wake_fields append_write_fields)
next
  case (refused ops s op)
  then show ?case
    by (cases rule: pushData_cases [of "q s" op]) (simp_all add: post_def Push_def Wake_fields append_write_fields)
next
  case (signal ops s a s')
  obtain sq where sq: "recv_Sig (q s) = Some sq" using signal.hyps(3) by (auto simp: run_sig_def split: option.splits)
  then have w: "sq_write sq = sq_write (q s)" by (auto simp: recv_Sig_def split: if_splits)
  let ?s1 = "merge_queue (s\<lparr>q := sq\<rparr>)"
  have "filled (batch ?s1)" using signal by (simp add: merge_queue_batch w filled_fold)
  moreover have "s' = ?s1 \<or> s' = flush exec bulk a ?s1"
    using signal.hyps(3) sq by (auto simp: run_sig_def Let_def split: if_splits)
  ultimately show ?case
    using filled_flush [of ?s1 exec bulk a] flush_batch(2) [of exec bulk a ?s1] merge_queue_frame(1) [of "s\<lparr>q := sq\<rparr>"] by auto
next
  case (ticked ops s a)
  then show ?case by (simp add: run_tick_def filled_flush flush_batch(2))
qed simp



section \<open>A request without fields\<close>

lemma save_loop_bad:
  assumes bad: "hset_arity exec" and d: "d \<in> set (drop i ds)" "Values (vord (ID d)) d = []"
  shows "\<not> snd (save_loop exec bulk vord ds i (x, p))"
  using d
proof (induction "length ds - i" arbitrary: i x p rule: less_induct)
  case less
  have i: "i < length ds" using less.prems(1) by (cases "i < length ds") simp_all
  define chunk where "chunk = take (min (i + chunkSize) (length ds) - i) (drop i ds)"
  have chunk': "chunk = take chunkSize (drop i ds)" by (auto simp: chunk_def min_def)
  obtain x1 p1 ok1 where c: "saveChunk exec bulk vord chunk (x, p) = ((x1, p1), ok1)"
    by (cases "saveChunk exec bulk vord chunk (x, p)") auto
  have step: "save_loop exec bulk vord ds i (x, p) =
      (if ok1 then save_loop exec bulk vord ds (i + chunkSize) (x1, p1) else ((x1, p1), False))"
    using i c by (subst save_loop.simps) (simp add: chunk_def [symmetric])
  have "drop i ds = chunk @ drop (i + chunkSize) ds" unfolding chunk' by (simp add: add.commute flip: drop_drop)
  then consider "d \<in> set chunk" | "d \<in> set (drop (i + chunkSize) ds)" using less.prems(1) by auto
  then show ?case
  proof cases
    case 1
    then have "HSet (KeyRole (ID d)) [] \<in> set (chunk_cmds vord chunk)" using less.prems(2) by (auto simp: chunk_cmds_HSet)
    then have "\<not> snd (exec x (chunk_cmds vord chunk))" using bad unfolding hset_arity_def by blast
    then have "\<not> ok1" using c by (auto simp: saveChunk_def split: prod.splits bool.splits)
    then show ?thesis by (simp add: step)
  next
    case 2
    have "length ds - (i + chunkSize) < length ds - i" using i by (simp add: chunkSize_def)
    from less.hyps [OF this 2 less.prems(2)] show ?thesis by (simp add: step)
  qed
qed



section \<open>Reported saves are durable\<close>

definition below_data :: "(string \<rightharpoonup> string) \<Rightarrow> (string \<rightharpoonup> string)" where
  "below_data m f = (if take 5 f = ''data.'' then m (drop 5 f) else None)"

lemma below_data_map_of: "map_of (map (\<lambda>(k, v). (''data.'' @ k, v)) kvs) = below_data (map_of kvs)"
proof
  fix f
  show "map_of (map (\<lambda>(k, v). (''data.'' @ k, v)) kvs) f = below_data (map_of kvs) f"
  proof (induction kvs)
    case Nil
    then show ?case by (simp add: below_data_def)
  next
    case (Cons kv kvs)
    obtain k v where kv: "kv = (k, v)" by fastforce
    have eq: "f = ''data.'' @ k \<longleftrightarrow> take 5 f = ''data.'' \<and> drop 5 f = k"
    proof
      assume "take 5 f = ''data.'' \<and> drop 5 f = k"
      then show "f = ''data.'' @ k" using append_take_drop_id [of 5 f] by metis
    qed simp
    show ?case
      by (cases "f = ''data.'' @ k") (use Cons eq kv in \<open>simp_all add: below_data_def\<close>)
  qed
qed

lemma db_models_write:
  assumes "entries vord b ds" "(i, kvs) \<in> set (db_models vord ds)"
  shows "map_of (rev kvs) = below_data (bdata b i)"
proof -
  obtain d where d: "d \<in> set ds" "i = ID d" "kvs = map (\<lambda>(k, v). (''data.'' @ k, v)) (Values (vord (ID d)) d)"
    using assms(2) by (auto simp: db_models_def)
  then have "b i = Some d" "is_order (vord i) (Data d)" using assms(1) by (auto simp: entries_def)
  then show ?thesis
    using below_data_map_of [of "rev (Values (vord i) d)"] d by (simp add: rev_map bdata_def Values_order)
qed

definition doc_progress :: "(u64 \<rightharpoonup> opSaveData) \<Rightarrow> (u64 \<Rightarrow> string \<rightharpoonup> string) \<Rightarrow> (u64 \<Rightarrow> string \<rightharpoonup> string) \<Rightarrow> bool" where
  "doc_progress b m m' \<longleftrightarrow> (\<forall>i. m' i = m i \<or> m' i = m i ++ below_data (bdata b i))"

definition durable :: "(u64 \<rightharpoonup> opSaveData) \<Rightarrow> (u64 \<Rightarrow> string \<rightharpoonup> string) \<Rightarrow> u64 \<Rightarrow> bool" where
  "durable b m i \<longleftrightarrow> (\<exists>d. b i = Some d \<and> Both d \<and> below_data (Data d) \<subseteq>\<^sub>m m i)"

lemma doc_progress_refl [simp]: "doc_progress b m m"
  by (simp add: doc_progress_def)

lemma doc_progress_trans: "doc_progress b m m1 \<Longrightarrow> doc_progress b m1 m2 \<Longrightarrow> doc_progress b m m2"
  unfolding doc_progress_def by (metis map_add_idem)

lemma map_le_add_right: "D \<subseteq>\<^sub>m m ++ D"
  by (auto simp: map_le_def)

lemma durable_mono:
  assumes "doc_progress b m m'" "durable b m i"
  shows "durable b m' i"
proof -
  obtain d where d: "b i = Some d" "Both d" "below_data (Data d) \<subseteq>\<^sub>m m i" using assms(2) by (auto simp: durable_def)
  have "m' i = m i \<or> m' i = m i ++ below_data (Data d)" using assms(1) d(1) by (auto simp: doc_progress_def bdata_def)
  then show ?thesis using d map_le_add_right by (auto simp: durable_def)
qed

lemma fold_doc_step:
  "\<forall>i kvs. (i, kvs) \<in> set ms \<longrightarrow> map_of (rev kvs) = D i \<Longrightarrow>
   fold doc_step ms m i = (if i \<in> fst ` set ms then m i ++ D i else m i)"
proof (induction ms arbitrary: m)
  case Nil
  then show ?case by simp
next
  case (Cons u ms)
  obtain j kvs where u: "u = (j, kvs)" by fastforce
  have "fold doc_step ms m' i = (if i \<in> fst ` set ms then m' i ++ D i else m' i)" for m'
    using Cons by simp
  moreover have "map_of (rev kvs) = D j" using Cons.prems u by simp
  ultimately show ?case by (auto simp: u)
qed

lemma saveToDB_docs:
  assumes laws: "mongo_laws exec bulk docs" and en: "entries vord b ds" and both: "\<forall>d \<in> set ds. Both d"
    and r: "saveToDB bulk vord ds (x, p) = ((x', p'), ok)"
  shows "doc_progress b (docs x) (docs x') \<and> (p' = p \<or> (p' = p @ [map ID ds] \<and> (\<forall>d \<in> set ds. durable b (docs x') (ID d))))"
proof -
  let ?D = "\<lambda>i. below_data (bdata b i)"
  have st: "fold doc_step ms m i = (if i \<in> fst ` set ms then m i ++ ?D i else m i)"
    if "set ms \<subseteq> set (db_models vord ds)" for ms m i
    using that db_models_write [OF en] by (intro fold_doc_step) blast
  show ?thesis
  proof (cases rule: saveToDB_cases [of vord ds bulk x p])
    case none
    then show ?thesis using r by simp
  next
    case (failed x1)
    then obtain part where part: "part \<in> set (subseqs (db_models vord ds))" "docs x1 = fold doc_step part (docs x)"
      using laws unfolding mongo_laws_def by blast
    have "x' = x1" "p' = p" using failed r by simp_all
    then show ?thesis using st [OF subseqs_subset [OF part(1)]] by (simp add: part(2) doc_progress_def)
  next
    case (ok x1)
    then have d1: "docs x1 = fold doc_step (db_models vord ds) (docs x)" using laws by (simp add: mongo_laws_def)
    have x': "x' = x1" "p' = p @ [map ID ds]" using ok r by simp_all
    have "durable b (docs x1) (ID d)" if d: "d \<in> set ds" for d
    proof -
      have bd: "b (ID d) = Some d" "is_order (vord (ID d)) (Data d)" using en d by (auto simp: entries_def)
      show ?thesis
      proof (cases "Values (vord (ID d)) d = []")
        case True
        then have "Data d = Map.empty" using Values_order [OF bd(2)] by simp
        then show ?thesis using bd both d by (auto simp: durable_def below_data_def map_le_def)
      next
        case False
        then have "ID d \<in> fst ` set (db_models vord ds)" using d by (force simp: db_models_def)
        then have "docs x1 (ID d) = docs x (ID d) ++ below_data (Data d)"
          using st [OF order.refl, of "docs x" "ID d"] bd by (simp add: d1 bdata_def)
        then show ?thesis using bd both d map_le_add_right by (simp add: durable_def)
      qed
    qed
    then show ?thesis using x' st [OF order.refl] by (simp add: d1 doc_progress_def)
  qed
qed

lemma saveChunk_docs:
  assumes laws: "mongo_laws exec bulk docs" and en: "entries vord b ds"
    and r: "saveChunk exec bulk vord ds (x, p) = ((x', p'), ok)"
  shows "doc_progress b (docs x) (docs x') \<and> (p' = p \<or> (\<exists>ids. p' = p @ [ids] \<and> (\<forall>i \<in> set ids. durable b (docs x') i)))"
proof -
  obtain x1 ok1 where e: "exec x (chunk_cmds vord ds) = (x1, ok1)" by fastforce
  have "docs (fst (exec x (chunk_cmds vord ds))) = docs x" using laws by (simp add: mongo_laws_def)
  then have d1: "docs x1 = docs x" using e by simp
  show ?thesis
  proof (cases ok1)
    case False
    then show ?thesis using r e d1 by (simp add: saveChunk_def)
  next
    case True
    then have "saveToDB bulk vord (filter Both ds) (x1, p) = ((x', p'), ok)" using r e by (simp add: saveChunk_def)
    from saveToDB_docs [OF laws _ _ this] en d1 show ?thesis by (fastforce simp: entries_def)
  qed
qed

lemma save_loop_docs:
  assumes laws: "mongo_laws exec bulk docs" and en: "entries vord b ds"
    and r: "save_loop exec bulk vord ds i (x, p) = ((x', p'), ok)"
  shows "doc_progress b (docs x) (docs x') \<and> (\<exists>new. p' = p @ new \<and> (\<forall>ids \<in> set new. \<forall>j \<in> set ids. durable b (docs x') j))"
  using r
proof (induction "length ds - i" arbitrary: i x p rule: less_induct)
  case less
  show ?case
  proof (cases "i < length ds")
    case False
    then show ?thesis using less.prems by (simp add: save_loop.simps)
  next
    case True
    define chunk where "chunk = take (min (i + chunkSize) (length ds) - i) (drop i ds)"
    obtain x1 p1 ok1 where c: "saveChunk exec bulk vord chunk (x, p) = ((x1, p1), ok1)"
      by (cases "saveChunk exec bulk vord chunk (x, p)") auto
    from saveChunk_docs [OF laws entries_part [OF en] c [unfolded chunk_def]]
    have pr: "doc_progress b (docs x) (docs x1)" and
      "p1 = p \<or> (\<exists>ids. p1 = p @ [ids] \<and> (\<forall>i \<in> set ids. durable b (docs x1) i))" by blast+
    then obtain new where new: "p1 = p @ new" "\<forall>ids \<in> set new. \<forall>j \<in> set ids. durable b (docs x1) j"
      by (metis append_Nil2 empty_iff empty_set insert_iff list.set(2))
    show ?thesis
    proof (cases ok1)
      case False
      then have "x' = x1" "p' = p1" using less.prems True c by (simp_all add: save_loop.simps chunk_def Let_def)
      then show ?thesis using pr new by blast
    next
      case ok1: True
      have rest: "save_loop exec bulk vord ds (i + chunkSize) (x1, p1) = ((x', p'), ok)"
        using less.prems True c ok1 by (subst (asm) save_loop.simps) (simp add: chunk_def [symmetric])
      have "length ds - (i + chunkSize) < length ds - i" using True by (simp add: chunkSize_def)
      from less.hyps [OF this rest] obtain new' where
        ih: "doc_progress b (docs x1) (docs x')" "p' = p1 @ new'" "\<forall>ids \<in> set new'. \<forall>j \<in> set ids. durable b (docs x') j" by blast
      have "p' = p @ (new @ new')" using new(1) ih(2) by simp
      moreover have "\<forall>ids \<in> set (new @ new'). \<forall>j \<in> set ids. durable b (docs x') j"
        using new(2) ih(3) durable_mono [OF ih(1)] by auto
      ultimately show ?thesis using doc_progress_trans [OF pr ih(1)] by blast
    qed
  qed
qed

text \<open>
  C15. A reported save is durable.  Every role id a flush reports as saved, after which the logon service
  may drop the role's cached data, belongs to a request of the batch that asked for the database, and by then
  its document in MongoDB holds every field of that request, even when a later chunk of the same batch failed.
\<close>

theorem reported_saves_are_durable:
  assumes "mongo_laws exec bulk docs" "batch_ok (batch s)" "attempt_ok a (batch s)"
  shows "\<exists>new. posted (flush exec bulk a s) = posted s @ new
     \<and> (\<forall>ids \<in> set new. \<forall>i \<in> set ids. \<exists>d. batch s i = Some d \<and> Both d
          \<and> (\<forall>k v. Data d k = Some v \<longrightarrow> docs (store (flush exec bulk a s)) i (''data.'' @ k) = Some v))"
proof -
  have fields: "durable b m i \<Longrightarrow> \<exists>d. b i = Some d \<and> Both d \<and> (\<forall>k v. Data d k = Some v \<longrightarrow> m i (''data.'' @ k) = Some v)" for b m i
  proof -
    assume "durable b m i"
    then obtain d where d: "b i = Some d" "Both d" "below_data (Data d) \<subseteq>\<^sub>m m i" by (auto simp: durable_def)
    have "m i (''data.'' @ k) = Some v" if "Data d k = Some v" for k v
    proof -
      have "below_data (Data d) (''data.'' @ k) = Some v" using that by (simp add: below_data_def)
      then show ?thesis using d(3) by (metis domI map_le_def)
    qed
    then show ?thesis using d by blast
  qed
  note sl = save_loop_docs [OF assms(1) attempt_entries [OF assms(2,3)]]
  show ?thesis
  proof (cases rule: flush_cases [of s a exec bulk])
    case idle
    then show ?thesis by simp
  next
    case (saved x p)
    then show ?thesis using sl [OF saved(3) [unfolded saveBatch_def]] fields by (auto 4 3)
  next
    case (failed x p)
    then show ?thesis using sl [OF failed(3) [unfolded saveBatch_def]] fields by (auto 4 3)
  qed
qed

definition demo_both :: "demo_store saver" where
  "demo_both = demo_start\<lparr>batch := [5 \<mapsto> (demo_op ''new'')\<lparr>Both := True\<rparr>], store := (\<lambda>_. Map.empty, \<lambda>_. Map.empty, 0)\<rparr>"

lemma demo_mongo_laws: "mongo_laws demo_exec demo_bulk (fst \<circ> snd)"
  unfolding mongo_laws_def by (auto simp: demo_exec_def demo_bulk_def split: if_splits)

lemma demo_both_posted: "posted (flush demo_exec demo_bulk (demo_att 0) demo_both) = [] @ [[5]]"
  by (simp add: flush_def demo_both_def demo_start_def newSaver_def demo_att_def saveBatch_def save_loop.simps saveChunk_def
      demo_op_def chunkSize_def chunk_cmds_def Values_def demo_exec_def saveToDB_def db_models_def demo_bulk_def)

theorem reported_saves_are_durable_witness:
  "posted (flush demo_exec demo_bulk (demo_att 0) demo_both) = [[5]]
   \<and> (fst \<circ> snd) (store (flush demo_exec demo_bulk (demo_att 0) demo_both)) 5 ''data.TCBase'' = Some ''new''"
proof -
  have b: "batch demo_both = [5 \<mapsto> (demo_op ''new'')\<lparr>Both := True\<rparr>]" "posted demo_both = []"
    by (simp_all add: demo_both_def demo_start_def newSaver_def)
  have "batch_ok (batch demo_both)" "attempt_ok (demo_att 0) (batch demo_both)"
    by (simp_all add: b batch_ok_def attempt_ok_def demo_att_def is_order_def demo_op_def)
  from reported_saves_are_durable [OF demo_mongo_laws this]
  have "\<exists>d. batch demo_both 5 = Some d \<and> Both d \<and> (\<forall>k v. Data d k = Some v \<longrightarrow>
      (fst \<circ> snd) (store (flush demo_exec demo_bulk (demo_att 0) demo_both)) 5 (''data.'' @ k) = Some v)"
    by (simp add: demo_both_posted b)
  then show ?thesis using demo_both_posted by (simp add: b demo_op_def)
qed

end
