(* ===== verification/Logon.thy ===== *)
theory Logon
  imports Role Registry Saver
begin

text \<open>
  The logon service of the game server: \<^verbatim>\<open>login.go\<close>, \<^verbatim>\<open>event.go\<close>, \<^verbatim>\<open>load.go\<close>, \<^verbatim>\<open>handle.go\<close> and \<^verbatim>\<open>debug.go\<close> of
  \<^verbatim>\<open>src/internal/game/logon_service\<close>.  One goroutine owns the login data and handles the events of one
  channel; loaders and savers work beside it.  A send on a full channel blocks: the operation is then not
  enabled (\<^term>\<open>None\<close>).  Role objects are numbered in the order they are started.
\<close>

section \<open>State\<close>

datatype loginState = stateInit | stateOnline | statePending | stateKicking | stateOffline | stateCanDel

record loginData =
  ld_State :: loginState
  ld_StateTime :: int
  ld_Cache :: "string \<rightharpoonup> string"
  ld_LoginSeq :: u32

datatype logon_evt =
    EvtLogin S2SReqLogin
  | EvtDBLoaded S2SReqLogin "DataToSave option"
  | EvtReentry S2SReqLogin
  | EvtLogout DataToSave
  | EvtSaveRole DataToSave bool
  | EvtSaveSuccess "u64 list"

definition loadingGoCnt :: nat where "loadingGoCnt = 3"
definition saveGoCnt :: nat where "saveGoCnt = 3"

text \<open>
  \<open>ls_started\<close> lists the role objects that were started, \<open>ls_kicks\<close> the logins for which a goroutine was
  started that kicks the role and waits, \<open>ls_clear\<close> the messages to the account service about dropped roles.
\<close>

record 'x logon =
  ls_data :: "u64 \<rightharpoonup> loginData"
  ls_ops :: "logon_evt list"
  ls_load :: "S2SReqLogin list list"
  ls_save :: "'x saver list"
  ls_reg :: registry
  ls_started :: "role list"
  ls_kicks :: "S2SReqLogin list"
  ls_clear :: "(u64 \<times> u32) list"

definition logon_Start :: "(nat \<Rightarrow> nat) \<Rightarrow> 'x \<Rightarrow> 'x logon" where
  "logon_Start grow x = \<lparr>ls_data = Map.empty, ls_ops = [], ls_load = replicate loadingGoCnt [],
     ls_save = replicate saveGoCnt (newSaver grow x), ls_reg = NewRegistry, ls_started = [], ls_kicks = [], ls_clear = []\<rparr>"

definition setState :: "int \<Rightarrow> loginState \<Rightarrow> loginData \<Rightarrow> loginData" where
  "setState now st l = l\<lparr>ld_State := st, ld_StateTime := now\<rparr>"

section \<open>Posting\<close>

definition postEvent :: "logon_evt \<Rightarrow> 'x logon \<Rightarrow> 'x logon option" where
  "postEvent op m = (if length (ls_ops m) < opChanSize then Some (m\<lparr>ls_ops := ls_ops m @ [op]\<rparr>) else None)"

definition Login :: "S2SReqLogin \<Rightarrow> 'x logon \<Rightarrow> 'x logon option" where
  "Login msg m = postEvent (EvtLogin msg) m"

definition Logout :: "DataToSave \<Rightarrow> 'x logon \<Rightarrow> 'x logon option" where
  "Logout data m = postEvent (EvtLogout data) m"

definition SaveRole :: "DataToSave \<Rightarrow> bool \<Rightarrow> 'x logon \<Rightarrow> 'x logon \<times> bool" where
  "SaveRole data saveBoth m =
     (case postEvent (EvtSaveRole data saveBoth) m of Some m' \<Rightarrow> (m', True) | None \<Rightarrow> (m, False))"

definition postDBLoaded :: "S2SReqLogin \<Rightarrow> DataToSave option \<Rightarrow> 'x logon \<Rightarrow> 'x logon option" where
  "postDBLoaded login data m = postEvent (EvtDBLoaded login data) m"

definition postToLoad :: "S2SReqLogin \<Rightarrow> 'x logon \<Rightarrow> 'x logon option" where
  "postToLoad op m =
     (let idx = unat (lg_RoleID op) mod loadingGoCnt
      in if length (ls_load m ! idx) < opChanSize then Some (m\<lparr>ls_load := (ls_load m)[idx := ls_load m ! idx @ [op]]\<rparr>) else None)"

definition set_cache :: "u64 \<Rightarrow> (string \<rightharpoonup> string) \<Rightarrow> (u64 \<rightharpoonup> loginData) \<Rightarrow> (u64 \<rightharpoonup> loginData)" where
  "set_cache i c dat = (case dat i of None \<Rightarrow> dat | Some l \<Rightarrow> dat(i \<mapsto> l\<lparr>ld_Cache := c\<rparr>))"

definition saveOne :: "opSaveData \<Rightarrow> 'x logon \<Rightarrow> 'x logon" where
  "saveOne p m =
     (let idx = unat (ID p) mod saveGoCnt;
          m1 = m\<lparr>ls_data := set_cache (ID p) (opSaveData.Data p) (ls_data m)\<rparr>
      in m1\<lparr>ls_save := (ls_save m1)[idx := post p (ls_save m1 ! idx)]\<rparr>)"

text \<open>\<open>saveMust\<close> waits while the saver's queue is full.\<close>

definition saveMust :: "opSaveData \<Rightarrow> 'x logon \<Rightarrow> 'x logon option" where
  "saveMust p m =
     (let idx = unat (ID p) mod saveGoCnt;
          m1 = m\<lparr>ls_data := set_cache (ID p) (opSaveData.Data p) (ls_data m)\<rparr>
      in case postMustSave 1 (\<lambda>_ sq. sq) p (q (ls_save m1 ! idx)) of
           None \<Rightarrow> None
         | Some (sq, _) \<Rightarrow> Some (m1\<lparr>ls_save := (ls_save m1)[idx := (ls_save m1 ! idx)\<lparr>q := sq\<rparr>]\<rparr>))"

section \<open>Handlers\<close>

definition roleOffline :: "int \<Rightarrow> DataToSave \<Rightarrow> 'x logon \<Rightarrow> 'x logon option" where
  "roleOffline now d m =
     (let dat = (case ls_data m (ds_RoleID d) of
                   None \<Rightarrow> ls_data m
                 | Some l \<Rightarrow> (ls_data m)(ds_RoleID d \<mapsto> setState now stateOffline l))
      in saveMust \<lparr>ID = ds_RoleID d, opSaveData.Data = ds_Data d, Both = False\<rparr> (m\<lparr>ls_data := dat\<rparr>))"

definition saveSuccess_one :: "int \<Rightarrow> u64 \<Rightarrow> (u64 \<rightharpoonup> loginData) \<Rightarrow> (u64 \<rightharpoonup> loginData)" where
  "saveSuccess_one now i dat =
     (case dat i of
        Some v \<Rightarrow> if ld_State v = stateOffline then dat(i \<mapsto> setState now stateCanDel v) else dat
      | None \<Rightarrow> dat)"

definition saveSuccess :: "int \<Rightarrow> u64 list \<Rightarrow> 'x logon \<Rightarrow> 'x logon" where
  "saveSuccess now ids m = m\<lparr>ls_data := fold (saveSuccess_one now) ids (ls_data m)\<rparr>"

definition Interval :: int where "Interval = 60 * 1"

definition cleanup_one :: "int \<Rightarrow> u64 \<Rightarrow> 'x logon \<Rightarrow> 'x logon" where
  "cleanup_one now k m =
     (case ls_data m k of
        None \<Rightarrow> m
      | Some v \<Rightarrow>
          let m1 = (if ld_State v = stateOffline \<and> now - ld_StateTime v > Interval
                    then saveOne \<lparr>ID = k, opSaveData.Data = ld_Cache v, Both = True\<rparr> m else m)
          in if ld_State v = stateCanDel \<and> now - ld_StateTime v > Interval
             then m1\<lparr>ls_clear := ls_clear m1 @ [(k, ld_LoginSeq v)], ls_data := (ls_data m1)(k := None)\<rparr>
             else m1)"

definition cleanup :: "int \<Rightarrow> u64 list \<Rightarrow> 'x logon \<Rightarrow> 'x logon" where
  "cleanup now ks m = fold (cleanup_one now) ks m"

definition back_offline :: "int \<Rightarrow> u64 \<Rightarrow> 'x logon \<Rightarrow> 'x logon" where
  "back_offline now i m =
     (case ls_data m i of None \<Rightarrow> m | Some v \<Rightarrow> m\<lparr>ls_data := (ls_data m)(i \<mapsto> setState now stateOffline v)\<rparr>)"

text \<open>
  \<open>initRole\<close>.  A nil \<open>data\<close>, and a role without login data, panic; \<open>onOps\<close> recovers and the state is as it was.
\<close>

definition initRole :: "json \<Rightarrow> time \<Rightarrow> DataToSave option \<Rightarrow> S2SReqLogin \<Rightarrow> 'x logon \<Rightarrow> 'x logon" where
  "initRole j now data login m =
     (case data of
        None \<Rightarrow> m
      | Some d \<Rightarrow>
          (case NewRole j now d login of
             None \<Rightarrow> back_offline (Unix now) (ds_RoleID d) m
           | Some r \<Rightarrow>
               if r_ID r \<noteq> lg_RoleID login then back_offline (Unix now) (ds_RoleID d) m
               else (case ls_data m (r_ID r) of
                       None \<Rightarrow> m
                     | Some v \<Rightarrow>
                         m\<lparr>ls_data := (ls_data m)(r_ID r \<mapsto> setState (Unix now) stateOnline (v\<lparr>ld_Cache := ds_Data d, ld_LoginSeq := lg_Seq login\<rparr>)),
                           ls_reg := Register (r_ID r) (r_SesID r) (length (ls_started m)) (ls_reg m),
                           ls_started := ls_started m @ [r]\<rparr>)))"

definition handleReentry :: "int \<Rightarrow> S2SReqLogin \<Rightarrow> 'x logon \<Rightarrow> 'x logon" where
  "handleReentry now p m =
     (case ls_data m (lg_RoleID p) of
        None \<Rightarrow> m
      | Some v \<Rightarrow> m\<lparr>ls_data := (ls_data m)(lg_RoleID p \<mapsto> setState now stateKicking v), ls_kicks := ls_kicks m @ [p]\<rparr>)"

definition StateTimeOut :: int where "StateTimeOut = 10"

definition opSignIn :: "json \<Rightarrow> time \<Rightarrow> S2SReqLogin \<Rightarrow> 'x logon \<Rightarrow> 'x logon option" where
  "opSignIn j now login m =
     (let i = lg_RoleID login;
          v = (case ls_data m i of None \<Rightarrow> \<lparr>ld_State = stateInit, ld_StateTime = 0, ld_Cache = Map.empty, ld_LoginSeq = 0\<rparr> | Some v \<Rightarrow> v);
          m1 = m\<lparr>ls_data := (ls_data m)(i \<mapsto> v)\<rparr>;
          pend = (\<lambda>m. m\<lparr>ls_data := (ls_data m)(i \<mapsto> setState (Unix now) statePending v)\<rparr>)
      in (case ld_State v of
            stateOnline \<Rightarrow> Some (handleReentry (Unix now) login m1)
          | stateOffline \<Rightarrow> Some (initRole j now (Some \<lparr>ds_RoleID = i, ds_Data = ld_Cache v\<rparr>) login m1)
          | stateCanDel \<Rightarrow> Some (initRole j now (Some \<lparr>ds_RoleID = i, ds_Data = ld_Cache v\<rparr>) login m1)
          | statePending \<Rightarrow>
              if Unix now - ld_StateTime v < StateTimeOut then Some m1
              else map_option pend (postToLoad login m1)
          | stateKicking \<Rightarrow> Some m1
          | stateInit \<Rightarrow> postToLoad login (pend m1)))"

definition opReentry :: "json \<Rightarrow> time \<Rightarrow> S2SReqLogin \<Rightarrow> 'x logon \<Rightarrow> 'x logon" where
  "opReentry j now login m =
     (case ls_data m (lg_RoleID login) of
        None \<Rightarrow> m
      | Some v \<Rightarrow> initRole j now (Some \<lparr>ds_RoleID = lg_RoleID login, ds_Data = ld_Cache v\<rparr>) login m)"

fun onOps :: "json \<Rightarrow> time \<Rightarrow> logon_evt \<Rightarrow> 'x logon \<Rightarrow> 'x logon option" where
  "onOps j now (EvtLogin login) m = opSignIn j now login m"
| "onOps j now (EvtDBLoaded login data) m = Some (initRole j now data login m)"
| "onOps j now (EvtReentry login) m = Some (opReentry j now login m)"
| "onOps j now (EvtLogout d) m = roleOffline (Unix now) d m"
| "onOps j now (EvtSaveRole d both) m = Some (saveOne \<lparr>ID = ds_RoleID d, opSaveData.Data = ds_Data d, Both = both\<rparr> m)"
| "onOps j now (EvtSaveSuccess ids) m = Some (saveSuccess (Unix now) ids m)"

text \<open>The loop's first case: take the next event from the channel.\<close>

definition run_op :: "json \<Rightarrow> time \<Rightarrow> 'x logon \<Rightarrow> 'x logon option" where
  "run_op j now m = (case ls_ops m of [] \<Rightarrow> None | e # es \<Rightarrow> onOps j now e (m\<lparr>ls_ops := es\<rparr>))"

text \<open>After the context is cancelled: the events still in the channel, then the savers are closed.\<close>

fun drainOps :: "json \<Rightarrow> time \<Rightarrow> nat \<Rightarrow> 'x logon \<Rightarrow> 'x logon option" where
  "drainOps j now 0 m = (if ls_ops m = [] then Some m else None)"
| "drainOps j now (Suc n) m = (if ls_ops m = [] then Some m else Option.bind (run_op j now m) (drainOps j now n))"

fun close_savers :: "'x saver list \<Rightarrow> 'x saver list option" where
  "close_savers [] = Some []"
| "close_savers (s # ss) = do { s' \<leftarrow> saver_close s; ss' \<leftarrow> close_savers ss; Some (s' # ss') }"

definition run_exit :: "json \<Rightarrow> time \<Rightarrow> nat \<Rightarrow> 'x logon \<Rightarrow> 'x logon option" where
  "run_exit j now n m =
     do { m1 \<leftarrow> drainOps j now n m; ss \<leftarrow> close_savers (ls_save m1); Some (m1\<lparr>ls_save := ss\<rparr>) }"

section \<open>Loading\<close>

text \<open>
  \<open>hgetall\<close> is the pipeline of \<open>HGETALL\<close>s (\<^term>\<open>None\<close>: an error), \<open>mfind\<close> the query of the collection for the ids.
  A stored document has the field \<open>id\<close> and the fields below \<open>data\<close>; \<open>doc_roleid\<close> is its field \<open>roleid\<close>, if it has one.
\<close>

record role_doc =
  doc_id :: u64
  doc_roleid :: "u64 option"
  doc_data :: "string \<rightharpoonup> string"

text \<open>\<open>cursor.All\<close> into \<open>DataToSave\<close>, which has no field tags: the keys are the lower-cased field names.\<close>

definition decode_doc :: "role_doc \<Rightarrow> DataToSave" where
  "decode_doc d = \<lparr>ds_RoleID = (case doc_roleid d of None \<Rightarrow> 0 | Some i \<Rightarrow> i), ds_Data = doc_data d\<rparr>"

definition newRoleDBData :: "json \<Rightarrow> u64 \<Rightarrow> DataToSave option" where
  "newRoleDBData j roleID =
     map_option (\<lambda>s. DataToSave_Set TCBase s \<lparr>ds_RoleID = roleID, ds_Data = Map.empty\<rparr>)
       (j_marshal_role j (RoleData_zero\<lparr>rd_ID := roleID, rd_Name := itoa (unat roleID), rd_Level := 1\<rparr>))"

definition loadFromDBBatch ::
    "json \<Rightarrow> (u64 list \<Rightarrow> role_doc list option) \<Rightarrow> S2SReqLogin list \<Rightarrow> (S2SReqLogin \<times> DataToSave option) list" where
  "loadFromDBBatch j mfind bt =
     (case mfind (map lg_RoleID bt) of
        None \<Rightarrow> []
      | Some ds \<Rightarrow>
          let result = fold (\<lambda>r m. m(ds_RoleID r \<mapsto> r)) (map decode_doc ds) Map.empty
          in map (\<lambda>op. (op, case result (lg_RoleID op) of Some r \<Rightarrow> Some r | None \<Rightarrow> newRoleDBData j (lg_RoleID op))) bt)"

definition loadBatch ::
    "json \<Rightarrow> (string list \<Rightarrow> (string \<rightharpoonup> string) list option) \<Rightarrow> (u64 list \<Rightarrow> role_doc list option)
      \<Rightarrow> S2SReqLogin list \<Rightarrow> (S2SReqLogin \<times> DataToSave option) list" where
  "loadBatch j hgetall mfind bt =
     (case hgetall (map (\<lambda>op. KeyRole (lg_RoleID op)) bt) of
        None \<Rightarrow> []
      | Some cmd \<Rightarrow>
          let hit = filter (\<lambda>(op, dat). dat \<noteq> Map.empty) (zip bt cmd);
              miss = map fst (filter (\<lambda>(op, dat). dat = Map.empty) (zip bt cmd))
          in map (\<lambda>(op, dat). (op, Some \<lparr>ds_RoleID = lg_RoleID op, ds_Data = dat\<rparr>)) hit
             @ (if miss \<noteq> [] then loadFromDBBatch j mfind miss else []))"

record loader =
  lo_loading :: "S2SReqLogin list"
  lo_batch :: "S2SReqLogin list"

definition load_batchSize :: nat where "load_batchSize = 100"

definition loader_flush ::
    "json \<Rightarrow> (string list \<Rightarrow> (string \<rightharpoonup> string) list option) \<Rightarrow> (u64 list \<Rightarrow> role_doc list option)
      \<Rightarrow> loader \<Rightarrow> loader \<times> (S2SReqLogin \<times> DataToSave option) list" where
  "loader_flush j hgetall mfind l =
     (if lo_batch l \<noteq> [] then (l\<lparr>lo_batch := []\<rparr>, loadBatch j hgetall mfind (lo_batch l)) else (l, []))"

definition loader_recv ::
    "json \<Rightarrow> (string list \<Rightarrow> (string \<rightharpoonup> string) list option) \<Rightarrow> (u64 list \<Rightarrow> role_doc list option)
      \<Rightarrow> loader \<Rightarrow> (loader \<times> (S2SReqLogin \<times> DataToSave option) list) option" where
  "loader_recv j hgetall mfind l =
     (case lo_loading l of
        [] \<Rightarrow> None
      | p # ps \<Rightarrow>
          let l1 = l\<lparr>lo_loading := ps, lo_batch := lo_batch l @ [p]\<rparr>
          in Some (if length (lo_batch l1) \<ge> load_batchSize then loader_flush j hgetall mfind l1 else (l1, [])))"

section \<open>The service implements the role's interface\<close>

text \<open>The save requests waiting in the channel.\<close>

fun save_data :: "logon_evt \<Rightarrow> DataToSave option" where
  "save_data (EvtSaveRole d b) = Some d"
| "save_data _ = None"

definition waiting_saves :: "'x logon \<Rightarrow> DataToSave list" where
  "waiting_saves m = List.map_filter save_data (ls_ops m)"

interpretation svc: login_mgr SaveRole waiting_saves
proof
  fix d b and w w' :: "'a logon"
  show "SaveRole d b w = (w', True) \<Longrightarrow> waiting_saves w' = waiting_saves w @ [d]"
    by (auto simp: SaveRole_def postEvent_def waiting_saves_def map_filter_def split: if_splits)
  show "SaveRole d b w = (w', False) \<Longrightarrow> w' = w"
    by (auto simp: SaveRole_def postEvent_def split: if_splits)
qed


definition logon_env :: "unit logon role_env" where
  "logon_env = \<lparr>env_Logout = \<lambda>d m. case Logout d m of Some m' \<Rightarrow> m' | None \<Rightarrow> m, env_SaveRole = SaveRole,
     env_Unregister = \<lambda>i s m. m\<lparr>ls_reg := Unregister i s (ls_reg m)\<rparr>, env_send = \<lambda>_ m. m, env_Cancel = id, env_CtxErr = \<lambda>_. False\<rparr>"


section \<open>Handing a role over to a new session\<close>

fun run_evts :: "json \<Rightarrow> (time \<times> logon_evt) list \<Rightarrow> 'x logon \<Rightarrow> 'x logon option" where
  "run_evts j [] m = Some m"
| "run_evts j ((t, e) # es) m = Option.bind (onOps j t e m) (run_evts j es)"

lemma run_evts_append: "run_evts j (es @ es') m = Option.bind (run_evts j es m) (run_evts j es')"
  by (induction es arbitrary: m) (auto split: bind_splits)

text \<open>The role ids an event is about; a report of saved roles changes states only.\<close>

fun evt_ids :: "logon_evt \<Rightarrow> u64 set" where
  "evt_ids (EvtLogin l) = {lg_RoleID l}"
| "evt_ids (EvtDBLoaded l d) = {lg_RoleID l} \<union> (case d of None \<Rightarrow> {} | Some d \<Rightarrow> {ds_RoleID d})"
| "evt_ids (EvtReentry l) = {lg_RoleID l}"
| "evt_ids (EvtLogout d) = {ds_RoleID d}"
| "evt_ids (EvtSaveRole d b) = {ds_RoleID d}"
| "evt_ids (EvtSaveSuccess ids) = {}"

definition cache_of :: "'x logon \<Rightarrow> u64 \<Rightarrow> (string \<rightharpoonup> string) option" where
  "cache_of m i = map_option ld_Cache (ls_data m i)"

lemma NewRole_ID: "NewRole j now d l = Some r \<Longrightarrow> r_ID r = ds_RoleID d \<and> r_SesID r = lg_SesID l"
  by (auto simp: NewRole_def SetDirty_def Let_def bind_eq_Some_conv split: if_splits)

lemma cache_postToLoad: "postToLoad l m = Some m' \<Longrightarrow> ls_data m' = ls_data m \<and> ls_reg m' = ls_reg m \<and> ls_started m' = ls_started m"
  by (auto simp: postToLoad_def Let_def split: if_splits)

lemma cache_initRole:
  assumes "\<forall>d. data = Some d \<longrightarrow> ds_RoleID d \<noteq> i"
  shows "cache_of (initRole j now data l m) i = cache_of m i"
proof (cases data)
  case None
  then show ?thesis by (simp add: initRole_def)
next
  case (Some d)
  then have i: "ds_RoleID d \<noteq> i" using assms by simp
  show ?thesis
  proof (cases "NewRole j now d l")
    case None
    then show ?thesis using Some i by (simp add: initRole_def back_offline_def cache_of_def split: option.split)
  next
    case (Some r)
    then have "r_ID r \<noteq> i" using NewRole_ID [OF Some] i by simp
    then show ?thesis using \<open>data = Some d\<close> Some i by (auto simp: initRole_def back_offline_def cache_of_def split: option.split)
  qed
qed

lemma cache_saves:
  "ID p \<noteq> i \<Longrightarrow> cache_of (saveOne p m) i = cache_of m i"
  "ID p \<noteq> i \<Longrightarrow> saveMust p m = Some m' \<Longrightarrow> cache_of m' i = cache_of m i"
  by (auto simp: saveOne_def saveMust_def cache_of_def set_cache_def Let_def split: option.splits prod.splits)

lemma cache_saveSuccess: "cache_of (saveSuccess now ids m) i = cache_of m i"
proof -
  have one: "map_option ld_Cache (saveSuccess_one now k dat i) = map_option ld_Cache (dat i)" for k dat
    by (auto simp: saveSuccess_one_def setState_def split: option.split)
  have "map_option ld_Cache (fold (saveSuccess_one now) ids dat i) = map_option ld_Cache (dat i)" for dat
    by (induction ids arbitrary: dat) (simp_all add: one)
  then show ?thesis by (simp add: cache_of_def saveSuccess_def)
qed

lemma cache_opSignIn:
  assumes "lg_RoleID l \<noteq> i" "opSignIn j now l m = Some m'"
  shows "cache_of m' i = cache_of m i"
proof -
  let ?k = "lg_RoleID l"
  define v where "v = (case ls_data m ?k of None \<Rightarrow> \<lparr>ld_State = stateInit, ld_StateTime = 0, ld_Cache = Map.empty, ld_LoginSeq = 0\<rparr> | Some v \<Rightarrow> v)"
  define m1 where "m1 = m\<lparr>ls_data := (ls_data m)(?k \<mapsto> v)\<rparr>"
  have m1: "cache_of m1 i = cache_of m i" using assms(1) by (simp add: m1_def cache_of_def)
  have ini: "cache_of (initRole j now (Some \<lparr>ds_RoleID = ?k, ds_Data = c\<rparr>) l m1) i = cache_of m i" for c
    using cache_initRole [of "Some \<lparr>ds_RoleID = ?k, ds_Data = c\<rparr>" i j now l m1] assms(1) m1 by simp
  have pend: "cache_of (m2\<lparr>ls_data := (ls_data m2)(?k \<mapsto> u)\<rparr>) i = cache_of m2 i" for m2 :: "'a logon" and u
    using assms(1) by (simp add: cache_of_def)
  have load: "postToLoad l m2 = Some m3 \<Longrightarrow> cache_of m3 i = cache_of m2 i" for m2 m3 :: "'a logon"
    by (simp add: cache_of_def cache_postToLoad)
  note unf = assms(2) [unfolded opSignIn_def Let_def, folded v_def, folded m1_def]
  show ?thesis
  proof (cases "ld_State v")
    case stateInit
    then show ?thesis using unf load pend m1 by simp
  next
    case stateOnline
    then show ?thesis using unf m1 assms(1) by (auto simp: handleReentry_def cache_of_def split: option.splits)
  next
    case statePending
    then show ?thesis using unf load pend m1 by (auto split: if_splits)
  next
    case stateKicking
    then show ?thesis using unf m1 by simp
  next
    case stateOffline
    then show ?thesis using unf ini by auto
  next
    case stateCanDel
    then show ?thesis using unf ini by auto
  qed
qed

lemma cache_onOps:
  assumes "i \<notin> evt_ids e" "onOps j now e m = Some m'"
  shows "cache_of m' i = cache_of m i"
proof (cases e)
  case (EvtLogin l)
  then show ?thesis using cache_opSignIn [of l i j now m m'] assms by simp
next
  case (EvtDBLoaded l d)
  then have "\<forall>d'. d = Some d' \<longrightarrow> ds_RoleID d' \<noteq> i" using assms(1) by auto
  then show ?thesis using cache_initRole [of d i j now l m] assms(2) EvtDBLoaded by simp
next
  case (EvtReentry l)
  then have i: "lg_RoleID l \<noteq> i" using assms(1) by auto
  show ?thesis
    using cache_initRole [of "Some \<lparr>ds_RoleID = lg_RoleID l, ds_Data = c\<rparr>" i j now l m for c] i assms(2) EvtReentry
    by (auto simp: opReentry_def split: option.splits)
next
  case (EvtLogout d)
  then have i: "ds_RoleID d \<noteq> i" and r: "roleOffline (Unix now) d m = Some m'" using assms by auto
  define dat where "dat = (case ls_data m (ds_RoleID d) of None \<Rightarrow> ls_data m
      | Some l \<Rightarrow> (ls_data m)(ds_RoleID d \<mapsto> setState (Unix now) stateOffline l))"
  have "cache_of (m\<lparr>ls_data := dat\<rparr>) i = cache_of m i" using i by (simp add: dat_def cache_of_def split: option.split)
  moreover have "saveMust \<lparr>ID = ds_RoleID d, opSaveData.Data = ds_Data d, Both = False\<rparr> (m\<lparr>ls_data := dat\<rparr>) = Some m'"
    using r by (simp add: roleOffline_def Let_def dat_def)
  ultimately show ?thesis using cache_saves(2) [of "\<lparr>ID = ds_RoleID d, opSaveData.Data = ds_Data d, Both = False\<rparr>" i _ m'] i by simp
next
  case (EvtSaveRole d b)
  then show ?thesis using cache_saves(1) [of _ i m] assms by auto
next
  case (EvtSaveSuccess ids)
  then show ?thesis using cache_saveSuccess assms by auto
qed

lemma cache_run_evts: "\<forall>(t, e) \<in> set es. i \<notin> evt_ids e \<Longrightarrow> run_evts j es m = Some m' \<Longrightarrow> cache_of m' i = cache_of m i"
proof (induction es arbitrary: m)
  case Nil
  then show ?case by simp
next
  case (Cons te es)
  obtain t e where te: "te = (t, e)" by fastforce
  then obtain m1 where m1: "onOps j t e m = Some m1" "run_evts j es m1 = Some m'" using Cons.prems(2) by (auto simp: bind_eq_Some_conv)
  have "cache_of m1 i = cache_of m i" using cache_onOps [OF _ m1(1)] Cons.prems(1) te by auto
  then show ?case using Cons.IH [OF _ m1(2)] Cons.prems(1) by simp
qed

text \<open>
  C20. A kicked session hands its data over.  When the login goroutine handles the logout of a role
  and later the re-entry of a new session for it, with only events of other roles and reports of saves in
  between, the new role object is started from exactly the data the old session logged out with, it is the
  one registered for the role, and the role is online.
\<close>

theorem kicked_session_hands_over:
  assumes run: "run_evts j ((t0, EvtLogout d) # es @ [(t1, EvtReentry l)]) m = Some m'"
    and ids: "ds_RoleID d = i" "lg_RoleID l = i" "ls_data m i \<noteq> None" "\<forall>(t, e) \<in> set es. i \<notin> evt_ids e"
    and new: "NewRole j t1 \<lparr>ds_RoleID = i, ds_Data = ds_Data d\<rparr> l = Some r"
  shows "\<exists>m1 v. run_evts j ((t0, EvtLogout d) # es) m = Some m1 \<and> ls_started m' = ls_started m1 @ [r]
     \<and> ls_reg m' = Register i (lg_SesID l) (length (ls_started m1)) (ls_reg m1)
     \<and> ls_data m' i = Some v \<and> ld_State v = stateOnline \<and> ld_Cache v = ds_Data d"
proof -
  obtain m0 where m0: "roleOffline (Unix t0) d m = Some m0" using run by (auto simp: bind_eq_Some_conv)
  obtain m1 where m1: "run_evts j es m0 = Some m1" "run_evts j [(t1, EvtReentry l)] m1 = Some m'"
    using run m0 by (auto simp: run_evts_append bind_eq_Some_conv)
  have "cache_of m0 i = Some (ds_Data d)"
    using m0 ids(1,3) by (auto simp: roleOffline_def saveMust_def Let_def cache_of_def set_cache_def setState_def split: option.splits prod.splits)
  then have "cache_of m1 i = Some (ds_Data d)" using cache_run_evts [OF ids(4) m1(1)] by simp
  then obtain v where v: "ls_data m1 i = Some v" "ld_Cache v = ds_Data d" by (auto simp: cache_of_def)
  have "m' = initRole j t1 (Some \<lparr>ds_RoleID = i, ds_Data = ds_Data d\<rparr>) l m1"
    using m1(2) v by (simp add: opReentry_def ids(2))
  moreover have "run_evts j ((t0, EvtLogout d) # es) m = Some m1" using m0 m1(1) by simp
  moreover note NewRole_ID [OF new]
  ultimately show ?thesis using new v ids(2) by (auto simp: initRole_def setState_def)
qed

definition demo_saved :: DataToSave where
  "demo_saved = \<lparr>ds_RoleID = 7, ds_Data = [''TCBase'' \<mapsto> ''{7}'']\<rparr>"

definition demo_new :: "u64 \<Rightarrow> role" where
  "demo_new ses = \<lparr>r_ID = 7, r_SesID = ses, r_Comps = Create (replicate TCMax None), r_Data = Some demo_rd, r_CliInfo = '''', r_ConnectAcc = [],
     r_nowSec = 0, r_lastSaveRedis = zero_time, r_lastSaveDB = zero_time, r_lastMinute = zero_time, r_LastHeartbeat = zero_time,
     r_HeartbeatTimeOut = 0, r_dirty = False\<rparr>"

lemma demo_NewRole: "NewRole demo_json t \<lparr>ds_RoleID = 7, ds_Data = [''TCBase'' \<mapsto> ''{7}'']\<rparr> (demo_login ses) = Some (demo_new ses)"
  by (simp add: NewRole_def DataToSave_Get_def TCBase_def demo_json_def Create_eq Let_def demo_rd_def demo_login_def demo_new_def
      RoleData_zero_def GetCompName_def TypeComp_name_def)

lemma push_new: "postMustSave 1 (\<lambda>_ sq. sq) p (q (newSaver grow x)) \<noteq> None"
  by (simp add: newSaver_def NewSwapQueue_def Push_def pushData_def opChanSize_def split: prod.split)

theorem kicked_session_hands_over_witness:
  "\<exists>m' v. run_evts demo_json ((0, EvtLogout demo_saved) # [(0, EvtSaveSuccess [7])] @ [(0, EvtReentry (demo_login 900))])
       ((logon_Start Suc ())\<lparr>ls_data := [7 \<mapsto> \<lparr>ld_State = stateKicking, ld_StateTime = 0, ld_Cache = Map.empty, ld_LoginSeq = 1\<rparr>]\<rparr>) = Some m'
     \<and> ls_started m' = [demo_new 900] \<and> ls_data m' 7 = Some v \<and> ld_Cache v = [''TCBase'' \<mapsto> ''{7}'']"
proof -
  let ?m = "(logon_Start Suc ())\<lparr>ls_data := [7 \<mapsto> \<lparr>ld_State = stateKicking, ld_StateTime = 0, ld_Cache = Map.empty, ld_LoginSeq = 1\<rparr>]\<rparr>"
  have nx: "replicate saveGoCnt (newSaver Suc ()) ! (7 mod saveGoCnt) = newSaver Suc ()" by (simp add: saveGoCnt_def)
  obtain sq b where pm: "postMustSave 1 (\<lambda>_ sq. sq) \<lparr>ID = 7, opSaveData.Data = [''TCBase'' \<mapsto> ''{7}''], Both = False\<rparr> (q (newSaver Suc ())) = Some (sq, b)"
    using push_new by (metis option.exhaust surj_pair)
  obtain m1 where m1: "roleOffline (Unix 0) demo_saved ?m = Some m1" "ls_started m1 = []"
    using pm nx by (simp add: roleOffline_def saveMust_def demo_saved_def logon_Start_def Let_def)
  have "\<exists>m'. run_evts demo_json ((0, EvtLogout demo_saved) # [(0, EvtSaveSuccess [7])] @ [(0, EvtReentry (demo_login 900))]) ?m = Some m'"
    using m1 by simp
  then obtain m' where run: "run_evts demo_json ((0, EvtLogout demo_saved) # [(0, EvtSaveSuccess [7])] @ [(0, EvtReentry (demo_login 900))]) ?m = Some m'" by blast
  from kicked_session_hands_over [OF run, of 7 "demo_new 900"] m1 show ?thesis
    using run by (auto simp: demo_saved_def demo_login_def demo_NewRole [unfolded demo_login_def] saveSuccess_def)
qed

section \<open>Goroutines of the game server\<close>

text \<open>
  The login goroutine, the role goroutines, the goroutines that kick a role and wait for it, and the loaders,
  as a transition system.  A role goroutine that leaves its loop runs \<open>Offline\<close> in three steps that other goroutines
  see: it leaves the registry, posts its logout, and is done.  \<open>hist\<close> records every event posted to the channel with the
  role object it came from: for a logout the role object, for a re-entry the object that was waited for.
\<close>

datatype phase = Running | Unregistered | LoggedOut | Gone

datatype kicker = KStart S2SReqLogin | KWait S2SReqLogin addr | KNone S2SReqLogin | KPosted

record 'x sys =
  sy_svc :: "'x logon"
  sy_phases :: "phase list"
  sy_kickers :: "kicker list"
  sy_hist :: "(logon_evt \<times> addr option) list"

definition sys_init :: "(nat \<Rightarrow> nat) \<Rightarrow> 'x \<Rightarrow> 'x sys" where
  "sys_init grow x = \<lparr>sy_svc = logon_Start grow x, sy_phases = [], sy_kickers = [], sy_hist = []\<rparr>"

datatype sys_cmd =
    DoLogin S2SReqLogin
  | DoOp time
  | DoCleanup int "u64 list"
  | DoUnregister addr
  | DoLogout addr DataToSave
  | DoDone addr
  | DoSave addr DataToSave bool
  | DoKick nat
  | DoReentry nat
  | DoLoad nat "(string \<rightharpoonup> string)"
  | DoSaved "u64 list"

definition sys_post :: "logon_evt \<Rightarrow> addr option \<Rightarrow> 'x sys \<Rightarrow> 'x sys option" where
  "sys_post e a s = map_option (\<lambda>svc. s\<lparr>sy_svc := svc, sy_hist := sy_hist s @ [(e, a)]\<rparr>) (postEvent e (sy_svc s))"

text \<open>After the login goroutine has run: the role objects it started run, the kickers it started start.\<close>

definition sys_sync :: "'x logon \<Rightarrow> 'x sys \<Rightarrow> 'x sys" where
  "sys_sync svc s =
     s\<lparr>sy_svc := svc\<lparr>ls_kicks := []\<rparr>,
       sy_phases := sy_phases s @ replicate (length (ls_started svc) - length (sy_phases s)) Running,
       sy_kickers := sy_kickers s @ map KStart (ls_kicks svc)\<rparr>"

fun sys_do :: "json \<Rightarrow> sys_cmd \<Rightarrow> 'x sys \<Rightarrow> 'x sys option" where
  "sys_do j (DoLogin l) s = sys_post (EvtLogin l) None s"
| "sys_do j (DoOp now) s = map_option (\<lambda>svc. sys_sync svc s) (run_op j now (sy_svc s))"
| "sys_do j (DoCleanup now ks) s = Some (s\<lparr>sy_svc := cleanup now ks (sy_svc s)\<rparr>)"
| "sys_do j (DoUnregister a) s =
     (if a < length (sy_phases s) \<and> sy_phases s ! a = Running
      then let r = ls_started (sy_svc s) ! a
           in Some (s\<lparr>sy_svc := (sy_svc s)\<lparr>ls_reg := Unregister (r_ID r) (r_SesID r) (ls_reg (sy_svc s))\<rparr>,
                      sy_phases := (sy_phases s)[a := Unregistered]\<rparr>)
      else None)"
| "sys_do j (DoLogout a d) s =
     (if a < length (sy_phases s) \<and> sy_phases s ! a = Unregistered \<and> ds_RoleID d = r_ID (ls_started (sy_svc s) ! a)
      then sys_post (EvtLogout d) (Some a) (s\<lparr>sy_phases := (sy_phases s)[a := LoggedOut]\<rparr>)
      else None)"
| "sys_do j (DoDone a) s =
     (if a < length (sy_phases s) \<and> sy_phases s ! a = LoggedOut then Some (s\<lparr>sy_phases := (sy_phases s)[a := Gone]\<rparr>) else None)"
| "sys_do j (DoSave a d b) s =
     (if a < length (sy_phases s) \<and> sy_phases s ! a = Running \<and> ds_RoleID d = r_ID (ls_started (sy_svc s) ! a)
      then sys_post (EvtSaveRole d b) None s else None)"
| "sys_do j (DoKick k) s =
     (if k < length (sy_kickers s)
      then case sy_kickers s ! k of
             KStart l \<Rightarrow> Some (s\<lparr>sy_kickers := (sy_kickers s)[k := case reg_get (lg_RoleID l) (ls_reg (sy_svc s)) of None \<Rightarrow> KNone l | Some a \<Rightarrow> KWait l a]\<rparr>)
           | _ \<Rightarrow> None
      else None)"
| "sys_do j (DoReentry k) s =
     (if k < length (sy_kickers s)
      then case sy_kickers s ! k of
             KWait l a \<Rightarrow> if a < length (sy_phases s) \<and> sy_phases s ! a = Gone
                          then sys_post (EvtReentry l) (Some a) (s\<lparr>sy_kickers := (sy_kickers s)[k := KPosted]\<rparr>) else None
           | KNone l \<Rightarrow> sys_post (EvtReentry l) None (s\<lparr>sy_kickers := (sy_kickers s)[k := KPosted]\<rparr>)
           | _ \<Rightarrow> None
      else None)"
| "sys_do j (DoLoad k c) s =
     (if k < length (ls_load (sy_svc s)) \<and> ls_load (sy_svc s) ! k \<noteq> []
      then let l = hd (ls_load (sy_svc s) ! k)
           in sys_post (EvtDBLoaded l (Some \<lparr>ds_RoleID = lg_RoleID l, ds_Data = c\<rparr>)) None
                (s\<lparr>sy_svc := (sy_svc s)\<lparr>ls_load := (ls_load (sy_svc s))[k := tl (ls_load (sy_svc s) ! k)]\<rparr>\<rparr>)
      else None)"
| "sys_do j (DoSaved ids) s = sys_post (EvtSaveSuccess ids) None s"

fun sys_run :: "json \<Rightarrow> sys_cmd list \<Rightarrow> 'x sys \<Rightarrow> 'x sys option" where
  "sys_run j [] s = Some s"
| "sys_run j (c # cs) s = Option.bind (sys_do j c s) (sys_run j cs)"

text \<open>What handling an event does to the registry and the role objects: nothing, or one new object is registered.\<close>

definition grew :: "'x logon \<Rightarrow> 'x logon \<Rightarrow> bool" where
  "grew m m' \<longleftrightarrow> ls_ops m' = ls_ops m \<and>
     (ls_reg m' = ls_reg m \<and> ls_started m' = ls_started m
      \<or> (\<exists>r. ls_started m' = ls_started m @ [r] \<and> ls_reg m' = Register (r_ID r) (r_SesID r) (length (ls_started m)) (ls_reg m)))"

lemma grew_same: "ls_ops m' = ls_ops m \<Longrightarrow> ls_reg m' = ls_reg m \<Longrightarrow> ls_started m' = ls_started m \<Longrightarrow> grew m m'"
  by (simp add: grew_def)

lemma grew_initRole:
  assumes "ls_ops m1 = ls_ops m" "ls_reg m1 = ls_reg m" "ls_started m1 = ls_started m"
  shows "grew m (initRole j now data l m1)"
  using assms by (auto simp: initRole_def back_offline_def grew_def split: option.split)

lemma postToLoad_frame: "postToLoad l m = Some m' \<Longrightarrow> ls_ops m' = ls_ops m \<and> ls_reg m' = ls_reg m \<and> ls_started m' = ls_started m"
  by (auto simp: postToLoad_def Let_def split: if_splits)

lemma grew_opSignIn:
  assumes "opSignIn j now l m = Some m'"
  shows "grew m m'"
proof -
  let ?k = "lg_RoleID l"
  define v where "v = (case ls_data m ?k of None \<Rightarrow> \<lparr>ld_State = stateInit, ld_StateTime = 0, ld_Cache = Map.empty, ld_LoginSeq = 0\<rparr> | Some v \<Rightarrow> v)"
  define m1 where "m1 = m\<lparr>ls_data := (ls_data m)(?k \<mapsto> v)\<rparr>"
  have m1: "ls_ops m1 = ls_ops m" "ls_reg m1 = ls_reg m" "ls_started m1 = ls_started m" by (simp_all add: m1_def)
  note unf = assms [unfolded opSignIn_def Let_def, folded v_def, folded m1_def]
  show ?thesis
  proof (cases "ld_State v")
    case stateInit
    then show ?thesis using unf m1 by (auto dest!: postToLoad_frame intro: grew_same)
  next
    case stateOnline
    then show ?thesis using unf m1 by (auto simp: handleReentry_def intro!: grew_same split: option.splits)
  next
    case statePending
    then show ?thesis using unf m1 by (auto dest!: postToLoad_frame intro!: grew_same split: if_splits)
  next
    case stateKicking
    then show ?thesis using unf m1 by (auto intro: grew_same)
  next
    case stateOffline
    then show ?thesis using unf grew_initRole [OF m1] by auto
  next
    case stateCanDel
    then show ?thesis using unf grew_initRole [OF m1] by auto
  qed
qed

lemma grew_onOps: "onOps j now e m = Some m' \<Longrightarrow> grew m m'"
proof (cases e)
  case (EvtLogin l)
  then show "onOps j now e m = Some m' \<Longrightarrow> grew m m'" by (simp add: grew_opSignIn)
next
  case (EvtDBLoaded l d)
  then show "onOps j now e m = Some m' \<Longrightarrow> grew m m'" by (auto intro: grew_initRole)
next
  case (EvtReentry l)
  then show "onOps j now e m = Some m' \<Longrightarrow> grew m m'" by (auto simp: opReentry_def intro: grew_initRole grew_same split: option.splits)
next
  case (EvtLogout d)
  then show "onOps j now e m = Some m' \<Longrightarrow> grew m m'"
    by (auto simp: roleOffline_def saveMust_def Let_def intro!: grew_same split: option.splits prod.splits)
next
  case (EvtSaveRole d b)
  then show "onOps j now e m = Some m' \<Longrightarrow> grew m m'" by (auto simp: saveOne_def Let_def intro!: grew_same)
next
  case (EvtSaveSuccess ids)
  then show "onOps j now e m = Some m' \<Longrightarrow> grew m m'" by (auto simp: saveSuccess_def intro: grew_same)
qed

lemma cleanup_frame:
  "ls_ops (cleanup now ks m) = ls_ops m" "ls_reg (cleanup now ks m) = ls_reg m" "ls_started (cleanup now ks m) = ls_started m"
proof -
  have one: "ls_ops (cleanup_one now k m) = ls_ops m \<and> ls_reg (cleanup_one now k m) = ls_reg m \<and> ls_started (cleanup_one now k m) = ls_started m"
    for k and m :: "'a logon"
    by (simp add: cleanup_one_def saveOne_def Let_def split: option.split)
  show "ls_ops (cleanup now ks m) = ls_ops m" "ls_reg (cleanup now ks m) = ls_reg m" "ls_started (cleanup now ks m) = ls_started m"
    unfolding cleanup_def by (induction ks arbitrary: m) (simp_all add: one)
qed

section \<open>Invariant of the goroutines\<close>

definition logout_before :: "(logon_evt \<times> addr option) list \<Rightarrow> bool" where
  "logout_before h \<longleftrightarrow> (\<forall>h1 h2 l a. h = h1 @ (EvtReentry l, Some a) # h2 \<longrightarrow>
     (\<exists>d. (EvtLogout d, Some a) \<in> set h1 \<and> ds_RoleID d = lg_RoleID l))"

definition sys_ok :: "'x sys \<Rightarrow> bool" where
  "sys_ok s \<longleftrightarrow>
     length (sy_phases s) = length (ls_started (sy_svc s)) \<and> reg_ok (ls_reg (sy_svc s))
   \<and> (\<forall>i a. roles_of (ls_reg (sy_svc s)) i = Some a \<longrightarrow> a < length (sy_phases s) \<and> r_ID (ls_started (sy_svc s) ! a) = i)
   \<and> (\<forall>l a. KWait l a \<in> set (sy_kickers s) \<longrightarrow> a < length (sy_phases s) \<and> r_ID (ls_started (sy_svc s) ! a) = lg_RoleID l)
   \<and> (\<forall>a < length (sy_phases s). sy_phases s ! a \<in> {LoggedOut, Gone} \<longrightarrow>
        (\<exists>d. (EvtLogout d, Some a) \<in> set (sy_hist s) \<and> ds_RoleID d = r_ID (ls_started (sy_svc s) ! a)))
   \<and> logout_before (sy_hist s)
   \<and> (\<exists>n. ls_ops (sy_svc s) = drop n (map fst (sy_hist s)))"

lemma logout_before_snoc:
  assumes "logout_before h" "\<forall>l a. e = (EvtReentry l, Some a) \<longrightarrow> (\<exists>d. (EvtLogout d, Some a) \<in> set h \<and> ds_RoleID d = lg_RoleID l)"
  shows "logout_before (h @ [e])"
  unfolding logout_before_def
proof (intro allI impI)
  fix h1 h2 l a
  assume eq: "h @ [e] = h1 @ (EvtReentry l, Some a) # h2"
  show "\<exists>d. (EvtLogout d, Some a) \<in> set h1 \<and> ds_RoleID d = lg_RoleID l"
  proof (cases h2 rule: rev_cases)
    case Nil
    then have "h1 = h" "e = (EvtReentry l, Some a)" using eq by simp_all
    then show ?thesis using assms(2) by simp
  next
    case (snoc h2' x)
    then have "h = h1 @ (EvtReentry l, Some a) # h2'" using eq by simp
    then show ?thesis using assms(1) unfolding logout_before_def by blast
  qed
qed

lemma sys_okD:
  assumes "sys_ok s"
  shows "length (sy_phases s) = length (ls_started (sy_svc s))" "reg_ok (ls_reg (sy_svc s))"
    "roles_of (ls_reg (sy_svc s)) i = Some a \<Longrightarrow> a < length (sy_phases s) \<and> r_ID (ls_started (sy_svc s) ! a) = i"
    "KWait l a \<in> set (sy_kickers s) \<Longrightarrow> a < length (sy_phases s) \<and> r_ID (ls_started (sy_svc s) ! a) = lg_RoleID l"
    "a < length (sy_phases s) \<Longrightarrow> sy_phases s ! a \<in> {LoggedOut, Gone} \<Longrightarrow>
      \<exists>d. (EvtLogout d, Some a) \<in> set (sy_hist s) \<and> ds_RoleID d = r_ID (ls_started (sy_svc s) ! a)"
    "logout_before (sy_hist s)" "\<exists>n. ls_ops (sy_svc s) = drop n (map fst (sy_hist s))"
  using assms unfolding sys_ok_def by blast+

lemma sys_okI:
  assumes "length (sy_phases s) = length (ls_started (sy_svc s))" "reg_ok (ls_reg (sy_svc s))"
    "\<And>i a. roles_of (ls_reg (sy_svc s)) i = Some a \<Longrightarrow> a < length (sy_phases s) \<and> r_ID (ls_started (sy_svc s) ! a) = i"
    "\<And>l a. KWait l a \<in> set (sy_kickers s) \<Longrightarrow> a < length (sy_phases s) \<and> r_ID (ls_started (sy_svc s) ! a) = lg_RoleID l"
    "\<And>a. a < length (sy_phases s) \<Longrightarrow> sy_phases s ! a \<in> {LoggedOut, Gone} \<Longrightarrow>
      \<exists>d. (EvtLogout d, Some a) \<in> set (sy_hist s) \<and> ds_RoleID d = r_ID (ls_started (sy_svc s) ! a)"
    "logout_before (sy_hist s)" "ls_ops (sy_svc s) = drop n (map fst (sy_hist s))"
  shows "sys_ok s"
  using assms unfolding sys_ok_def by blast

lemma sys_ok_post:
  assumes ok: "sys_ok s" and p: "sys_post e a s = Some s'"
    and re: "\<forall>l b. e = EvtReentry l \<longrightarrow> a = Some b \<longrightarrow> (\<exists>d. (EvtLogout d, Some b) \<in> set (sy_hist s) \<and> ds_RoleID d = lg_RoleID l)"
  shows "sys_ok s'"
proof -
  have s': "s' = s\<lparr>sy_svc := (sy_svc s)\<lparr>ls_ops := ls_ops (sy_svc s) @ [e]\<rparr>, sy_hist := sy_hist s @ [(e, a)]\<rparr>"
    using p by (auto simp: sys_post_def postEvent_def split: if_splits)
  obtain n where n: "ls_ops (sy_svc s) = drop n (map fst (sy_hist s))" using sys_okD(7) [OF ok] by blast
  show ?thesis
  proof (rule sys_okI)
    show "ls_ops (sy_svc s') = drop (min n (length (sy_hist s))) (map fst (sy_hist s'))"
      by (cases "n \<le> length (sy_hist s)") (simp_all add: s' n min_def)
    show "logout_before (sy_hist s')"
      unfolding s' using logout_before_snoc [OF sys_okD(6) [OF ok], of "(e, a)"] re by simp
    show "\<exists>d. (EvtLogout d, Some b) \<in> set (sy_hist s') \<and> ds_RoleID d = r_ID (ls_started (sy_svc s') ! b)"
      if "b < length (sy_phases s')" "sy_phases s' ! b \<in> {LoggedOut, Gone}" for b
      using sys_okD(5) [OF ok, of b] that by (auto simp: s')
  qed (use sys_okD(1-4) [OF ok] in \<open>simp_all add: s'\<close>)
qed

lemma sys_ok_phase:
  assumes ok: "sys_ok s" and a: "a < length (sy_phases s)"
    and l: "p \<in> {LoggedOut, Gone} \<Longrightarrow> \<exists>d. (EvtLogout d, Some a) \<in> set (sy_hist s) \<and> ds_RoleID d = r_ID (ls_started (sy_svc s) ! a)"
  shows "sys_ok (s\<lparr>sy_phases := (sy_phases s)[a := p]\<rparr>)"
proof -
  have "\<exists>d. (EvtLogout d, Some b) \<in> set (sy_hist s) \<and> ds_RoleID d = r_ID (ls_started (sy_svc s) ! b)"
    if b: "b < length (sy_phases s)" "(sy_phases s)[a := p] ! b \<in> {LoggedOut, Gone}" for b
    using that l sys_okD(5) [OF ok, of b] by (cases "b = a") simp_all
  moreover obtain n where "ls_ops (sy_svc s) = drop n (map fst (sy_hist s))" using sys_okD(7) [OF ok] by blast
  ultimately show ?thesis using sys_okD(1-4,6) [OF ok] by (intro sys_okI [where n = n]) simp_all
qed

lemma sys_ok_kicker:
  assumes ok: "sys_ok s" and k: "\<forall>l a. c = KWait l a \<longrightarrow> a < length (sy_phases s) \<and> r_ID (ls_started (sy_svc s) ! a) = lg_RoleID l"
  shows "sys_ok (s\<lparr>sy_kickers := (sy_kickers s)[i := c]\<rparr>)"
proof -
  have "a < length (sy_phases s) \<and> r_ID (ls_started (sy_svc s) ! a) = lg_RoleID l" if "KWait l a \<in> set ((sy_kickers s)[i := c])" for l a
    using that set_update_subset_insert [of "sy_kickers s" i c] sys_okD(4) [OF ok, of l a] k by auto
  moreover obtain n where "ls_ops (sy_svc s) = drop n (map fst (sy_hist s))" using sys_okD(7) [OF ok] by blast
  ultimately show ?thesis using sys_okD(1-3,5,6) [OF ok] by (intro sys_okI [where n = n]) simp_all
qed

lemma sys_ok_reg:
  assumes ok: "sys_ok s" and r: "reg_ok rg" "\<And>i a. roles_of rg i = Some a \<Longrightarrow> roles_of (ls_reg (sy_svc s)) i = Some a"
  shows "sys_ok (s\<lparr>sy_svc := (sy_svc s)\<lparr>ls_reg := rg\<rparr>\<rparr>)"
proof -
  obtain n where "ls_ops (sy_svc s) = drop n (map fst (sy_hist s))" using sys_okD(7) [OF ok] by blast
  moreover have "a < length (sy_phases s) \<and> r_ID (ls_started (sy_svc s) ! a) = i" if "roles_of rg i = Some a" for i a
    using sys_okD(3) [OF ok r(2) [OF that]] .
  ultimately show ?thesis using sys_okD(1,2,4-6) [OF ok] r(1) by (intro sys_okI [where n = n]) simp_all
qed

lemma sys_ok_op:
  assumes ok: "sys_ok s" and run: "run_op j now (sy_svc s) = Some svc"
  shows "sys_ok (sys_sync svc s)"
proof -
  obtain e es where ops: "ls_ops (sy_svc s) = e # es" and on: "onOps j now e ((sy_svc s)\<lparr>ls_ops := es\<rparr>) = Some svc"
    using run by (auto simp: run_op_def split: list.splits)
  note g = grew_onOps [OF on, unfolded grew_def]
  obtain n where n: "ls_ops (sy_svc s) = drop n (map fst (sy_hist s))" using sys_okD(7) [OF ok] by blast
  have fifo: "ls_ops svc = drop (Suc n) (map fst (sy_hist s))"
    using g ops n by (metis drop_Suc list.sel(3) logon.select_convs(2) logon.surjective logon.update_convs(2) tl_drop)
  let ?st = "ls_started (sy_svc s)" and ?rg = "ls_reg (sy_svc s)"
  have len: "length (sy_phases s) = length ?st" by (rule sys_okD(1) [OF ok])
  consider (same) "ls_reg svc = ?rg" "ls_started svc = ?st"
    | (one) r where "ls_started svc = ?st @ [r]" "ls_reg svc = Register (r_ID r) (r_SesID r) (length ?st) ?rg"
    using g by auto
  then show ?thesis
  proof cases
    case same
    then show ?thesis using sys_okD(1-6) [OF ok] fifo by (intro sys_okI [where n = "Suc n"]) (auto simp: sys_sync_def)
  next
    case (one r)
    have rk: "reg_ok (ls_reg svc)" unfolding one(2) by (rule ok_Register [OF sys_okD(2) [OF ok]])
    have ro: "roles_of (ls_reg svc) = (roles_of ?rg)(r_ID r \<mapsto> length ?st)"
      unfolding one(2) by (rule roles_of_Register(1) [OF sys_okD(2) [OF ok]])
    have old: "a < length ?st \<Longrightarrow> (?st @ [r]) ! a = ?st ! a" for a by (simp add: nth_append)
    have known: "roles_of (ls_reg svc) i = Some a \<Longrightarrow> a < Suc (length ?st) \<and> r_ID ((?st @ [r]) ! a) = i" for i a
      using sys_okD(3) [OF ok, of i a] len old [of a] nth_append_length [of ?st r "[]"] by (cases "i = r_ID r") (auto simp: ro)
    have kick: "KWait l a \<in> set (sy_kickers s) \<Longrightarrow> a < Suc (length ?st) \<and> r_ID ((?st @ [r]) ! a) = lg_RoleID l" for l a
      using sys_okD(4) [OF ok, of l a] len old [of a] by auto
    have ph: "\<exists>d. (EvtLogout d, Some a) \<in> set (sy_hist s) \<and> ds_RoleID d = r_ID ((?st @ [r]) ! a)"
      if "a < Suc (length ?st)" "(sy_phases s @ [Running]) ! a \<in> {LoggedOut, Gone}" for a
      using that sys_okD(5) [OF ok, of a] len old [of a] by (cases "a < length ?st") (auto simp: nth_append)
    show ?thesis
      using rk known kick ph fifo len sys_okD(6) [OF ok] by (intro sys_okI [where n = "Suc n"]) (auto simp: sys_sync_def one(1))
  qed
qed

lemma sys_post_commute:
  "sys_post e a (s\<lparr>sy_phases := ps\<rparr>) = map_option (\<lambda>s. s\<lparr>sy_phases := ps\<rparr>) (sys_post e a s)"
  "sys_post e a (s\<lparr>sy_kickers := ks\<rparr>) = map_option (\<lambda>s. s\<lparr>sy_kickers := ks\<rparr>) (sys_post e a s)"
  by (cases "postEvent e (sy_svc s)"; simp add: sys_post_def)+

lemma sys_post_frame:
  "sys_post e a s = Some s' \<Longrightarrow> sy_phases s' = sy_phases s \<and> sy_kickers s' = sy_kickers s \<and> ls_started (sy_svc s') = ls_started (sy_svc s)
     \<and> (e, a) \<in> set (sy_hist s') \<and> set (sy_hist s) \<subseteq> set (sy_hist s')"
  by (auto simp: sys_post_def postEvent_def split: if_splits)

lemma sys_ok_svc:
  assumes ok: "sys_ok s" and "ls_ops svc = ls_ops (sy_svc s)" "ls_reg svc = ls_reg (sy_svc s)" "ls_started svc = ls_started (sy_svc s)"
  shows "sys_ok (s\<lparr>sy_svc := svc\<rparr>)"
proof -
  obtain n where "ls_ops (sy_svc s) = drop n (map fst (sy_hist s))" using sys_okD(7) [OF ok] by blast
  then show ?thesis using sys_okD(1-6) [OF ok] assms(2-4) by (intro sys_okI [where n = n]) simp_all
qed

lemma sys_ok_DoLogout:
  assumes ok: "sys_ok s" and s': "sys_do j (DoLogout a d) s = Some s'"
  shows "sys_ok s'"
proof -
  have a: "a < length (sy_phases s)" "ds_RoleID d = r_ID (ls_started (sy_svc s) ! a)" using s' by (auto split: if_splits)
  obtain s1 where s1: "sys_post (EvtLogout d) (Some a) s = Some s1" "s' = s1\<lparr>sy_phases := (sy_phases s)[a := LoggedOut]\<rparr>"
    using s' by (auto simp: sys_post_commute split: if_splits)
  have "sys_ok s1" by (rule sys_ok_post [OF ok s1(1)]) simp
  then have "sys_ok (s1\<lparr>sy_phases := (sy_phases s1)[a := LoggedOut]\<rparr>)"
    using sys_post_frame [OF s1(1)] a by (intro sys_ok_phase) auto
  then show ?thesis using s1(2) sys_post_frame [OF s1(1)] by simp
qed

lemma sys_ok_DoReentry:
  assumes ok: "sys_ok s" and s': "sys_do j (DoReentry k) s = Some s'"
  shows "sys_ok s'"
proof -
  have k: "k < length (sy_kickers s)" using s' by (auto split: if_splits)
  consider (wait) l a where "sy_kickers s ! k = KWait l a" "a < length (sy_phases s)" "sy_phases s ! a = Gone"
      "sys_post (EvtReentry l) (Some a) (s\<lparr>sy_kickers := (sy_kickers s)[k := KPosted]\<rparr>) = Some s'"
    | (none) l where "sys_post (EvtReentry l) None (s\<lparr>sy_kickers := (sy_kickers s)[k := KPosted]\<rparr>) = Some s'"
    using s' by (auto split: if_splits kicker.splits)
  then show ?thesis
  proof cases
    case (wait l a)
    have "KWait l a \<in> set (sy_kickers s)" using wait(1) k by (metis nth_mem)
    then have id: "r_ID (ls_started (sy_svc s) ! a) = lg_RoleID l" using sys_okD(4) [OF ok] by blast
    have log: "\<exists>d. (EvtLogout d, Some a) \<in> set (sy_hist s) \<and> ds_RoleID d = lg_RoleID l"
      using sys_okD(5) [OF ok wait(2)] wait(3) id by simp
    have "sys_ok (s\<lparr>sy_kickers := (sy_kickers s)[k := KPosted]\<rparr>)" by (rule sys_ok_kicker [OF ok]) simp
    then show ?thesis by (rule sys_ok_post [OF _ wait(4)]) (use log in simp)
  next
    case (none l)
    have "sys_ok (s\<lparr>sy_kickers := (sy_kickers s)[k := KPosted]\<rparr>)" by (rule sys_ok_kicker [OF ok]) simp
    then show ?thesis by (rule sys_ok_post [OF _ none]) simp
  qed
qed

lemma sys_ok_DoKick:
  assumes ok: "sys_ok s" and s': "sys_do j (DoKick k) s = Some s'"
  shows "sys_ok s'"
proof -
  obtain l where s'_eq: "s' = s\<lparr>sy_kickers := (sy_kickers s)[k := case reg_get (lg_RoleID l) (ls_reg (sy_svc s)) of None \<Rightarrow> KNone l | Some a \<Rightarrow> KWait l a]\<rparr>"
    using s' by (auto split: if_splits kicker.splits)
  show ?thesis unfolding s'_eq
  proof (rule sys_ok_kicker [OF ok], intro allI impI)
    fix l' a assume "(case reg_get (lg_RoleID l) (ls_reg (sy_svc s)) of None \<Rightarrow> KNone l | Some a \<Rightarrow> KWait l a) = KWait l' a"
    then have "roles_of (ls_reg (sy_svc s)) (lg_RoleID l') = Some a" by (auto simp: reg_get_roles_of split: option.splits)
    then show "a < length (sy_phases s) \<and> r_ID (ls_started (sy_svc s) ! a) = lg_RoleID l'" by (rule sys_okD(3) [OF ok])
  qed
qed

lemma sys_ok_DoUnregister:
  assumes ok: "sys_ok s" and s': "sys_do j (DoUnregister a) s = Some s'"
  shows "sys_ok s'"
proof -
  let ?r = "ls_started (sy_svc s) ! a" and ?rg = "ls_reg (sy_svc s)"
  have a: "a < length (sy_phases s)" using s' by (auto split: if_splits)
  have eq: "s' = (s\<lparr>sy_phases := (sy_phases s)[a := Unregistered]\<rparr>)\<lparr>sy_svc := (sy_svc s)\<lparr>ls_reg := Unregister (r_ID ?r) (r_SesID ?r) ?rg\<rparr>\<rparr>"
    using s' by (auto simp: Let_def split: if_splits)
  have ok1: "sys_ok (s\<lparr>sy_phases := (sy_phases s)[a := Unregistered]\<rparr>)" using ok a by (intro sys_ok_phase) simp_all
  have "roles_of (Unregister (r_ID ?r) (r_SesID ?r) ?rg) i = Some b \<Longrightarrow> roles_of ?rg i = Some b" for i b
    using sys_okD(2) [OF ok] by (auto simp: roles_of_Unregister split: if_splits)
  then show ?thesis unfolding eq using sys_ok_reg [OF ok1] ok_Unregister [OF sys_okD(2) [OF ok]] by simp
qed

lemma sys_ok_do:
  assumes ok: "sys_ok s" and s': "sys_do j c s = Some s'"
  shows "sys_ok s'"
proof (cases c)
  case (DoLogin l)
  then show ?thesis using sys_ok_post [OF ok] s' by simp
next
  case (DoOp now)
  then show ?thesis using sys_ok_op [OF ok] s' by auto
next
  case (DoCleanup now ks)
  then show ?thesis using sys_ok_svc [OF ok] s' by (auto simp: cleanup_frame)
next
  case (DoUnregister a)
  then show ?thesis using sys_ok_DoUnregister [OF ok] s' by blast
next
  case (DoLogout a d)
  then show ?thesis using sys_ok_DoLogout [OF ok] s' by blast
next
  case (DoDone a)
  have a: "a < length (sy_phases s)" "sy_phases s ! a = LoggedOut" "s' = s\<lparr>sy_phases := (sy_phases s)[a := Gone]\<rparr>"
    using s' DoDone by (auto split: if_splits)
  show ?thesis unfolding a(3) using sys_okD(5) [OF ok a(1)] a(2) by (intro sys_ok_phase [OF ok a(1)]) simp
next
  case (DoSave a d b)
  then have "sys_post (EvtSaveRole d b) None s = Some s'" using s' by (auto split: if_splits)
  then show ?thesis by (rule sys_ok_post [OF ok]) simp
next
  case (DoKick k)
  then show ?thesis using sys_ok_DoKick [OF ok] s' by blast
next
  case (DoReentry k)
  then show ?thesis using sys_ok_DoReentry [OF ok] s' by blast
next
  case (DoLoad k c)
  let ?svc = "(sy_svc s)\<lparr>ls_load := (ls_load (sy_svc s))[k := tl (ls_load (sy_svc s) ! k)]\<rparr>"
  have "sys_ok (s\<lparr>sy_svc := ?svc\<rparr>)" by (rule sys_ok_svc [OF ok]) simp_all
  then show ?thesis using sys_ok_post [of "s\<lparr>sy_svc := ?svc\<rparr>"] s' DoLoad by (auto simp: Let_def split: if_splits)
next
  case (DoSaved ids)
  then show ?thesis using sys_ok_post [OF ok] s' by simp
qed

lemma sys_ok_run: "sys_ok s \<Longrightarrow> sys_run j cs s = Some s' \<Longrightarrow> sys_ok s'"
  by (induction cs arbitrary: s) (auto simp: bind_eq_Some_conv dest: sys_ok_do)

lemma sys_ok_init: "sys_ok (sys_init grow x)"
  by (rule sys_okI [where n = 0]) (simp_all add: sys_init_def logon_Start_def ok_NewRegistry roles_of_New logout_before_def)


definition demo_cache :: "string \<rightharpoonup> string" where
  "demo_cache = [''TCBase'' \<mapsto> ''{7}'']"

definition demo_enter :: "sys_cmd list" where
  "demo_enter = [DoLogin (demo_login 500), DoOp 0, DoLoad 1 demo_cache, DoOp 0]"

definition demo_entered :: "unit sys" where
  "demo_entered = \<lparr>sy_svc = (logon_Start Suc ())\<lparr>ls_data := [7 \<mapsto> \<lparr>ld_State = stateOnline, ld_StateTime = 0, ld_Cache = demo_cache, ld_LoginSeq = 1\<rparr>],
       ls_reg := Register 7 500 0 NewRegistry, ls_started := [demo_new 500]\<rparr>,
     sy_phases = [Running], sy_kickers = [],
     sy_hist = [(EvtLogin (demo_login 500), None), (EvtDBLoaded (demo_login 500) (Some \<lparr>ds_RoleID = 7, ds_Data = demo_cache\<rparr>), None)]\<rparr>"

lemmas sys_eval = sys_post_def postEvent_def run_op_def opSignIn_def postToLoad_def initRole_def handleReentry_def opReentry_def
  sys_sync_def Let_def setState_def opChanSize_def

lemma demo_login_sel [simp]: "lg_RoleID (demo_login s) = 7" "lg_SesID (demo_login s) = s" "lg_Seq (demo_login s) = 1"
  by (simp_all add: demo_login_def)

lemma demo_new_sel [simp]: "r_ID (demo_new s) = 7" "r_SesID (demo_new s) = s"
  by (simp_all add: demo_new_def)

lemma demo_NewRole_cache [simp]: "NewRole demo_json t \<lparr>ds_RoleID = 7, ds_Data = demo_cache\<rparr> (demo_login ses) = Some (demo_new ses)"
  by (simp add: demo_cache_def demo_NewRole)

lemma three [simp]: "replicate loadingGoCnt (c :: 'c list) = [c, c, c]" "replicate saveGoCnt (d :: 'd) = [d, d, d]"
  by (simp_all add: loadingGoCnt_def saveGoCnt_def numeral_3_eq_3)

lemma seven [simp]: "7 mod loadingGoCnt = Suc 0" "7 mod saveGoCnt = Suc 0"
  by (simp_all add: loadingGoCnt_def saveGoCnt_def)

lemma demo_enter_run: "sys_run demo_json demo_enter (sys_init Suc ()) = Some demo_entered"
  by (simp add: demo_enter_def sys_init_def demo_entered_def logon_Start_def sys_eval Unix_def)

lemma sys_run_append: "sys_run j (cs @ cs') s = Option.bind (sys_run j cs s) (sys_run j cs')"
  by (induction cs arbitrary: s) (auto split: bind_splits)

lemmas reg_eval = reg_get_roles_of roles_of_Register roles_of_Unregister roles_of_New ok_Register ok_Unregister ok_NewRegistry

lemmas push_eval = roleOffline_def saveMust_def set_cache_def newSaver_def NewSwapQueue_def Push_def pushData_def append_write_def Wake_def



section \<open>An acknowledgement of an older save\<close>

text \<open>A round of the saver of role 7: take the queue, then write the batch.\<close>

definition demo_now :: attempt where
  "demo_now = \<lparr>now1 = 0, now2 = 0, order = [7], vorder = \<lambda>_. [''TCBase'']\<rparr>"

definition demo_round :: "demo_store logon \<Rightarrow> demo_store logon option" where
  "demo_round m = map_option (\<lambda>s. m\<lparr>ls_save := (ls_save m)[1 := run_tick demo_exec demo_bulk demo_now s]\<rparr>)
     (run_sig demo_exec demo_bulk demo_now (ls_save m ! 1))"

definition demo_online :: "demo_store logon" where
  "demo_online = (logon_Start Suc (\<lambda>_. Map.empty, \<lambda>_. Map.empty, 0))
     \<lparr>ls_data := [7 \<mapsto> \<lparr>ld_State = stateOnline, ld_StateTime = 0, ld_Cache = Map.empty, ld_LoginSeq = 1\<rparr>]\<rparr>"

definition demo_delta :: "string \<Rightarrow> DataToSave" where
  "demo_delta v = \<lparr>ds_RoleID = 7, ds_Data = [''TCBase'' \<mapsto> v]\<rparr>"

lemma map_len_one: "map_len [k \<mapsto> v] = 1"
  by (simp add: map_len_def)

lemmas saver_eval = run_sig_def recv_Sig_def merge_queue_def Range_def Range_swap_def Range_finish_def merge_def run_tick_def flush_def
  saveBatch_def save_loop.simps saveChunk_def chunkSize_def chunk_cmds_def Values_def demo_exec_def saveToDB_def db_models_def demo_bulk_def
  batchSize_def map_len_one demo_now_def saveOne_def post_def

text \<open>
  A role online saves itself to both stores; the saver writes it and reports success; the role logs out
  with newer data before the report is handled; the saver writes the logout to Redis; a minute later the
  cache is cleaned up.
\<close>

definition stale_ack_run :: "json \<Rightarrow> demo_store logon option" where
  "stale_ack_run j =
     do { m1 \<leftarrow> onOps j 0 (EvtSaveRole (demo_delta ''old'') True) demo_online;
          m2 \<leftarrow> demo_round m1;
          m3 \<leftarrow> onOps j 0 (EvtLogout (demo_delta ''new'')) m2;
          m4 \<leftarrow> onOps j 0 (EvtSaveSuccess (concat (posted (ls_save m2 ! 1)))) m3;
          m5 \<leftarrow> demo_round m4;
          Some (cleanup 61 [7] m5) }"


section \<open>Loading from the database\<close>

lemma result_zero_only:
  assumes "\<forall>d \<in> set ds. doc_roleid d = None" "i \<noteq> 0"
  shows "fold (\<lambda>r m. m(ds_RoleID r \<mapsto> r)) (map decode_doc ds) m0 i = m0 i"
  using assms by (induction ds arbitrary: m0) (simp_all add: decode_doc_def)

text \<open>
  C24. A role that is only in MongoDB is not found again.  The documents \<open>saveToDB\<close> writes have the fields \<open>id\<close>
  and \<open>data\<close>, and none called \<open>roleid\<close>, which is the name the driver looks for when it decodes into \<open>DataToSave\<close>.
  Whatever documents the query returns, every login is then answered with the data of a new role.
\<close>

theorem database_roles_are_not_found:
  assumes "hgetall (map (\<lambda>op. KeyRole (lg_RoleID op)) ls) = Some (map (\<lambda>_. Map.empty) ls)"
    and "mfind (map lg_RoleID ls) = Some ds" "\<forall>d \<in> set ds. doc_roleid d = None" "\<forall>l \<in> set ls. lg_RoleID l \<noteq> 0"
  shows "loadBatch j hgetall mfind ls = map (\<lambda>l. (l, newRoleDBData j (lg_RoleID l))) ls"
proof -
  let ?none = "map (\<lambda>_. Map.empty :: string \<rightharpoonup> string) ls"
  have miss: "filter (\<lambda>(op, dat). dat = Map.empty) (zip ls ?none) = zip ls ?none"
    "filter (\<lambda>(op, dat). dat \<noteq> Map.empty) (zip ls ?none) = []"
    by (auto simp: filter_id_conv filter_empty_conv zip_map2 set_zip)
  have "loadFromDBBatch j mfind ls = map (\<lambda>l. (l, newRoleDBData j (lg_RoleID l))) ls"
    using assms(2,4) result_zero_only [OF assms(3)] by (simp add: loadFromDBBatch_def Let_def)
  then show ?thesis
    using assms(1) miss by (cases "ls = []") (simp_all add: loadBatch_def Let_def)
qed

theorem database_roles_are_not_found_witness:
  "loadBatch demo_json (\<lambda>ks. Some (map (\<lambda>_. Map.empty) ks))
     (\<lambda>ids. Some [\<lparr>doc_id = 7, doc_roleid = None, doc_data = [''TCBase'' \<mapsto> ''{7}'']\<rparr>]) [demo_login 500]
   = [(demo_login 500, newRoleDBData demo_json 7)]"
  using database_roles_are_not_found [of "\<lambda>ks. Some (map (\<lambda>_. Map.empty) ks)" "[demo_login 500]"
      "\<lambda>ids. Some [\<lparr>doc_id = 7, doc_roleid = None, doc_data = [''TCBase'' \<mapsto> ''{7}'']\<rparr>]" _ demo_json]
  by simp

section \<open>Message handlers and the login check of debug builds\<close>

definition onLogin :: "S2SReqLogin \<Rightarrow> 'x logon \<Rightarrow> 'x logon option" where
  "onLogin msg m = Login msg m"

definition onDisconnect :: "u64 \<Rightarrow> 'e rworld \<Rightarrow> 'e rworld" where
  "onDisconnect sesID w = Kick sesID w"

record debug_logins =
  dl_check :: "u64 \<rightharpoonup> u64"
  dl_wait :: nat

definition debugLoginBegin :: "bool \<Rightarrow> u64 \<Rightarrow> debug_logins \<Rightarrow> debug_logins" where
  "debugLoginBegin debug roleID d =
     (if debug then d\<lparr>dl_check := (dl_check d)(roleID \<mapsto> 0), dl_wait := Suc (dl_wait d)\<rparr> else d)"

text \<open>An unknown id is fatal, and so is a wait group counted below zero.\<close>

definition debugLoginOk :: "bool \<Rightarrow> u64 \<Rightarrow> debug_logins \<Rightarrow> debug_logins option" where
  "debugLoginOk debug i d =
     (if \<not> debug then Some d
      else case dl_check d i of
        None \<Rightarrow> None
      | Some _ \<Rightarrow> if dl_wait d = 0 then None else Some (d\<lparr>dl_check := (dl_check d)(i \<mapsto> i), dl_wait := dl_wait d - 1\<rparr>))"

text \<open>Waits until every login is answered (\<^term>\<open>None\<close> until then), then looks for roles that were not.\<close>

definition debugCheckSuccess :: "u64 list \<Rightarrow> debug_logins \<Rightarrow> bool option" where
  "debugCheckSuccess ks d = (if dl_wait d \<noteq> 0 then None else Some (\<forall>k \<in> set ks. dl_check d k \<noteq> Some 0))"

end
