(* ===== verification/Discovery.thy ===== *)
theory Discovery
  imports Go_Strings
begin

text \<open>
  Service discovery, \<^verbatim>\<open>src/pkg/discovery\<close>: the groups of nodes kept per service (\<^verbatim>\<open>node.go\<close>), the cache that
  follows etcd and the load reports in Redis (\<^verbatim>\<open>discover.go\<close>), the registration of the own node (\<^verbatim>\<open>register.go\<close>)
  and the manager the services call (\<^verbatim>\<open>service.go\<close>).  The answers of etcd and Redis and the JSON decoder are
  arguments; so is the order in which the runtime ranges over a map, and the two random numbers of \<^verbatim>\<open>SelectNode\<close>.
  An \<^verbatim>\<open>int32\<close> is an \<^typ>\<open>int\<close>, with the conversion written out.
\<close>

section \<open>Integers and paths\<close>

definition to_i32 :: "int \<Rightarrow> int" where
  "to_i32 i = (i + 2 ^ 31) mod 2 ^ 32 - 2 ^ 31"

definition is_i32 :: "int \<Rightarrow> bool" where
  "is_i32 i \<longleftrightarrow> - (2 ^ 31) \<le> i \<and> i < 2 ^ 31"

lemma to_i32_id [simp]: "is_i32 i \<Longrightarrow> to_i32 i = i"
  by (simp add: to_i32_def is_i32_def)

text \<open>
  The value \<^verbatim>\<open>strconv.Atoi\<close> returns when its error is ignored: 0 for a string that is no number, the nearest
  \<^verbatim>\<open>int64\<close> for one that is too large.  \<open>None\<close> from the scan is the first, \<open>Some None\<close> the second.
\<close>

fun scan_digits :: "nat \<Rightarrow> string \<Rightarrow> nat option option" where
  "scan_digits acc [] = Some (Some acc)"
| "scan_digits acc (c # cs) = (case digit_val c of None \<Rightarrow> None
     | Some d \<Rightarrow> if 2 ^ 64 \<le> 10 * acc + d then Some None else scan_digits (10 * acc + d) cs)"

definition Atoi_val :: "string \<Rightarrow> int" where
  "Atoi_val s = (let neg = (s \<noteq> [] \<and> hd s = CHR ''-'');
                     body = (if s \<noteq> [] \<and> (hd s = CHR ''-'' \<or> hd s = CHR ''+'') then tl s else s)
     in if body = [] then 0 else case scan_digits 0 body of
          None \<Rightarrow> 0
        | Some None \<Rightarrow> if neg then - (2 ^ 63) else 2 ^ 63 - 1
        | Some (Some n) \<Rightarrow> if neg then - int (min n (2 ^ 63)) else int (min n (2 ^ 63 - 1)))"

definition Trim :: "string \<Rightarrow> string \<Rightarrow> string" where
  "Trim s cutset = TrimRight (dropWhile (\<lambda>c. c \<in> set cutset) s) cutset"

definition redisKeyOfUpload :: "string \<Rightarrow> int \<Rightarrow> string" where
  "redisKeyOfUpload svcName serID = ''{server}:load:'' @ svcName @ '':'' @ Itoa serID"

definition etcdPath :: "string \<Rightarrow> string \<Rightarrow> int \<Rightarrow> string" where
  "etcdPath prefix svcName serID = prefix @ ''/'' @ svcName @ ''/'' @ Itoa serID"

definition redisLoadChannel :: "string \<Rightarrow> string" where
  "redisLoadChannel svcName = ''service:load:channel:'' @ svcName"

definition etcdSvcPrefix :: "string \<Rightarrow> string \<Rightarrow> string" where
  "etcdSvcPrefix prefix svcName = prefix @ ''/'' @ svcName @ ''/''"

definition parseServicePath :: "string \<Rightarrow> (string \<times> int) option" where
  "parseServicePath key = (let parts = Split CHR ''/'' (Trim key ''/'') in
     if length parts < 2 then None
     else let srvName = parts ! (length parts - 2); idStr = parts ! (length parts - 1)
          in case Atoi idStr of None \<Rightarrow> None | Some idx \<Rightarrow> Some (srvName, to_i32 idx))"

lemma Atoi_Itoa: "is_i32 i \<Longrightarrow> Atoi (Itoa i) = Some i"
proof (cases "i < 0")
  case True
  then show "is_i32 i \<Longrightarrow> ?thesis" by (simp add: Itoa_def Atoi_def is_i32_def Let_def)
next
  case False
  then show "is_i32 i \<Longrightarrow> ?thesis" using Atoi_itoa [of "nat i"] by (simp add: Itoa_def is_i32_def)
qed

lemma Itoa_no_slash [simp]: "CHR ''/'' \<notin> set (Itoa i)"
  using not_in_itoa [of "CHR ''/''"] by (simp add: Itoa_def)

lemma Itoa_not_Nil [simp]: "Itoa i \<noteq> []"
  by (simp add: Itoa_def)

lemma Split_snoc: "sep \<notin> set w \<Longrightarrow> Split sep (s @ sep # w) = Split sep s @ [w]"
proof (induction s)
  case Nil
  then show ?case by (simp add: Split_no_sep)
next
  case (Cons c cs)
  then show ?case by (cases "Split sep cs") auto
qed

lemma Trim_tail:
  assumes "w \<noteq> []" "CHR ''/'' \<notin> set w"
  shows "Trim (s @ w) ''/'' = dropWhile (\<lambda>c. c = CHR ''/'') s @ w"
proof -
  have ne: "last w \<noteq> CHR ''/''" using assms last_in_set by metis
  have front: "dropWhile (\<lambda>c. c = CHR ''/'') (s @ w) = dropWhile (\<lambda>c. c = CHR ''/'') s @ w"
  proof (cases "\<forall>c \<in> set s. c = CHR ''/''")
    case True
    then have "dropWhile (\<lambda>c. c = CHR ''/'') s = []" by simp
    moreover have "dropWhile (\<lambda>c. c = CHR ''/'') w = w" using assms by (cases w) auto
    ultimately show ?thesis using True by (simp add: dropWhile_append)
  next
    case False
    then show ?thesis by (auto simp: dropWhile_append1)
  qed
  have "dropWhile (\<lambda>c. c = CHR ''/'') (rev w @ t) = rev w @ t" for t
    using ne assms by (cases "rev w") (auto simp: last_rev [symmetric] rev_eq_Cons_iff)
  then show ?thesis by (simp add: Trim_def TrimRight_def front)
qed

text \<open>The path a node registers under is parsed back to its service and number, whatever the prefix.\<close>

lemma parse_etcdPath:
  assumes "svc \<noteq> []" "CHR ''/'' \<notin> set svc" "is_i32 i"
  shows "parseServicePath (etcdPath prefix svc i) = Some (svc, i)"
proof -
  let ?w = "Itoa i"
  have "Trim (etcdPath prefix svc i) ''/'' = dropWhile (\<lambda>c. c = CHR ''/'') (prefix @ ''/'' @ svc @ ''/'') @ ?w"
    using Trim_tail [of ?w "prefix @ ''/'' @ svc @ ''/''"] by (simp add: etcdPath_def)
  moreover obtain pre where "dropWhile (\<lambda>c. c = CHR ''/'') (prefix @ ''/'' @ svc @ ''/'') = pre @ svc @ ''/''"
      and "pre = [] \<or> (\<exists>p. pre = p @ ''/'')"
  proof (cases "\<forall>c \<in> set prefix. c = CHR ''/''")
    case True
    then have "dropWhile (\<lambda>c. c = CHR ''/'') (prefix @ ''/'' @ svc @ ''/'') = [] @ svc @ ''/''"
      using assms by (cases svc) auto
    then show ?thesis using that by blast
  next
    case False
    then have "dropWhile (\<lambda>c. c = CHR ''/'') (prefix @ ''/'' @ svc @ ''/'')
        = (dropWhile (\<lambda>c. c = CHR ''/'') prefix @ ''/'') @ svc @ ''/''"
      by (auto simp: dropWhile_append1)
    then show ?thesis using that by blast
  qed
  ultimately have t: "Trim (etcdPath prefix svc i) ''/'' = (pre @ svc) @ CHR ''/'' # ?w" by simp
  have "\<exists>ps. Split CHR ''/'' (pre @ svc) = ps @ [svc]"
    using \<open>pre = [] \<or> _\<close> assms(2) by (auto simp: Split_no_sep Split_snoc)
  then obtain ps where "Split CHR ''/'' (Trim (etcdPath prefix svc i) ''/'') = ps @ [svc, ?w]"
    using t Split_snoc [of "CHR ''/''" ?w "pre @ svc"] by auto
  then show ?thesis
    using assms(3) by (simp add: parseServicePath_def nth_append Atoi_Itoa)
qed

section \<open>Groups of nodes\<close>

record nodeMeta =
  mt_NodeID :: int
  mt_Load :: int

record nodeGroup =
  ng_nodes :: "int \<rightharpoonup> nodeMeta"
  ng_nodeIDs :: "int list"

record Node =
  SvcName :: string
  NodeID :: int
  Load :: int

definition newNodeGroup :: nodeGroup where
  "newNodeGroup = \<lparr>ng_nodes = Map.empty, ng_nodeIDs = []\<rparr>"

type_synonym range_order = "(int \<rightharpoonup> nodeMeta) \<Rightarrow> int list"

definition group_Add :: "range_order \<Rightarrow> Node \<Rightarrow> nodeGroup \<Rightarrow> nodeGroup" where
  "group_Add ord msg g =
     (let newNodes = (ng_nodes g)(NodeID msg \<mapsto> \<lparr>mt_NodeID = NodeID msg, mt_Load = Load msg\<rparr>)
      in \<lparr>ng_nodes = newNodes, ng_nodeIDs = ord newNodes\<rparr>)"

definition group_Delete :: "range_order \<Rightarrow> int \<Rightarrow> nodeGroup \<Rightarrow> nodeGroup \<times> bool" where
  "group_Delete ord nodeID g = (case ng_nodes g nodeID of
     None \<Rightarrow> (g, map_len (ng_nodes g) = 0)
   | Some _ \<Rightarrow> let newNodes = (ng_nodes g)(nodeID := None)
       in (\<lparr>ng_nodes = newNodes, ng_nodeIDs = ord newNodes\<rparr>, map_len newNodes = 0))"

definition RangeReadOnly :: "range_order \<Rightarrow> (int \<Rightarrow> int \<Rightarrow> 's \<Rightarrow> 's) \<Rightarrow> nodeGroup \<Rightarrow> 's \<Rightarrow> 's" where
  "RangeReadOnly ord f g s = fold (\<lambda>nid. case ng_nodes g nid of None \<Rightarrow> id | Some v \<Rightarrow> f nid (mt_Load v)) (ord (ng_nodes g)) s"

definition GetLoad :: "int \<Rightarrow> nodeGroup \<Rightarrow> int option" where
  "GetLoad nid g = map_option mt_Load (ng_nodes g nid)"

definition group_UpdateLoad :: "int \<Rightarrow> int \<Rightarrow> nodeGroup \<Rightarrow> nodeGroup" where
  "group_UpdateLoad nodeID load g = (case ng_nodes g nodeID of
     None \<Rightarrow> g
   | Some meta \<Rightarrow> g\<lparr>ng_nodes := (ng_nodes g)(nodeID \<mapsto> meta\<lparr>mt_Load := load\<rparr>)\<rparr>)"

text \<open>
  \<open>r1\<close> and \<open>r2\<close> are what the random generator draws: \<^verbatim>\<open>rand.IntN(n)\<close> is an arbitrary number below \<open>n\<close>, an arbitrary
  natural number modulo \<open>n\<close>.  The outer option is \<open>None\<close> for the panic of an index out of range or of a listed node that
  is not in the map, the inner one for \<^verbatim>\<open>(0, false)\<close>.
\<close>

definition SelectNode :: "nat \<Rightarrow> nat \<Rightarrow> nodeGroup \<Rightarrow> int option option" where
  "SelectNode r1 r2 g = (let n = length (ng_nodeIDs g) in
     if n = 0 then Some None
     else if n = 1 then Some (Some (ng_nodeIDs g ! 0))
     else let i = r1 mod n; j0 = r2 mod (n - 1); j = (if j0 \<ge> i then j0 + 1 else j0) in
       if i < n \<and> j < n then
         (case (ng_nodes g (ng_nodeIDs g ! i), ng_nodes g (ng_nodeIDs g ! j)) of
            (Some node1, Some node2) \<Rightarrow>
              Some (Some (if mt_Load node1 \<le> mt_Load node2 then mt_NodeID node1 else mt_NodeID node2))
          | _ \<Rightarrow> None)
       else None)"

definition group_Exists :: "int \<Rightarrow> nodeGroup \<Rightarrow> bool" where
  "group_Exists nid g = (ng_nodes g nid \<noteq> None)"

definition AllNodeIDs :: "nodeGroup \<Rightarrow> int list" where
  "AllNodeIDs g = ng_nodeIDs g"

subsection \<open>The list of numbers matches the map\<close>

definition order_ok :: "range_order \<Rightarrow> bool" where
  "order_ok ord \<longleftrightarrow> (\<forall>m. finite (dom m) \<longrightarrow> is_order (ord m) m)"

definition group_ok :: "nodeGroup \<Rightarrow> bool" where
  "group_ok g \<longleftrightarrow> finite (dom (ng_nodes g)) \<and> is_order (ng_nodeIDs g) (ng_nodes g)
     \<and> (\<forall>k v. ng_nodes g k = Some v \<longrightarrow> mt_NodeID v = k)"

lemma newNodeGroup_ok [simp]: "group_ok newNodeGroup" "ng_nodes newNodeGroup = Map.empty"
  by (simp_all add: newNodeGroup_def group_ok_def is_order_def)

lemma group_Add_ok:
  assumes "order_ok ord" "group_ok g"
  shows "group_ok (group_Add ord msg g)" "dom (ng_nodes (group_Add ord msg g)) = insert (NodeID msg) (dom (ng_nodes g))"
  using assms by (auto simp: group_Add_def group_ok_def order_ok_def Let_def)

lemma group_Delete_ok:
  assumes "order_ok ord" "group_ok g"
  shows "group_ok (fst (group_Delete ord nid g))"
    and "dom (ng_nodes (fst (group_Delete ord nid g))) = dom (ng_nodes g) - {nid}"
    and "snd (group_Delete ord nid g) \<longleftrightarrow> dom (ng_nodes g) - {nid} = {}"
  using assms
  by (auto simp: group_Delete_def group_ok_def order_ok_def Let_def map_len_def split: option.split dest!: subset_singletonD)

lemma group_UpdateLoad_ok:
  assumes "group_ok g"
  shows "group_ok (group_UpdateLoad nid load g)" "dom (ng_nodes (group_UpdateLoad nid load g)) = dom (ng_nodes g)"
  using assms by (auto simp: group_UpdateLoad_def group_ok_def is_order_def split: option.split)

text \<open>
  \<open>SelectNode\<close> never panics, finds a node whenever there is one, and of the two candidates it draws it takes one with
  the smaller load: a node that is more loaded than every other one is never chosen.
\<close>

lemma SelectNode_spec:
  assumes ok: "group_ok g" and ne: "dom (ng_nodes g) \<noteq> {}"
  shows "\<exists>nid. SelectNode r1 r2 g = Some (Some nid) \<and> nid \<in> dom (ng_nodes g)
     \<and> (length (ng_nodeIDs g) \<noteq> 1 \<longrightarrow>
          (\<exists>nid' \<in> dom (ng_nodes g). nid' \<noteq> nid \<and> the (GetLoad nid g) \<le> the (GetLoad nid' g)))"
proof (cases "length (ng_nodeIDs g) = 1")
  case True
  then have "ng_nodeIDs g ! 0 \<in> dom (ng_nodes g)"
    using ok unfolding group_ok_def is_order_def by (metis less_one nth_mem)
  then show ?thesis using True by (simp add: SelectNode_def)
next
  case False
  define i j where "i = r1 mod length (ng_nodeIDs g)" and "j = r2 mod (length (ng_nodeIDs g) - 1)"
  define j' where "j' = (if j \<ge> i then j + 1 else j)"
  have len: "1 < length (ng_nodeIDs g)"
    using ok ne False by (cases "ng_nodeIDs g") (auto simp: group_ok_def is_order_def)
  then have i: "i < length (ng_nodeIDs g)" and j: "j < length (ng_nodeIDs g) - 1"
    by (auto simp: i_def j_def intro!: mod_less_divisor)
  let ?a = "ng_nodeIDs g ! i" and ?b = "ng_nodeIDs g ! j'"
  have j': "j' < length (ng_nodeIDs g)" "j' \<noteq> i"
    using False i j by (auto simp: j'_def)
  then have ab: "?a \<in> dom (ng_nodes g)" "?b \<in> dom (ng_nodes g)" "?a \<noteq> ?b"
    using ok i by (auto simp: group_ok_def is_order_def nth_eq_iff_index_eq)
  then obtain n1 n2 where n: "ng_nodes g ?a = Some n1" "ng_nodes g ?b = Some n2" by auto
  then have m: "mt_NodeID n1 = ?a" "mt_NodeID n2 = ?b"
    using ok by (auto simp: group_ok_def)
  have s: "SelectNode r1 r2 g = Some (Some (if mt_Load n1 \<le> mt_Load n2 then ?a else ?b))"
    unfolding SelectNode_def Let_def i_def [symmetric] j_def [symmetric] j'_def [symmetric] using len i j' n m by auto
  show ?thesis
  proof (cases "mt_Load n1 \<le> mt_Load n2")
    case True
    then show ?thesis using s ab n by (auto simp: GetLoad_def intro!: bexI [of _ ?b])
  next
    case False
    then show ?thesis using s ab n by (auto simp: GetLoad_def intro!: bexI [of _ ?a])
  qed
qed

lemma SelectNode_none: "group_ok g \<Longrightarrow> dom (ng_nodes g) = {} \<Longrightarrow> SelectNode i j g = Some None"
  by (simp add: SelectNode_def group_ok_def is_order_def)

section \<open>The cache that follows etcd\<close>

record discoverer =
  d_services :: "string \<rightharpoonup> nodeGroup"
  d_watching :: "string set"
  d_loops :: "string list" \<comment> \<open>the services whose two watch goroutines were started\<close>
  d_prefix :: string
  d_done :: bool \<comment> \<open>the context is cancelled\<close>

definition NewDiscovery :: "string \<Rightarrow> discoverer" where
  "NewDiscovery prefix = \<lparr>d_services = Map.empty, d_watching = {}, d_loops = [], d_prefix = prefix, d_done = False\<rparr>"

definition Discoverer_Close :: "discoverer \<Rightarrow> discoverer" where
  "Discoverer_Close d = d\<lparr>d_done := True\<rparr>"

text \<open>
  The answers to one full load: the pairs under the prefix with the revision of the store, or an error; and the
  values of the load keys (\<open>None\<close> for a missing one), or an error.
\<close>

record answers =
  an_Get :: "((string \<times> string) list \<times> int) option"
  an_MGet :: "string option list option"

type_synonym unmarshal = "string \<Rightarrow> Node option"

definition sync_kv ::
    "range_order \<Rightarrow> unmarshal \<Rightarrow> string \<Rightarrow> string \<times> string \<Rightarrow> nodeGroup \<times> string list \<times> int list
      \<Rightarrow> nodeGroup \<times> string list \<times> int list" where
  "sync_kv ord unm svcName kv acc = (case unm (snd kv) of
     None \<Rightarrow> acc
   | Some meta \<Rightarrow> (case parseServicePath (fst kv) of
       None \<Rightarrow> acc
     | Some (_, serID) \<Rightarrow> (case acc of (newGroup, keys, nodeIDs) \<Rightarrow>
         (group_Add ord (meta\<lparr>NodeID := serID\<rparr>) newGroup, keys @ [redisKeyOfUpload svcName serID], nodeIDs @ [serID]))))"

definition sync_loads :: "(int \<times> string option) list \<Rightarrow> nodeGroup \<Rightarrow> nodeGroup" where
  "sync_loads = fold (\<lambda>(nid, val) g. case val of None \<Rightarrow> g | Some loadStr \<Rightarrow> group_UpdateLoad nid (to_i32 (Atoi_val loadStr)) g)"

definition syncSvcFullState ::
    "range_order \<Rightarrow> unmarshal \<Rightarrow> answers \<Rightarrow> string \<Rightarrow> discoverer \<Rightarrow> discoverer \<times> int" where
  "syncSvcFullState ord unm an svcName d = (case an_Get an of
     None \<Rightarrow> (d, 0)
   | Some (kvs, revision) \<Rightarrow> (case fold (sync_kv ord unm svcName) kvs (newNodeGroup, [], []) of (newGroup, keys, nodeIDs) \<Rightarrow>
       let newGroup' = (if keys = [] then newGroup else case an_MGet an of
             None \<Rightarrow> newGroup | Some res \<Rightarrow> sync_loads (zip nodeIDs res) newGroup)
       in (d\<lparr>d_services := (d_services d)(svcName \<mapsto> newGroup')\<rparr>, revision)))"

definition Discoverer_Watch :: "range_order \<Rightarrow> unmarshal \<Rightarrow> answers \<Rightarrow> string \<Rightarrow> discoverer \<Rightarrow> discoverer" where
  "Discoverer_Watch ord unm an svcName d = (if svcName \<in> d_watching d then d else
     let d1 = d\<lparr>d_watching := insert svcName (d_watching d)\<rparr>;
         d2 = fst (syncSvcFullState ord unm an svcName d1)
     in d2\<lparr>d_loops := d_loops d2 @ [svcName]\<rparr>)"

definition upsertNode :: "range_order \<Rightarrow> unmarshal \<Rightarrow> string \<Rightarrow> string \<Rightarrow> discoverer \<Rightarrow> discoverer" where
  "upsertNode ord unm key val d = (case unm val of
     None \<Rightarrow> d
   | Some meta \<Rightarrow> (case parseServicePath key of
       None \<Rightarrow> d
     | Some (svcName, svcID) \<Rightarrow>
         let one = (case d_services d svcName of None \<Rightarrow> newNodeGroup | Some g \<Rightarrow> g)
         in d\<lparr>d_services := (d_services d)(svcName \<mapsto> group_Add ord (meta\<lparr>NodeID := svcID\<rparr>) one)\<rparr>))"

definition removeNode :: "range_order \<Rightarrow> string \<Rightarrow> discoverer \<Rightarrow> discoverer" where
  "removeNode ord key d = (case parseServicePath key of
     None \<Rightarrow> d
   | Some (svcName, svcID) \<Rightarrow> (case d_services d svcName of
       None \<Rightarrow> d
     | Some one \<Rightarrow> (case group_Delete ord svcID one of (one', nowEmpty) \<Rightarrow>
         d\<lparr>d_services := (d_services d)(svcName := (if nowEmpty then None else Some one'))\<rparr>)))"

datatype etcd_event = EventTypePut string string | EventTypeDelete string

datatype wresp = Canceled | Events "etcd_event list"

fun watch_event :: "range_order \<Rightarrow> unmarshal \<Rightarrow> etcd_event \<Rightarrow> discoverer \<Rightarrow> discoverer" where
  "watch_event ord unm (EventTypePut key val) d = upsertNode ord unm key val d"
| "watch_event ord unm (EventTypeDelete key) d = removeNode ord key d"

fun watch_range :: "range_order \<Rightarrow> unmarshal \<Rightarrow> wresp list \<Rightarrow> discoverer \<Rightarrow> discoverer" where
  "watch_range ord unm [] d = d"
| "watch_range ord unm (Canceled # _) d = d"
| "watch_range ord unm (Events evs # rs) d = watch_range ord unm rs (fold (watch_event ord unm) evs d)"

text \<open>Each round of the loop has the answers to its full load and the responses of the watch it then starts.\<close>

fun watchEtcdLoop :: "range_order \<Rightarrow> unmarshal \<Rightarrow> string \<Rightarrow> (answers \<times> wresp list) list \<Rightarrow> discoverer \<Rightarrow> discoverer" where
  "watchEtcdLoop ord unm svcName [] d = d"
| "watchEtcdLoop ord unm svcName ((an, rs) # rounds) d = (if d_done d then d else
     (case syncSvcFullState ord unm an svcName d of (d', revision) \<Rightarrow>
        watchEtcdLoop ord unm svcName rounds (if revision = 0 then d' else watch_range ord unm rs d')))"

text \<open>One message on the load channel of a service; the channel itself is Redis.\<close>

definition watchRedis :: "unmarshal \<Rightarrow> string \<Rightarrow> discoverer \<Rightarrow> discoverer" where
  "watchRedis unm payload d = (case unm payload of
     None \<Rightarrow> d
   | Some loadMsg \<Rightarrow> (case d_services d (SvcName loadMsg) of
       None \<Rightarrow> d
     | Some grp \<Rightarrow> d\<lparr>d_services := (d_services d)(SvcName loadMsg \<mapsto> group_UpdateLoad (NodeID loadMsg) (Load loadMsg) grp)\<rparr>))"

definition getService :: "range_order \<Rightarrow> unmarshal \<Rightarrow> answers \<Rightarrow> string \<Rightarrow> discoverer \<Rightarrow> nodeGroup option \<times> discoverer" where
  "getService ord unm an svcName d = (case d_services d svcName of
     Some one \<Rightarrow> (Some one, d)
   | None \<Rightarrow> let d' = Discoverer_Watch ord unm an svcName d in (d_services d' svcName, d'))"

definition Discoverer_Select ::
    "range_order \<Rightarrow> unmarshal \<Rightarrow> answers \<Rightarrow> nat \<Rightarrow> nat \<Rightarrow> string \<Rightarrow> discoverer \<Rightarrow> int option option \<times> discoverer" where
  "Discoverer_Select ord unm an i j svcName d = (case getService ord unm an svcName d of
     (None, d') \<Rightarrow> (Some None, d')
   | (Some one, d') \<Rightarrow> (SelectNode i j one, d'))"

definition Discoverer_Exists :: "range_order \<Rightarrow> unmarshal \<Rightarrow> answers \<Rightarrow> string \<Rightarrow> int \<Rightarrow> discoverer \<Rightarrow> bool \<times> discoverer" where
  "Discoverer_Exists ord unm an svcName nid d = (case getService ord unm an svcName d of
     (None, d') \<Rightarrow> (False, d')
   | (Some one, d') \<Rightarrow> (group_Exists nid one, d'))"

definition GetAllNodes :: "range_order \<Rightarrow> unmarshal \<Rightarrow> answers \<Rightarrow> string \<Rightarrow> discoverer \<Rightarrow> int list option \<times> discoverer" where
  "GetAllNodes ord unm an svcName d = (case getService ord unm an svcName d of
     (None, d') \<Rightarrow> (None, d')
   | (Some one, d') \<Rightarrow> (Some (AllNodeIDs one), d'))"

subsection \<open>The cache is the content of etcd\<close>

definition cached :: "string \<Rightarrow> discoverer \<Rightarrow> int set" where
  "cached svc d = (case d_services d svc of None \<Rightarrow> {} | Some g \<Rightarrow> dom (ng_nodes g))"

definition disc_ok :: "discoverer \<Rightarrow> bool" where
  "disc_ok d \<longleftrightarrow> (\<forall>svc g. d_services d svc = Some g \<longrightarrow> group_ok g)"

lemma disc_okD: "disc_ok d \<Longrightarrow> d_services d svc = Some g \<Longrightarrow> group_ok g"
  by (simp add: disc_ok_def)

lemma disc_ok_upd: "disc_ok d \<Longrightarrow> group_ok g \<Longrightarrow> disc_ok (d\<lparr>d_services := (d_services d)(svc \<mapsto> g)\<rparr>)"
  by (simp add: disc_ok_def)

lemma cached_upd:
  "cached svc (d\<lparr>d_services := (d_services d)(svc' \<mapsto> g)\<rparr>) = (if svc' = svc then dom (ng_nodes g) else cached svc d)"
  by (simp add: cached_def)

lemma sync_loads_ok:
  assumes "group_ok g"
  shows "group_ok (sync_loads xs g) \<and> dom (ng_nodes (sync_loads xs g)) = dom (ng_nodes g)"
  unfolding sync_loads_def
  by (rule fold_invariant) (use assms in \<open>simp_all add: group_UpdateLoad_ok split: prod.split option.split\<close>)

definition svc_keys :: "string \<Rightarrow> string \<Rightarrow> string set" where
  "svc_keys prefix svc = {etcdPath prefix svc i | i. is_i32 i}"

lemma etcdPath_inj [simp]: "etcdPath p s i = etcdPath p s j \<longleftrightarrow> Itoa i = Itoa j"
  by (simp add: etcdPath_def)

lemma Itoa_i32_inj: "is_i32 i \<Longrightarrow> is_i32 j \<Longrightarrow> Itoa i = Itoa j \<longleftrightarrow> i = j"
  by (metis Atoi_Itoa option.inject)

lemma sync_fold:
  assumes "order_ok ord" "svc \<noteq> []" "CHR ''/'' \<notin> set svc" "group_ok g"
    and "\<forall>(k, v) \<in> set kvs. k \<in> svc_keys prefix svc \<and> unm v \<noteq> None"
    and "fold (sync_kv ord unm svc) kvs (g, ks, ids) = (g', ks', ids')"
  shows "group_ok g' \<and> dom (ng_nodes g') = dom (ng_nodes g) \<union> {i. is_i32 i \<and> etcdPath prefix svc i \<in> fst ` set kvs}"
  using assms(4-)
proof (induction kvs arbitrary: g ks ids)
  case Nil
  then show ?case by simp
next
  case (Cons kv kvs)
  obtain i v meta where kv: "kv = (etcdPath prefix svc i, v)" "is_i32 i" "unm v = Some meta"
    using Cons.prems(2) by (cases kv) (auto simp: svc_keys_def)
  let ?g = "group_Add ord (meta\<lparr>NodeID := i\<rparr>) g"
  have "sync_kv ord unm svc kv (g, ks, ids) = (?g, ks @ [redisKeyOfUpload svc i], ids @ [i])"
    using kv assms(2,3) by (simp add: sync_kv_def parse_etcdPath)
  then have "group_ok g' \<and> dom (ng_nodes g') = dom (ng_nodes ?g) \<union> {i. is_i32 i \<and> etcdPath prefix svc i \<in> fst ` set kvs}"
    using Cons.IH [of ?g] Cons.prems group_Add_ok [OF assms(1) Cons.prems(1)] by simp
  moreover have "dom (ng_nodes ?g) = insert i (dom (ng_nodes g))"
    using group_Add_ok(2) [OF assms(1) Cons.prems(1)] by simp
  ultimately show ?case using kv by (auto simp: Itoa_i32_inj)
qed

lemma sync_state:
  assumes "order_ok ord" "svc \<noteq> []" "CHR ''/'' \<notin> set svc" "disc_ok d"
    and "\<forall>(k, v) \<in> set kvs. k \<in> svc_keys prefix svc \<and> unm v \<noteq> None"
    and "an_Get an = Some (kvs, r)"
  shows "disc_ok (fst (syncSvcFullState ord unm an svc d))
    \<and> cached s (fst (syncSvcFullState ord unm an svc d))
        = (if s = svc then {i. is_i32 i \<and> map_of kvs (etcdPath prefix svc i) \<noteq> None} else cached s d)
    \<and> d_watching (fst (syncSvcFullState ord unm an svc d)) = d_watching d"
proof -
  obtain g ks ids where f: "fold (sync_kv ord unm svc) kvs (newNodeGroup, [], []) = (g, ks, ids)"
    by (cases "fold (sync_kv ord unm svc) kvs (newNodeGroup, [], [])") auto
  have g: "group_ok g" "dom (ng_nodes g) = {i. is_i32 i \<and> etcdPath prefix svc i \<in> fst ` set kvs}"
    using sync_fold [OF assms(1-3) newNodeGroup_ok(1) assms(5) f] by auto
  define g' where "g' = (if ks = [] then g else case an_MGet an of None \<Rightarrow> g | Some res \<Rightarrow> sync_loads (zip ids res) g)"
  have g': "group_ok g'" "dom (ng_nodes g') = dom (ng_nodes g)"
    using g sync_loads_ok [OF g(1)] by (auto simp: g'_def split: option.split)
  have "fst (syncSvcFullState ord unm an svc d) = d\<lparr>d_services := (d_services d)(svc \<mapsto> g')\<rparr>"
    using f assms(6) by (simp add: syncSvcFullState_def g'_def Let_def)
  then show ?thesis
    using g' g assms(4) by (auto simp: cached_upd disc_ok_upd map_of_eq_None_iff)
qed

lemma upsert_state:
  assumes "order_ok ord" "svc \<noteq> []" "CHR ''/'' \<notin> set svc" "disc_ok d" "is_i32 i" "unm v \<noteq> None"
  shows "disc_ok (upsertNode ord unm (etcdPath prefix svc i) v d)
    \<and> cached s (upsertNode ord unm (etcdPath prefix svc i) v d) = (if s = svc then insert i (cached s d) else cached s d)
    \<and> d_watching (upsertNode ord unm (etcdPath prefix svc i) v d) = d_watching d"
proof -
  define one where "one = (case d_services d svc of None \<Rightarrow> newNodeGroup | Some g \<Rightarrow> g)"
  have one: "group_ok one" "dom (ng_nodes one) = cached svc d"
    using assms(4) by (auto simp: one_def cached_def disc_ok_def split: option.split)
  obtain meta where "unm v = Some meta" using assms(6) by blast
  then have "upsertNode ord unm (etcdPath prefix svc i) v d
      = d\<lparr>d_services := (d_services d)(svc \<mapsto> group_Add ord (meta\<lparr>NodeID := i\<rparr>) one)\<rparr>"
    using parse_etcdPath [OF assms(2,3,5), of prefix] by (simp add: upsertNode_def one_def Let_def)
  then show ?thesis
    using one group_Add_ok [OF assms(1) one(1)] assms(4) by (simp add: cached_upd disc_ok_upd)
qed

lemma remove_state:
  assumes "order_ok ord" "svc \<noteq> []" "CHR ''/'' \<notin> set svc" "disc_ok d" "is_i32 i"
  shows "disc_ok (removeNode ord (etcdPath prefix svc i) d)
    \<and> cached s (removeNode ord (etcdPath prefix svc i) d) = (if s = svc then cached s d - {i} else cached s d)
    \<and> d_watching (removeNode ord (etcdPath prefix svc i) d) = d_watching d"
proof (cases "d_services d svc")
  case None
  then show ?thesis
    using parse_etcdPath [OF assms(2,3,5), of prefix] assms(4) by (simp add: removeNode_def cached_def)
next
  case (Some one)
  then have ok: "group_ok one" using assms(4) by (rule disc_okD [rotated])
  obtain one' b where del: "group_Delete ord i one = (one', b)" by (cases "group_Delete ord i one") auto
  have "removeNode ord (etcdPath prefix svc i) d = d\<lparr>d_services := (d_services d)(svc := (if b then None else Some one'))\<rparr>"
    using parse_etcdPath [OF assms(2,3,5), of prefix] Some del by (simp add: removeNode_def)
  moreover have "group_ok one'" "dom (ng_nodes one') = dom (ng_nodes one) - {i}" "b \<longleftrightarrow> dom (ng_nodes one) - {i} = {}"
    using group_Delete_ok [OF assms(1) ok, of i] del by simp_all
  ultimately show ?thesis
    using Some assms(4) by (auto simp: cached_def disc_ok_def)
qed

lemma watchRedis_state:
  assumes "disc_ok d"
  shows "disc_ok (watchRedis unm p d) \<and> cached s (watchRedis unm p d) = cached s d \<and> d_watching (watchRedis unm p d) = d_watching d"
proof -
  have "group_ok (group_UpdateLoad i l g)" "dom (ng_nodes (group_UpdateLoad i l g)) = dom (ng_nodes g)"
      if "d_services d s = Some g" for s g i l
    using group_UpdateLoad_ok [OF disc_okD [OF assms that]] by auto
  then show ?thesis
    using assms by (auto simp: watchRedis_def cached_def disc_ok_upd split: option.split)
qed

text \<open>
  What reaches the cache after the full load: the events of the etcd watch, in order, and load reports from Redis in
  between.  \<open>etcd_after\<close> is the content of etcd under the service's prefix after them.
\<close>

datatype feed = Etcd etcd_event | LoadReport string

fun feed_step :: "range_order \<Rightarrow> unmarshal \<Rightarrow> feed \<Rightarrow> discoverer \<Rightarrow> discoverer" where
  "feed_step ord unm (Etcd ev) d = watch_event ord unm ev d"
| "feed_step ord unm (LoadReport p) d = watchRedis unm p d"

fun etcd_step :: "feed \<Rightarrow> (string \<rightharpoonup> string) \<Rightarrow> (string \<rightharpoonup> string)" where
  "etcd_step (Etcd (EventTypePut k v)) m = m(k \<mapsto> v)"
| "etcd_step (Etcd (EventTypeDelete k)) m = m(k := None)"
| "etcd_step (LoadReport _) m = m"

definition etcd_after :: "(string \<times> string) list \<Rightarrow> feed list \<Rightarrow> (string \<rightharpoonup> string)" where
  "etcd_after kvs fs = fold etcd_step fs (map_of kvs)"

fun feed_ok :: "unmarshal \<Rightarrow> string set \<Rightarrow> feed \<Rightarrow> bool" where
  "feed_ok unm K (Etcd (EventTypePut k v)) \<longleftrightarrow> k \<in> K \<and> unm v \<noteq> None"
| "feed_ok unm K (Etcd (EventTypeDelete k)) \<longleftrightarrow> k \<in> K"
| "feed_ok unm K (LoadReport _) \<longleftrightarrow> True"

lemma feeds_state:
  assumes "order_ok ord" "svc \<noteq> []" "CHR ''/'' \<notin> set svc" "disc_ok d"
    and "\<forall>f \<in> set fs. feed_ok unm (svc_keys prefix svc) f"
    and "cached svc d = {i. is_i32 i \<and> m (etcdPath prefix svc i) \<noteq> None}"
  shows "disc_ok (fold (feed_step ord unm) fs d)
    \<and> cached svc (fold (feed_step ord unm) fs d) = {i. is_i32 i \<and> fold etcd_step fs m (etcdPath prefix svc i) \<noteq> None}
    \<and> (\<forall>s. s \<noteq> svc \<longrightarrow> cached s (fold (feed_step ord unm) fs d) = cached s d)
    \<and> d_watching (fold (feed_step ord unm) fs d) = d_watching d"
  using assms(4-)
proof (induction fs arbitrary: d m)
  case Nil
  then show ?case by simp
next
  case (Cons f fs)
  have step: "disc_ok (feed_step ord unm f d)
    \<and> cached svc (feed_step ord unm f d) = {i. is_i32 i \<and> etcd_step f m (etcdPath prefix svc i) \<noteq> None}
    \<and> (\<forall>s. s \<noteq> svc \<longrightarrow> cached s (feed_step ord unm f d) = cached s d)
    \<and> d_watching (feed_step ord unm f d) = d_watching d"
  proof (cases f)
    case (LoadReport p)
    then show ?thesis using watchRedis_state [OF Cons.prems(1)] Cons.prems(3) by simp
  next
    case (Etcd ev)
    show ?thesis
    proof (cases ev)
      case (EventTypePut k v)
      then obtain i where i: "is_i32 i" "k = etcdPath prefix svc i" "unm v \<noteq> None"
        using Cons.prems(2) Etcd by (auto simp: svc_keys_def)
      then show ?thesis
        using Etcd EventTypePut upsert_state [OF assms(1-3) Cons.prems(1) i(1), where unm = unm and v = v and prefix = prefix] Cons.prems(3)
        by (auto simp: Itoa_i32_inj)
    next
      case (EventTypeDelete k)
      then obtain i where i: "is_i32 i" "k = etcdPath prefix svc i"
        using Cons.prems(2) Etcd by (auto simp: svc_keys_def)
      then show ?thesis
        using Etcd EventTypeDelete remove_state [OF assms(1-3) Cons.prems(1) i(1), where prefix = prefix] Cons.prems(3)
        by (auto simp: Itoa_i32_inj)
    qed
  qed
  then show ?case
    using Cons.IH [of "feed_step ord unm f d" "etcd_step f m"] Cons.prems(2) by simp
qed

lemma Exists_cached:
  "svc \<in> d_watching d \<Longrightarrow> fst (Discoverer_Exists ord unm an svc i d) \<longleftrightarrow> i \<in> cached svc d"
  by (auto simp: Discoverer_Exists_def getService_def cached_def group_Exists_def Discoverer_Watch_def split: option.split)

lemma Select_cached:
  assumes "svc \<in> d_watching d" "disc_ok d" "cached svc d \<noteq> {}"
  shows "\<exists>nid \<in> cached svc d. fst (Discoverer_Select ord unm an i j svc d) = Some (Some nid)"
proof -
  obtain g where g: "d_services d svc = Some g"
    using assms(3) by (cases "d_services d svc") (auto simp: cached_def)
  then have ok: "group_ok g" using assms(2) by (rule disc_okD [rotated])
  have "cached svc d = dom (ng_nodes g)" using g by (simp add: cached_def)
  then show ?thesis
    using SelectNode_spec [OF ok, of i j] assms(3) g by (auto simp: Discoverer_Select_def getService_def)
qed

lemma Select_empty:
  assumes "svc \<in> d_watching d" "disc_ok d" "cached svc d = {}"
  shows "fst (Discoverer_Select ord unm an i j svc d) = Some None"
proof (cases "d_services d svc")
  case None
  then show ?thesis using assms(1) by (simp add: Discoverer_Select_def getService_def Discoverer_Watch_def)
next
  case (Some g)
  then show ?thesis
    using assms(3) SelectNode_none [OF disc_okD [OF assms(2) Some]] by (simp add: Discoverer_Select_def getService_def cached_def)
qed

text \<open>
  C25. The cache follows etcd.  Start from a full load of a watched service and apply any events of the watch, with load
  reports in between.  Then \<open>Exists\<close> answers for every node number whether the node is registered in etcd at that point;
  \<open>Select\<close> finds no node if none is registered, and otherwise, whatever the random numbers, returns one that is; and
  the nodes known of other services are untouched.  (The registrations are made under the paths \<open>etcdPath\<close> builds and
  their values decode.)
\<close>

theorem discovery_tracks_etcd:
  fixes kvs fs ord unm an an' prefix svc d r
  defines "d' \<equiv> fold (feed_step ord unm) fs (fst (syncSvcFullState ord unm an svc d))"
    and "registered \<equiv> {i. is_i32 i \<and> etcd_after kvs fs (etcdPath prefix svc i) \<noteq> None}"
  assumes "order_ok ord" "disc_ok d" "svc \<in> d_watching d" "svc \<noteq> []" "CHR ''/'' \<notin> set svc"
    and "an_Get an = Some (kvs, r)"
    and "\<forall>(k, v) \<in> set kvs. k \<in> svc_keys prefix svc \<and> unm v \<noteq> None"
    and "\<forall>f \<in> set fs. feed_ok unm (svc_keys prefix svc) f"
  shows "(\<forall>i. fst (Discoverer_Exists ord unm an' svc i d') \<longleftrightarrow> i \<in> registered)
    \<and> (registered = {} \<longrightarrow> fst (Discoverer_Select ord unm an' i1 j1 svc d') = Some None)
    \<and> (registered \<noteq> {}
         \<longrightarrow> (\<exists>nid \<in> registered. fst (Discoverer_Select ord unm an' i1 j1 svc d') = Some (Some nid)))
    \<and> (\<forall>s. s \<noteq> svc \<longrightarrow> cached s d' = cached s d)"
proof -
  let ?d0 = "fst (syncSvcFullState ord unm an svc d)"
  have 0: "disc_ok ?d0" "cached svc ?d0 = {i. is_i32 i \<and> map_of kvs (etcdPath prefix svc i) \<noteq> None}"
      "\<And>s. s \<noteq> svc \<Longrightarrow> cached s ?d0 = cached s d" "d_watching ?d0 = d_watching d"
    using sync_state [OF assms(3,6,7,4,9,8)] by auto
  have 1: "disc_ok d'" "cached svc d' = registered" "\<And>s. s \<noteq> svc \<Longrightarrow> cached s d' = cached s d" "svc \<in> d_watching d'"
    using feeds_state [OF assms(3,6,7) 0(1) assms(10) 0(2)] 0(3,4) assms(5)
    by (auto simp: d'_def registered_def etcd_after_def)
  show ?thesis
    using Exists_cached [OF 1(4)] Select_empty [OF 1(4,1)] Select_cached [OF 1(4,1)] 1(2,3) by simp
qed

definition demo_order :: range_order where
  "demo_order m = sorted_list_of_set (dom m)"

definition demo_disc :: discoverer where
  "demo_disc = (NewDiscovery ''/service/demo'')\<lparr>d_watching := {''Game''}\<rparr>"

definition demo_path :: "int \<Rightarrow> string" where
  "demo_path = etcdPath ''/service/demo'' ''Game''"

definition demo_feeds :: "feed list" where
  "demo_feeds = [Etcd (EventTypeDelete (demo_path 1)), LoadReport ''r'', Etcd (EventTypePut (demo_path 3) ''n'')]"

definition demo_unm :: unmarshal where
  "demo_unm v = Some \<lparr>SvcName = ''Game'', NodeID = 2, Load = 7\<rparr>"

definition demo_an :: answers where
  "demo_an = \<lparr>an_Get = Some ([(demo_path 1, ''n''), (demo_path 2, ''n'')], 5), an_MGet = None\<rparr>"

lemma demo_order_ok: "order_ok demo_order"
  by (simp add: order_ok_def demo_order_def is_order_def)

lemma demo_registered:
  "{i. is_i32 i \<and> etcd_after [(demo_path 1, ''n''), (demo_path 2, ''n'')] demo_feeds (etcdPath ''/service/demo'' ''Game'' i) \<noteq> None} = {2, 3}"
proof -
  have r: "is_i32 1" "is_i32 2" "is_i32 3" by (simp_all add: is_i32_def)
  show ?thesis
    using r by (auto simp: etcd_after_def demo_feeds_def demo_path_def Itoa_i32_inj split: if_splits)
qed

theorem discovery_tracks_etcd_witness:
  "fst (Discoverer_Exists demo_order demo_unm demo_an ''Game'' 3
      (fold (feed_step demo_order demo_unm) demo_feeds (fst (syncSvcFullState demo_order demo_unm demo_an ''Game'' demo_disc))))
   \<and> \<not> fst (Discoverer_Exists demo_order demo_unm demo_an ''Game'' 1
      (fold (feed_step demo_order demo_unm) demo_feeds (fst (syncSvcFullState demo_order demo_unm demo_an ''Game'' demo_disc))))
   \<and> (\<exists>nid \<in> {2, 3}. fst (Discoverer_Select demo_order demo_unm demo_an 1 0 ''Game''
      (fold (feed_step demo_order demo_unm) demo_feeds (fst (syncSvcFullState demo_order demo_unm demo_an ''Game'' demo_disc)))) = Some (Some nid))"
proof -
  have k: "demo_path i \<in> svc_keys ''/service/demo'' ''Game''" if "is_i32 i" for i
    using that by (auto simp: svc_keys_def demo_path_def)
  have r: "is_i32 1" "is_i32 2" "is_i32 3" by (simp_all add: is_i32_def)
  have h: "disc_ok demo_disc" "''Game'' \<in> d_watching demo_disc"
      "an_Get demo_an = Some ([(demo_path 1, ''n''), (demo_path 2, ''n'')], 5)"
    by (simp_all add: demo_disc_def NewDiscovery_def disc_ok_def demo_an_def)
  have "\<forall>(p, v) \<in> set [(demo_path 1, ''n''), (demo_path 2, ''n'')]. p \<in> svc_keys ''/service/demo'' ''Game'' \<and> demo_unm v \<noteq> None"
      "\<forall>f \<in> set demo_feeds. feed_ok demo_unm (svc_keys ''/service/demo'' ''Game'') f"
    using k r by (simp_all add: demo_unm_def demo_feeds_def)
  from discovery_tracks_etcd [OF demo_order_ok h(1,2) _ _ h(3) this, of demo_an 1 0]
  show ?thesis unfolding demo_registered by simp
qed

section \<open>Registering the own node\<close>

record register =
  rg_leaseID :: int
  rg_key :: string
  rg_value :: string
  rg_ttl :: int
  rg_svcName :: string
  rg_svcID :: int
  rg_currentLoad :: int
  rg_first :: bool
  rg_done :: bool

text \<open>The requests a node sends to etcd.\<close>

datatype etcd_req = Grant int | PutLease string string int | KeepAlive int | Revoke int

text \<open>\<open>grant\<close> is the lease etcd grants, if it does; \<open>put\<close> whether the put succeeds.  The result says whether there was no error.\<close>

definition initialRegister :: "int option \<Rightarrow> bool \<Rightarrow> register \<Rightarrow> register \<times> etcd_req list \<times> bool" where
  "initialRegister grant put s = (case grant of
     None \<Rightarrow> (s, [Grant (rg_ttl s)], False)
   | Some lease \<Rightarrow> (s\<lparr>rg_leaseID := lease\<rparr>, [Grant (rg_ttl s), PutLease (rg_key s) (rg_value s) lease], put))"

definition NewRegister ::
    "(Node \<Rightarrow> string option) \<Rightarrow> int option \<Rightarrow> bool \<Rightarrow> string \<Rightarrow> string \<Rightarrow> Node \<Rightarrow> int \<Rightarrow> register option \<times> etcd_req list" where
  "NewRegister marshal grant put prefix svcName m ttl = (case marshal m of
     None \<Rightarrow> (None, [])
   | Some b \<Rightarrow> (case initialRegister grant put
         \<lparr>rg_leaseID = 0, rg_key = etcdPath prefix svcName (NodeID m), rg_value = b, rg_ttl = ttl, rg_svcName = svcName,
          rg_svcID = NodeID m, rg_currentLoad = 0, rg_first = True, rg_done = False\<rparr> of
       (r, reqs, ok) \<Rightarrow> (if ok then Some r else None, reqs)))"

text \<open>
  One call of \<^verbatim>\<open>keepAlive\<close>: what etcd answers to a new registration, whether \<^verbatim>\<open>KeepAlive\<close> itself fails, and whether the
  loop over its channel ends because the context is cancelled (otherwise because the channel is closed).
\<close>

record ka_answers =
  ka_grant :: "int option"
  ka_put :: bool
  ka_fails :: bool
  ka_cancelled :: bool

definition keepAlive :: "ka_answers \<Rightarrow> register \<Rightarrow> register \<times> etcd_req list \<times> bool" where
  "keepAlive an s =
     (let (s1, reqs) = (if \<not> rg_first s
            then (case initialRegister (ka_grant an) (ka_put an) s of (s', rs, _) \<Rightarrow> (s'\<lparr>rg_first := False\<rparr>, rs))
            else (s, []));
          reqs' = reqs @ [KeepAlive (rg_leaseID s1)]
      in if ka_fails an then (s1, reqs', False)
         else if ka_cancelled an then (s1\<lparr>rg_done := True\<rparr>, reqs', True)
         else (s1, reqs', False))"

fun keepAliveLoop :: "ka_answers list \<Rightarrow> register \<Rightarrow> register \<times> etcd_req list" where
  "keepAliveLoop [] s = (s, [])"
| "keepAliveLoop (an # ans) s = (if rg_done s then (s, []) else
     (case keepAlive an s of (s', reqs, _) \<Rightarrow> (case keepAliveLoop ans s' of (s'', reqs') \<Rightarrow> (s'', reqs @ reqs'))))"

definition Register_UpdateLoad :: "int \<Rightarrow> register \<Rightarrow> register" where
  "Register_UpdateLoad load s = s\<lparr>rg_currentLoad := load\<rparr>"

text \<open>One tick of \<^verbatim>\<open>reportLoadLoop\<close>, on its local variables \<^verbatim>\<open>lastReportedLoad\<close> and \<^verbatim>\<open>ticksSinceLastReport\<close>.\<close>

definition reportLoadLoop :: "register \<Rightarrow> int \<times> nat \<Rightarrow> (int \<times> nat) \<times> Node option" where
  "reportLoadLoop s = (\<lambda>(lastReportedLoad, ticks).
     let load = rg_currentLoad s; ticks' = ticks + 1 in
     if \<bar>to_i32 (load - lastReportedLoad)\<bar> > 5 \<or> ticks' > 5
     then ((load, 0), Some \<lparr>SvcName = rg_svcName s, NodeID = rg_svcID s, Load = load\<rparr>)
     else ((lastReportedLoad, ticks'), None))"

definition Register_Close :: "register \<Rightarrow> register \<times> etcd_req list" where
  "Register_Close s = (s\<lparr>rg_done := True\<rparr>, if rg_leaseID s \<noteq> 0 then [Revoke (rg_leaseID s)] else [])"

text \<open>
  Between two reports the published load is off by at most five, and a report is at most six ticks old (loads are the
  non-negative numbers of players, so that the difference does not wrap around).
\<close>

lemma reportLoadLoop_bound:
  assumes "reportLoadLoop s (lst, n) = ((lst', n'), out)" "n \<le> 5" "0 \<le> lst" "lst < 2 ^ 31" "0 \<le> rg_currentLoad s" "rg_currentLoad s < 2 ^ 31"
  shows "n' \<le> 5 \<and> \<bar>rg_currentLoad s - lst'\<bar> \<le> 5 \<and> (out \<noteq> None \<longrightarrow> lst' = rg_currentLoad s) \<and> (n = 5 \<longrightarrow> out \<noteq> None)"
proof -
  have "is_i32 (rg_currentLoad s - lst)" using assms by (simp add: is_i32_def)
  then show ?thesis
    using assms by (auto simp: reportLoadLoop_def Let_def split: if_splits)
qed

lemma keepAlive_first:
  assumes "rg_first s"
  shows "fst (snd (keepAlive an s)) = [KeepAlive (rg_leaseID s)]"
    and "rg_first (fst (keepAlive an s))" and "rg_leaseID (fst (keepAlive an s)) = rg_leaseID s"
  using assms by (simp_all add: keepAlive_def Let_def)

lemma keepAliveLoop_first: "rg_first s \<Longrightarrow> set (snd (keepAliveLoop ans s)) \<subseteq> {KeepAlive (rg_leaseID s)}"
proof (induction ans arbitrary: s)
  case (Cons an ans)
  obtain s' reqs e where k: "keepAlive an s = (s', reqs, e)" by (cases "keepAlive an s") auto
  then have "reqs = [KeepAlive (rg_leaseID s)]" "rg_first s'" "rg_leaseID s' = rg_leaseID s"
    using keepAlive_first [OF Cons.prems, of an] by simp_all
  then show ?case
    using k Cons.IH [of s'] by (auto split: prod.split)
qed simp

text \<open>
  C26. A node that lost its lease never registers again.  The flag \<^verbatim>\<open>first\<close>, which is to make every round of the keep-alive
  loop after the first one register anew, is set when the register is built and never cleared.  Whatever etcd answers, the
  only request the loop ever sends is a keep-alive for the lease it was granted at the start: no new grant and no put.
\<close>

theorem lost_lease_is_never_renewed:
  assumes "NewRegister marshal (Some lease) True prefix svcName m ttl = (Some r, reqs)"
  shows "set (snd (keepAliveLoop ans r)) \<subseteq> {KeepAlive lease}"
proof -
  have "rg_first r" "rg_leaseID r = lease"
    using assms by (auto simp: NewRegister_def initialRegister_def split: option.splits)
  then show ?thesis using keepAliveLoop_first by blast
qed

definition demo_ka :: ka_answers where
  "demo_ka = \<lparr>ka_grant = Some 8, ka_put = True, ka_fails = False, ka_cancelled = False\<rparr>"

theorem lost_lease_is_never_renewed_witness:
  "\<exists>r reqs. NewRegister (\<lambda>_. Some ''v'') (Some 7) True ''/service/demo'' ''Game'' \<lparr>SvcName = ''Game'', NodeID = 2, Load = 0\<rparr> 30 = (Some r, reqs)
     \<and> set (snd (keepAliveLoop [demo_ka, demo_ka] r)) \<subseteq> {KeepAlive 7}
     \<and> snd (keepAliveLoop [demo_ka, demo_ka] r) = [KeepAlive 7, KeepAlive 7]"
proof -
  let ?m = "\<lparr>SvcName = ''Game'', NodeID = 2, Load = 0\<rparr>"
  obtain r reqs where r: "NewRegister (\<lambda>_. Some ''v'') (Some 7) True ''/service/demo'' ''Game'' ?m 30 = (Some r, reqs)"
      and "rg_first r" "rg_leaseID r = 7" "\<not> rg_done r"
    by (simp add: NewRegister_def initialRegister_def)
  then show ?thesis
    using lost_lease_is_never_renewed [OF r, of "[demo_ka, demo_ka]"] by (auto simp: keepAlive_def demo_ka_def)
qed

section \<open>The manager\<close>

record manager =
  mg_register :: "register option"
  mg_discovery :: "discoverer option"
  mg_prefix :: string

definition NewManager :: "string \<Rightarrow> manager" where
  "NewManager product = \<lparr>mg_register = None, mg_discovery = None, mg_prefix = ''/service/'' @ product\<rparr>"

definition Manager_Register ::
    "(Node \<Rightarrow> string option) \<Rightarrow> int option \<Rightarrow> bool \<Rightarrow> string \<Rightarrow> Node \<Rightarrow> manager \<Rightarrow> manager \<times> etcd_req list" where
  "Manager_Register marshal grant put srvName n m = (case NewRegister marshal grant put (mg_prefix m) srvName n 30 of
     (r, reqs) \<Rightarrow> (m\<lparr>mg_register := r\<rparr>, reqs))"

definition Manager_Watch :: "range_order \<Rightarrow> unmarshal \<Rightarrow> (string \<Rightarrow> answers) \<Rightarrow> string list \<Rightarrow> manager \<Rightarrow> manager" where
  "Manager_Watch ord unm an deps m =
     m\<lparr>mg_discovery := Some (fold (\<lambda>dep. Discoverer_Watch ord unm (an dep) dep) deps (NewDiscovery (mg_prefix m)))\<rparr>"

definition Manager_UpdateLoad :: "int \<Rightarrow> manager \<Rightarrow> manager" where
  "Manager_UpdateLoad load m = m\<lparr>mg_register := map_option (Register_UpdateLoad load) (mg_register m)\<rparr>"

definition Manager_Close :: "manager \<Rightarrow> manager \<times> etcd_req list" where
  "Manager_Close m =
     (m\<lparr>mg_register := map_option (fst \<circ> Register_Close) (mg_register m),
        mg_discovery := map_option Discoverer_Close (mg_discovery m)\<rparr>,
      case mg_register m of None \<Rightarrow> [] | Some r \<Rightarrow> snd (Register_Close r))"

definition Manager_Exists :: "range_order \<Rightarrow> unmarshal \<Rightarrow> answers \<Rightarrow> string \<Rightarrow> int \<Rightarrow> manager \<Rightarrow> bool \<times> manager" where
  "Manager_Exists ord unm an srvName nid m = (case mg_discovery m of
     None \<Rightarrow> (False, m)
   | Some d \<Rightarrow> (case Discoverer_Exists ord unm an srvName nid d of (b, d') \<Rightarrow> (b, m\<lparr>mg_discovery := Some d'\<rparr>)))"

definition Manager_Select ::
    "range_order \<Rightarrow> unmarshal \<Rightarrow> answers \<Rightarrow> nat \<Rightarrow> nat \<Rightarrow> string \<Rightarrow> manager \<Rightarrow> int option option \<times> manager" where
  "Manager_Select ord unm an i j srvName m = (case mg_discovery m of
     None \<Rightarrow> (Some None, m)
   | Some d \<Rightarrow> (case Discoverer_Select ord unm an i j srvName d of (res, d') \<Rightarrow> (res, m\<lparr>mg_discovery := Some d'\<rparr>)))"

text \<open>After the manager watched its dependencies every one of them is watched, and what it loaded is well formed.\<close>

lemma Watch_watching: "d_watching (Discoverer_Watch ord unm an svc d) = insert svc (d_watching d)"
  by (auto simp: Discoverer_Watch_def syncSvcFullState_def Let_def split: option.split prod.split)

lemma Manager_Watch_watching:
  "\<exists>d. mg_discovery (Manager_Watch ord unm an deps m) = Some d \<and> d_watching d = set deps"
proof -
  have "d_watching (fold (\<lambda>dep. Discoverer_Watch ord unm (an dep) dep) deps d) = d_watching d \<union> set deps" for d
    by (induction deps arbitrary: d) (auto simp: Watch_watching)
  then show ?thesis by (simp add: Manager_Watch_def NewDiscovery_def)
qed

subsection \<open>Lookups never panic\<close>

text \<open>
  Whatever etcd and Redis answer, also under keys no node registered, the groups stay well formed, so that \<open>Select\<close>
  never panics; a node it returns is known to \<open>Exists\<close>.
\<close>

lemma sync_fold_ok:
  assumes "order_ok ord" "group_ok (fst acc)"
  shows "group_ok (fst (fold (sync_kv ord unm svc) kvs acc))"
proof (rule fold_invariant)
  show "group_ok (fst (sync_kv ord unm svc kv a))" if "group_ok (fst a)" for kv a
    using that group_Add_ok(1) [OF assms(1)] by (auto simp: sync_kv_def split: option.split prod.split)
qed (rule assms(2))

lemma sync_ok:
  assumes "order_ok ord" "disc_ok d"
  shows "disc_ok (fst (syncSvcFullState ord unm an svc d))"
proof (cases "an_Get an")
  case (Some a)
  obtain kvs r where a: "a = (kvs, r)" by fastforce
  obtain g ks ids where f: "fold (sync_kv ord unm svc) kvs (newNodeGroup, [], []) = (g, ks, ids)"
    using prod_cases3 by blast
  then have g: "group_ok g" using sync_fold_ok [OF assms(1), of "(newNodeGroup, [], [])" unm svc kvs] by simp
  have "group_ok (if ks = [] then g else case an_MGet an of None \<Rightarrow> g | Some res \<Rightarrow> sync_loads (zip ids res) g)"
    using g sync_loads_ok [OF g] by (auto split: option.split)
  from disc_ok_upd [OF assms(2) this] show ?thesis
    using Some a f by (simp add: syncSvcFullState_def Let_def)
qed (simp add: syncSvcFullState_def assms(2))

lemma Watch_ok: "order_ok ord \<Longrightarrow> disc_ok d \<Longrightarrow> disc_ok (Discoverer_Watch ord unm an svc d)"
  using sync_ok [of ord "d\<lparr>d_watching := insert svc (d_watching d)\<rparr>" unm an svc]
  by (simp add: Discoverer_Watch_def Let_def disc_ok_def)

lemma getService_ok:
  assumes "order_ok ord" "disc_ok d" "getService ord unm an svc d = (g, d')"
  shows "disc_ok d'" "d_services d' svc = g" "\<And>one. g = Some one \<Longrightarrow> group_ok one"
  using assms Watch_ok [OF assms(1,2), of unm an svc]
  by (auto simp: getService_def Let_def disc_ok_def split: option.splits)

definition manager_ok :: "manager \<Rightarrow> bool" where
  "manager_ok m \<longleftrightarrow> (case mg_discovery m of None \<Rightarrow> True | Some d \<Rightarrow> disc_ok d)"

lemma Manager_Exists_ok:
  assumes "order_ok ord" "manager_ok m"
  shows "manager_ok (snd (Manager_Exists ord unm an svc nid m))"
  using assms getService_ok(1) [OF assms(1), of _ unm an svc]
  by (auto simp: Manager_Exists_def Discoverer_Exists_def manager_ok_def split: option.split prod.split)

lemma Manager_Select_ok:
  assumes "order_ok ord" "manager_ok m" "Manager_Select ord unm an r1 r2 svc m = (res, m')"
  shows "res \<noteq> None" "manager_ok m'" "res = Some (Some nid) \<Longrightarrow> fst (Manager_Exists ord unm an' svc nid m')"
proof -
  have "res \<noteq> None \<and> manager_ok m' \<and> (res = Some (Some nid) \<longrightarrow> fst (Manager_Exists ord unm an' svc nid m'))"
  proof (cases "mg_discovery m")
    case None
    then show ?thesis using assms by (auto simp: Manager_Select_def)
  next
    case (Some d)
    obtain g d' where gs: "getService ord unm an svc d = (g, d')" by fastforce
    have ok: "disc_ok d'" "d_services d' svc = g" "\<And>one. g = Some one \<Longrightarrow> group_ok one"
      using getService_ok [OF assms(1) _ gs] assms(2) Some by (auto simp: manager_ok_def)
    show ?thesis
    proof (cases g)
      case None
      then show ?thesis using assms(3) Some gs ok by (auto simp: Manager_Select_def Discoverer_Select_def manager_ok_def)
    next
      case g: (Some one)
      then have m': "res = SelectNode r1 r2 one" "m' = m\<lparr>mg_discovery := Some d'\<rparr>"
        using assms(3) Some gs by (auto simp: Manager_Select_def Discoverer_Select_def)
      have one: "group_ok one" using ok(3) g by simp
      have "SelectNode r1 r2 one = Some None \<or> (\<exists>nid. SelectNode r1 r2 one = Some (Some nid) \<and> nid \<in> dom (ng_nodes one))"
        using SelectNode_spec [OF one, of r1 r2] SelectNode_none [OF one, of r1 r2] by blast
      then show ?thesis
        using m' ok g by (auto simp: manager_ok_def Manager_Exists_def Discoverer_Exists_def getService_def group_Exists_def)
    qed
  qed
  then show "res \<noteq> None" "manager_ok m'" "res = Some (Some nid) \<Longrightarrow> fst (Manager_Exists ord unm an' svc nid m')" by auto
qed

lemma Manager_Watch_ok: "order_ok ord \<Longrightarrow> manager_ok (Manager_Watch ord unm an deps m)"
proof -
  assume o: "order_ok ord"
  have "disc_ok (fold (\<lambda>dep. Discoverer_Watch ord unm (an dep) dep) deps (NewDiscovery (mg_prefix m)))"
    by (rule fold_invariant) (simp_all add: Watch_ok [OF o], simp add: disc_ok_def NewDiscovery_def)
  then show ?thesis by (simp add: Manager_Watch_def manager_ok_def)
qed

end
