(* ===== verification/Account.thy ===== *)
theory Account
  imports Discovery Swap_Queue Model_Keys Bus "HOL-Library.Multiset"
begin

text \<open>
  The account service, \<^verbatim>\<open>src/internal/account/auth\<close> and \<^verbatim>\<open>src/internal/account/sdk\<close>: the account data and the two Lua
  scripts that guard it in Redis (\<^verbatim>\<open>acc.go\<close>), the loaders that read accounts in batches from Redis and MongoDB
  (\<^verbatim>\<open>loader.go\<close>), the choice of the game server (\<^verbatim>\<open>service.go\<close>), and the goroutine that answers every login
  (\<^verbatim>\<open>auth.go\<close>).  Redis, MongoDB and the random sources are a world of type \<open>'w\<close> with the operations of the record
  \<open>ext\<close>; the model is of the release build, in which the checks of \<^verbatim>\<open>debug.go\<close> are compiled away.
\<close>

section \<open>Account data\<close>

record C2SLogin =
  cl_SdkType :: int
  cl_Account :: string
  cl_Token :: string
  cl_Reconnect :: bool

text \<open>The message \<^verbatim>\<open>S2SReqLogin\<close> as the account service uses it.\<close>

record login_req =
  rq_Req :: "C2SLogin option"
  rq_SesID :: u64
  rq_RoleID :: u64
  rq_ReConnToken :: u64
  rq_Seq :: u32
  rq_BindAcc :: string
  rq_ConnectedAcc :: "string list"

datatype LoginCode = LCSuccess | LCSdkCheckFaild | LCNoGame | LCCanNotReConn | LCCD | LCFreeze | LCClose | LCSDKCtl
  | LCVersionErr | LCServerFull | LCServerBusy | LCCanNotRegister | LCBindDev | LCServerErr | LCOtherDevLogin
  | LCAccountEmpty | LCSDKErr

record account =
  a_AccID :: u64
  a_Freeze :: bool
  a_GameID :: u8
  a_Seq :: u32
  a_Passwd :: u64
  a_Binds :: "string list"
  a_BindsJSON :: string

definition new_account :: account where
  "new_account = \<lparr>a_AccID = 0, a_Freeze = False, a_GameID = 0, a_Seq = 0, a_Passwd = 0, a_Binds = [], a_BindsJSON = []\<rparr>"

definition AccFields :: "string list" where
  "AccFields = [''acc_id'', ''binds'', ''freeze'', ''game_id'', ''seq'', ''passwd'']"

definition StateFields :: "string list" where
  "StateFields = [''game_id'', ''seq'', ''passwd'']"

definition FormatBindKey :: "int \<Rightarrow> string \<Rightarrow> string" where
  "FormatBindKey sdkType account = Itoa sdkType @ ''@'' @ account"

text \<open>The copy of an account has slices of its own; without an aliasing write it is the same value.\<close>

definition Clone :: "account \<Rightarrow> account" where
  "Clone acc = acc"

definition UnmarshalBinds :: "account \<Rightarrow> account" where
  "UnmarshalBinds acc = (if a_BindsJSON acc \<noteq> [] then acc\<lparr>a_Binds := Split CHR '','' (a_BindsJSON acc)\<rparr> else acc)"

definition MarshalBinds :: "account \<Rightarrow> account \<times> string" where
  "MarshalBinds acc = (let acc' = (if length (a_Binds acc) > 0 then acc\<lparr>a_BindsJSON := Join CHR '','' (a_Binds acc)\<rparr> else acc)
     in (acc', a_BindsJSON acc'))"

text \<open>Numbers become the decimal strings Redis stores and the scripts compare.\<close>

definition fmt_word :: "'a::len word \<Rightarrow> string" where
  "fmt_word x = itoa (unat x)"

lemma digit_0: "digit 0 = CHR ''0''"
  by code_simp

lemma fmt_word_inj [simp]: "fmt_word x = fmt_word y \<longleftrightarrow> x = y"
  by (simp add: fmt_word_def word_unat_eq_iff)

section \<open>The world outside\<close>

text \<open>
  A script sent to Redis is executed and its reply arrives; or the call returns an error, and the script may have been
  executed or not.
\<close>

datatype delivery = Delivered | ReplyLost | NotExecuted

datatype insert_result = Inserted | DuplicateKey | InsertFailed

datatype acc_cmd = CHSet string "(string \<times> string) list" | CExpire string int | CSet string string int

record 'w ext =
  x_HGet :: "string \<Rightarrow> string \<Rightarrow> 'w \<Rightarrow> string option"
  x_HSet :: "string \<Rightarrow> (string \<times> string) list \<Rightarrow> 'w \<Rightarrow> 'w"
  x_Eval :: "'w \<Rightarrow> delivery \<times> 'w"
  x_SetNX :: "string \<Rightarrow> int \<Rightarrow> 'w \<Rightarrow> bool option \<times> 'w"
  x_Gets :: "string list \<Rightarrow> 'w \<Rightarrow> string option list option \<times> 'w"
  x_HMGets :: "(string \<times> string list) list \<Rightarrow> 'w \<Rightarrow> string option list option list option \<times> 'w"
  x_Scan :: "string list \<Rightarrow> string option list \<Rightarrow> account \<Rightarrow> account \<times> bool"
  x_Pipe :: "acc_cmd list \<Rightarrow> 'w \<Rightarrow> bool \<times> 'w"
  x_Get :: "string \<Rightarrow> 'w \<Rightarrow> string option"
  x_Set :: "string \<Rightarrow> string \<Rightarrow> 'w \<Rightarrow> 'w"
  x_Incr :: "string \<Rightarrow> 'w \<Rightarrow> int option \<times> 'w"
  x_Find :: "string list \<Rightarrow> 'w \<Rightarrow> account list option \<times> 'w"
  x_Insert :: "account \<Rightarrow> 'w \<Rightarrow> insert_result \<times> 'w"
  x_AddBind :: "u64 \<Rightarrow> string \<Rightarrow> 'w \<Rightarrow> insert_result \<times> 'w"
  x_order :: "nat list \<Rightarrow> nat list" \<comment> \<open>the order in which a map with these keys is ranged over\<close>
  x_draws :: "'w \<Rightarrow> u64 list \<times> 'w" \<comment> \<open>successive reads from \<^verbatim>\<open>crypto/rand\<close>\<close>
  x_rand :: "'w \<Rightarrow> (nat \<times> nat) \<times> 'w" \<comment> \<open>the two draws of \<open>SelectNode\<close>\<close>
  x_nodes :: range_order
  x_unmarshal :: unmarshal
  x_answers :: "'w \<Rightarrow> answers \<times> 'w" \<comment> \<open>etcd and Redis answering a lazy load of the discovery\<close>

section \<open>The scripts\<close>

definition current_seq :: "'w ext \<Rightarrow> string \<Rightarrow> 'w \<Rightarrow> string" where
  "current_seq X key w = (case x_HGet X key ''seq'' w of None \<Rightarrow> ''0'' | Some s \<Rightarrow> s)"

definition saveLoginLua :: "'w ext \<Rightarrow> string \<Rightarrow> string \<Rightarrow> string \<Rightarrow> string \<Rightarrow> string \<Rightarrow> 'w \<Rightarrow> int \<times> 'w" where
  "saveLoginLua X key expected_seq gameID seq passwd w =
     (if current_seq X key w = expected_seq
      then (1, x_HSet X key [(''game_id'', gameID), (''seq'', seq), (''passwd'', passwd)] w)
      else (0, w))"

definition clearGameLua :: "'w ext \<Rightarrow> string \<Rightarrow> string \<Rightarrow> 'w \<Rightarrow> int \<times> 'w" where
  "clearGameLua X key expected_seq w =
     (if current_seq X key w = expected_seq then (1, x_HSet X key [(''game_id'', ''0'')] w) else (0, w))"

definition Eval :: "'w ext \<Rightarrow> ('w \<Rightarrow> int \<times> 'w) \<Rightarrow> 'w \<Rightarrow> int option \<times> 'w" where
  "Eval X script w = (case x_Eval X w of (d, w1) \<Rightarrow>
     (case d of
        Delivered \<Rightarrow> (case script w1 of (res, w2) \<Rightarrow> (Some res, w2))
      | ReplyLost \<Rightarrow> (None, snd (script w1))
      | NotExecuted \<Rightarrow> (None, w1)))"

text \<open>\<open>None\<close> is the error, \<open>Some\<close> whether the script found the expected sequence number.\<close>

definition SaveLoginData :: "'w ext \<Rightarrow> account \<Rightarrow> u32 \<Rightarrow> 'w \<Rightarrow> bool option \<times> 'w" where
  "SaveLoginData X acc oldSeq w =
     (case Eval X (saveLoginLua X (KeyAccount (a_AccID acc)) (fmt_word oldSeq) (fmt_word (a_GameID acc)) (fmt_word (a_Seq acc))
                     (fmt_word (a_Passwd acc))) w of
        (res, w') \<Rightarrow> (map_option (\<lambda>r. r = 1) res, w'))"

definition ClearGameID :: "'w ext \<Rightarrow> account \<Rightarrow> u32 \<Rightarrow> 'w \<Rightarrow> bool option \<times> 'w" where
  "ClearGameID X acc expectedSeq w =
     (case Eval X (clearGameLua X (KeyAccount (a_AccID acc)) (fmt_word expectedSeq)) w of
        (res, w') \<Rightarrow> (map_option (\<lambda>r. r = 1) res, w'))"

text \<open>
  Account numbers: at start-up a script raises the counter in Redis to the largest number in MongoDB (\<open>found\<close> is \<open>None\<close>
  for an error of the query, \<open>Some None\<close> for an empty collection), and \<open>INCR\<close> hands out the next one.  The result of
  the script is \<open>None\<close> when the counter does not hold a number.
\<close>

definition IDAccBegin :: int where "IDAccBegin = 100000"

definition RedisKeyIDs :: string where "RedisKeyIDs = ''server:acc_id''"

definition initAccIDLua :: "'w ext \<Rightarrow> string \<Rightarrow> int \<Rightarrow> 'w \<Rightarrow> int option \<times> 'w" where
  "initAccIDLua X key proposed w =
     (case Atoi (case x_Get X key w of None \<Rightarrow> ''0'' | Some s \<Rightarrow> s) of
        None \<Rightarrow> (None, w)
      | Some current \<Rightarrow> if proposed > current then (Some proposed, x_Set X key (Itoa proposed) w) else (Some current, w))"

definition InitDistributedAccID :: "'w ext \<Rightarrow> u64 option option \<Rightarrow> 'w \<Rightarrow> bool \<times> 'w" where
  "InitDistributedAccID X found w = (case found of
     None \<Rightarrow> (False, w)
   | Some m \<Rightarrow> let maxID = (case m of None \<Rightarrow> IDAccBegin | Some accID \<Rightarrow> uint accID) in
       (case x_Eval X w of (d, w1) \<Rightarrow> (case d of
          Delivered \<Rightarrow> (case initAccIDLua X RedisKeyIDs maxID w1 of (res, w2) \<Rightarrow> (res \<noteq> None, w2))
        | ReplyLost \<Rightarrow> (False, snd (initAccIDLua X RedisKeyIDs maxID w1))
        | NotExecuted \<Rightarrow> (False, w1))))"

definition GenerateNextAccID :: "'w ext \<Rightarrow> 'w \<Rightarrow> u64 option \<times> 'w" where
  "GenerateNextAccID X w = (case x_Incr X RedisKeyIDs w of (res, w') \<Rightarrow> (map_option word_of_int res, w'))"

text \<open>Binding a further SDK to an account; the cached binding is written when the database accepted it.\<close>

datatype bind_err = AlreadyBound | BindFailed

definition BindNewSDK :: "'w ext \<Rightarrow> u64 \<Rightarrow> int \<Rightarrow> string \<Rightarrow> 'w \<Rightarrow> bind_err option \<times> 'w" where
  "BindNewSDK X accID newSdkType newSdkID w = (let newBindKey = FormatBindKey newSdkType newSdkID in
     (case x_AddBind X accID newBindKey w of (res, w1) \<Rightarrow>
        (case res of
           DuplicateKey \<Rightarrow> (Some AlreadyBound, w1)
         | InsertFailed \<Rightarrow> (Some BindFailed, w1)
         | Inserted \<Rightarrow> (None, snd (x_Pipe X [CSet (KeyAccBind newBindKey) (fmt_word accID) (60 * 60 * 24 * 7)] w1)))))"

section \<open>The service\<close>

text \<open>
  An event of the main goroutine, one constructor per operation code.  A message of the service is an answer to a client
  (sent to the session of the request) or the login passed on to a game server.
\<close>

datatype acc_event =
    OpLogin login_req
  | OpAfterSDKCheck login_req "account option"
  | OpRoleClear u64 u32
  | OpLoginFail login_req LoginCode

datatype acc_out = S2CLogin login_req LoginCode | ReqLoginToGame u8 login_req

record 'w auth =
  au_evt :: "acc_event swap_queue"
  au_sdk :: "login_req list" \<comment> \<open>goroutines that check a login with its SDK\<close>
  au_chan :: "login_req list list" \<comment> \<open>the channels of the loaders\<close>
  au_batch :: "login_req list list" \<comment> \<open>the batches of the loaders\<close>
  au_stopped :: "bool list" \<comment> \<open>loaders that returned after the context was cancelled\<close>
  au_disc :: manager
  au_out :: "acc_out list"
  au_w :: 'w

definition LoginCD :: int where "LoginCD = 3"

definition LoadThread :: nat where "LoadThread = 3"

definition loader_cap :: nat where "loader_cap = 4096"

definition batchSize :: nat where "batchSize = 500"

definition StartService :: "(nat \<Rightarrow> nat) \<Rightarrow> manager \<Rightarrow> 'w \<Rightarrow> 'w auth" where
  "StartService grow m w =
     \<lparr>au_evt = NewSwapQueue grow 9640 96400, au_sdk = [], au_chan = replicate LoadThread [], au_batch = replicate LoadThread [],
      au_stopped = replicate LoadThread False, au_disc = m, au_out = [], au_w = w\<rparr>"

definition sendLoginFailure :: "login_req \<Rightarrow> LoginCode \<Rightarrow> 'w auth \<Rightarrow> 'w auth" where
  "sendLoginFailure req code s = s\<lparr>au_out := au_out s @ [S2CLogin req code]\<rparr>"

fun event_login :: "acc_event \<Rightarrow> login_req option" where
  "event_login (OpLogin req) = Some req"
| "event_login (OpAfterSDKCheck req _) = Some req"
| "event_login (OpRoleClear _ _) = None"
| "event_login (OpLoginFail req _) = Some req"

definition dispatchEvent :: "acc_event \<Rightarrow> 'w auth \<Rightarrow> 'w auth" where
  "dispatchEvent e s = (case Push (au_evt s) e of (q, err) \<Rightarrow>
     let s' = s\<lparr>au_evt := q\<rparr> in
     if err = None then s'
     else (case event_login e of None \<Rightarrow> s' | Some req \<Rightarrow> sendLoginFailure req LCServerBusy s'))"

text \<open>\<^verbatim>\<open>hash/fnv\<close>, 32 bits, variant 1a.\<close>

definition hashAccount :: "string \<Rightarrow> u32" where
  "hashAccount acc = fold (\<lambda>c h. (h XOR word_of_nat (of_char c)) * 16777619) acc 2166136261"

definition req_account :: "login_req \<Rightarrow> string" where
  "req_account req = (case rq_Req req of None \<Rightarrow> [] | Some r \<Rightarrow> cl_Account r)"

definition loader_of :: "login_req \<Rightarrow> nat" where
  "loader_of req = unat (hashAccount (req_account req)) mod LoadThread"

definition PushToLoader :: "login_req \<Rightarrow> 'w auth \<Rightarrow> 'w auth" where
  "PushToLoader req s = (let idx = loader_of req in
     if length (au_chan s ! idx) < loader_cap then s\<lparr>au_chan := (au_chan s)[idx := au_chan s ! idx @ [req]]\<rparr>
     else sendLoginFailure req LCServerBusy s)"

definition HandleLoginRequest :: "login_req \<Rightarrow> 'w auth \<Rightarrow> 'w auth" where
  "HandleLoginRequest req s = (case rq_Req req of
     None \<Rightarrow> s
   | Some r \<Rightarrow> dispatchEvent (OpLogin (req\<lparr>rq_BindAcc := FormatBindKey (cl_SdkType r) (cl_Account r)\<rparr>)) s)"

definition onLogin :: "u64 \<Rightarrow> C2SLogin \<Rightarrow> 'w auth \<Rightarrow> 'w auth" where
  "onLogin sesID req s = HandleLoginRequest
     \<lparr>rq_Req = Some req, rq_SesID = sesID, rq_RoleID = 0, rq_ReConnToken = 0, rq_Seq = 0, rq_BindAcc = [], rq_ConnectedAcc = []\<rparr> s"

definition onClearRole :: "u64 \<Rightarrow> u32 \<Rightarrow> 'w auth \<Rightarrow> 'w auth" where
  "onClearRole roleID seq s = dispatchEvent (OpRoleClear roleID seq) s"

subsection \<open>The main goroutine\<close>

text \<open>A nil dereference of the login message is the panic \<open>None\<close>.\<close>

definition checkLoginRateLimit :: "'w ext \<Rightarrow> C2SLogin \<Rightarrow> 'w \<Rightarrow> LoginCode \<times> 'w" where
  "checkLoginRateLimit X r w = (if cl_Account r = [] then (LCAccountEmpty, w)
     else (case x_SetNX X (KeyAccLoginCD (cl_SdkType r) (cl_Account r)) LoginCD w of
       (None, w') \<Rightarrow> (LCServerErr, w')
     | (Some ok, w') \<Rightarrow> (if ok then LCSuccess else LCCD, w')))"

datatype sdk = SdkLocal | Google | Facebook | Apple

definition CreateSdk :: "int \<Rightarrow> sdk option" where
  "CreateSdk no = (if no = 0 then Some SdkLocal else if no = 2 then Some Google else if no = 1 then Some Facebook
     else if no = 3 then Some Apple else None)"

text \<open>The checks of all four SDKs are stubs that report success; the result says whether there is no error.\<close>

fun sdk_Login :: "sdk \<Rightarrow> C2SLogin \<Rightarrow> bool" where
  "sdk_Login SdkLocal _ = True"
| "sdk_Login Google _ = True"
| "sdk_Login Facebook _ = True"
| "sdk_Login Apple _ = True"

text \<open>\<open>authenticateWithSDK\<close> starts a goroutine, whose body is \<open>sdk_goroutine\<close>.\<close>

definition authenticateWithSDK :: "login_req \<Rightarrow> C2SLogin \<Rightarrow> 'w auth \<Rightarrow> 'w auth" where
  "authenticateWithSDK req r s = (case CreateSdk (cl_SdkType r) of
     None \<Rightarrow> dispatchEvent (OpLoginFail req LCSDKErr) s
   | Some _ \<Rightarrow> s\<lparr>au_sdk := au_sdk s @ [req]\<rparr>)"

definition sdk_goroutine :: "login_req \<Rightarrow> 'w auth \<Rightarrow> 'w auth option" where
  "sdk_goroutine req s = (case rq_Req req of
     None \<Rightarrow> None
   | Some r \<Rightarrow> (case CreateSdk (cl_SdkType r) of
       None \<Rightarrow> None
     | Some sdk \<Rightarrow> Some (if sdk_Login sdk r then PushToLoader req s else dispatchEvent (OpLoginFail req LCSdkCheckFaild) s)))"

definition login :: "'w ext \<Rightarrow> login_req \<Rightarrow> 'w auth \<Rightarrow> 'w auth option" where
  "login X req s = (case rq_Req req of
     None \<Rightarrow> None
   | Some r \<Rightarrow> (case checkLoginRateLimit X r (au_w s) of (code, w') \<Rightarrow>
       Some (if code \<noteq> LCSuccess then dispatchEvent (OpLoginFail req code) (s\<lparr>au_w := w'\<rparr>)
             else authenticateWithSDK req r (s\<lparr>au_w := w'\<rparr>))))"

definition gameExists :: "'w ext \<Rightarrow> u8 \<Rightarrow> manager \<Rightarrow> 'w \<Rightarrow> bool \<times> manager \<times> 'w" where
  "gameExists X gameID m w = (case x_answers X w of (an, w') \<Rightarrow>
     (case Manager_Exists (x_nodes X) (x_unmarshal X) an (SrvName Server_Game) (uint gameID) m of (b, m') \<Rightarrow> (b, m', w')))"

definition selectGameServer :: "'w ext \<Rightarrow> manager \<Rightarrow> 'w \<Rightarrow> ((u8 \<times> LoginCode) \<times> manager \<times> 'w) option" where
  "selectGameServer X m w = (case x_answers X w of (an, w1) \<Rightarrow> (case x_rand X w1 of ((r1, r2), w2) \<Rightarrow>
     (case Manager_Select (x_nodes X) (x_unmarshal X) an r1 r2 (SrvName Server_Game) m of
        (None, _) \<Rightarrow> None
      | (Some None, m') \<Rightarrow> Some ((0, LCNoGame), m', w2)
      | (Some (Some nid), m') \<Rightarrow> Some ((word_of_int nid, LCSuccess), m', w2))))"

definition allocateGameServer :: "'w ext \<Rightarrow> u8 \<Rightarrow> manager \<Rightarrow> 'w \<Rightarrow> ((u8 \<times> LoginCode) \<times> manager \<times> 'w) option" where
  "allocateGameServer X lastGameID m w =
     (if lastGameID \<noteq> 0 then
        (case gameExists X lastGameID m w of (b, m', w') \<Rightarrow>
           if b then Some ((lastGameID, LCSuccess), m', w') else selectGameServer X m' w')
      else selectGameServer X m w)"

text \<open>The loop draws until the number is not 0; \<open>None\<close> if it never is.\<close>

fun generatePasswd :: "u64 list \<Rightarrow> u64 option" where
  "generatePasswd [] = None"
| "generatePasswd (pwd # draws) = (if pwd = 0 then generatePasswd draws else Some pwd)"

definition new_passwd :: "'w ext \<Rightarrow> u64 \<Rightarrow> 'w \<Rightarrow> (u64 \<times> 'w) option" where
  "new_passwd X passwd w = (if passwd = 0
     then (case x_draws X w of (draws, w') \<Rightarrow> map_option (\<lambda>p. (p, w')) (generatePasswd draws))
     else Some (passwd, w))"

definition finalizeLoginSession ::
    "'w ext \<Rightarrow> account \<Rightarrow> login_req \<Rightarrow> manager \<Rightarrow> 'w \<Rightarrow> ((account \<times> login_req \<times> LoginCode) \<times> manager \<times> 'w) option" where
  "finalizeLoginSession X acc req m w = (case rq_Req req of
     None \<Rightarrow> None
   | Some r \<Rightarrow>
       if cl_Reconnect r \<and> a_Passwd acc \<noteq> 0 \<and> rq_ReConnToken req \<noteq> a_Passwd acc then Some ((acc, req, LCCanNotReConn), m, w)
       else (case allocateGameServer X (a_GameID acc) m w of
         None \<Rightarrow> None
       | Some ((gameID, code), m1, w1) \<Rightarrow>
           if code \<noteq> LCSuccess then Some ((acc, req, code), m1, w1)
           else (case new_passwd X (a_Passwd acc) w1 of
             None \<Rightarrow> None
           | Some (passwd, w2) \<Rightarrow>
               let oldSeq = a_Seq acc;
                   acc' = acc\<lparr>a_Passwd := passwd, a_Seq := oldSeq + 1, a_GameID := gameID\<rparr>
               in (case SaveLoginData X acc' oldSeq w2 of
                 (None, w3) \<Rightarrow> Some ((acc', req, LCServerErr), m1, w3)
               | (Some success, w3) \<Rightarrow>
                   if \<not> success then Some ((acc', req, LCServerBusy), m1, w3)
                   else Some ((acc', req\<lparr>rq_RoleID := GetRoleID (a_AccID acc'), rq_ReConnToken := a_Passwd acc', rq_Seq := a_Seq acc'\<rparr>,
                               LCSuccess), m1, w3)))))"

definition OnSDKAuthSuccess :: "'w ext \<Rightarrow> account option \<Rightarrow> login_req \<Rightarrow> 'w auth \<Rightarrow> 'w auth option" where
  "OnSDKAuthSuccess X acc req s = (case acc of
     None \<Rightarrow> Some (sendLoginFailure req LCServerErr s)
   | Some a \<Rightarrow> (case finalizeLoginSession X a req (au_disc s) (au_w s) of
       None \<Rightarrow> None
     | Some ((a', req', code), m', w') \<Rightarrow>
         let s' = s\<lparr>au_disc := m', au_w := w'\<rparr> in
         Some (if code \<noteq> LCSuccess then sendLoginFailure req' code s'
               else s'\<lparr>au_out := au_out s' @ [ReqLoginToGame (a_GameID a') (req'\<lparr>rq_ConnectedAcc := a_Binds a'\<rparr>)]\<rparr>)))"

definition HandleRoleLogout :: "'w ext \<Rightarrow> u64 \<Rightarrow> u32 \<Rightarrow> 'w \<Rightarrow> 'w" where
  "HandleRoleLogout X accID sn w = snd (ClearGameID X (new_account\<lparr>a_AccID := accID\<rparr>) sn w)"

fun processEvent :: "'w ext \<Rightarrow> acc_event \<Rightarrow> 'w auth \<Rightarrow> 'w auth option" where
  "processEvent X (OpLogin req) s = login X req s"
| "processEvent X (OpAfterSDKCheck req acc) s = OnSDKAuthSuccess X acc req s"
| "processEvent X (OpLoginFail req code) s = Some (sendLoginFailure req code s)"
| "processEvent X (OpRoleClear roleID seq) s = Some (s\<lparr>au_w := HandleRoleLogout X (GetAccID roleID) seq (au_w s)\<rparr>)"

text \<open>The main goroutine after a signal, and after the context was cancelled.\<close>

definition run_callback ::
    "'w ext \<Rightarrow> acc_event \<Rightarrow> acc_event swap_queue \<times> 'w auth option \<Rightarrow> acc_event swap_queue \<times> 'w auth option" where
  "run_callback X e qs = (case qs of
     (q, None) \<Rightarrow> (q, None)
   | (q, Some s) \<Rightarrow> (case processEvent X e (s\<lparr>au_evt := q\<rparr>) of None \<Rightarrow> (q, None) | Some s' \<Rightarrow> (au_evt s', Some s')))"

definition run_range :: "'w ext \<Rightarrow> 'w auth \<Rightarrow> 'w auth option" where
  "run_range X s = (case Range (run_callback X) (au_evt s, Some s) of (q, so) \<Rightarrow> map_option (\<lambda>s'. s'\<lparr>au_evt := q\<rparr>) so)"

definition run_sig :: "'w ext \<Rightarrow> 'w auth \<Rightarrow> 'w auth option" where
  "run_sig X s = (case recv_Sig (au_evt s) of None \<Rightarrow> Some s | Some q \<Rightarrow> run_range X (s\<lparr>au_evt := q\<rparr>))"

definition run_done :: "'w auth \<Rightarrow> 'w auth" where
  "run_done s = (case Range (\<lambda>e (q, s). (q, case event_login e of None \<Rightarrow> s | Some req \<Rightarrow> sendLoginFailure req LCServerBusy s))
       (Close (au_evt s), s) of (q, s') \<Rightarrow> s'\<lparr>au_evt := q\<rparr>)"

subsection \<open>The loaders\<close>

definition expiration :: int where "expiration = 60 * 60 * 24 * 7"

definition fmt_bool :: "bool \<Rightarrow> string" where
  "fmt_bool b = (if b then ''1'' else ''0'')"

text \<open>\<open>MarshalBinds\<close> writes the string back into the account, which the requests of the batch share.\<close>

definition sync_cmds :: "string \<times> account \<Rightarrow> acc_cmd list" where
  "sync_cmds b = (case b of (bindKey, acc) \<Rightarrow>
     [CHSet (KeyAccount (a_AccID acc)) [(''acc_id'', fmt_word (a_AccID acc)), (''freeze'', fmt_bool (a_Freeze acc)), (''binds'', snd (MarshalBinds acc))],
      CExpire (KeyAccount (a_AccID acc)) expiration,
      CSet (KeyAccBind bindKey) (fmt_word (a_AccID acc)) expiration])"

definition syncAccountsToCache :: "'w ext \<Rightarrow> (string \<times> account) list \<Rightarrow> 'w \<Rightarrow> 'w" where
  "syncAccountsToCache X batch w = snd (x_Pipe X (concat (map sync_cmds batch)) w)"

text \<open>One request of \<open>registerNewAccounts\<close>, on the commands collected so far and the accounts registered.\<close>

definition register_one ::
    "'w ext \<Rightarrow> login_req \<Rightarrow> acc_cmd list \<times> (login_req \<times> account) list \<times> 'w auth \<Rightarrow> acc_cmd list \<times> (login_req \<times> account) list \<times> 'w auth" where
  "register_one X req st = (case st of (pipe, successList, s) \<Rightarrow>
     (case GenerateNextAccID X (au_w s) of
        (None, w1) \<Rightarrow> (pipe, successList, sendLoginFailure req LCServerErr (s\<lparr>au_w := w1\<rparr>))
      | (Some nid, w1) \<Rightarrow>
          let acc = new_account\<lparr>a_AccID := nid, a_Binds := [rq_BindAcc req]\<rparr> in
          (case x_Insert X acc w1 of (res, w2) \<Rightarrow>
             (case res of
                DuplicateKey \<Rightarrow> (pipe, successList, sendLoginFailure req LCServerBusy (s\<lparr>au_w := w2\<rparr>))
              | InsertFailed \<Rightarrow> (pipe, successList, sendLoginFailure req LCServerErr (s\<lparr>au_w := w2\<rparr>))
              | Inserted \<Rightarrow>
                  (pipe @ [CHSet (KeyAccount nid) [(''acc_id'', fmt_word nid), (''binds'', snd (MarshalBinds acc))],
                           CExpire (KeyAccount nid) expiration,
                           CSet (KeyAccBind (rq_BindAcc req)) (fmt_word nid) expiration],
                   successList @ [(req, fst (MarshalBinds acc))],
                   s\<lparr>au_w := w2\<rparr>)))))"

definition registerNewAccounts :: "'w ext \<Rightarrow> login_req list \<Rightarrow> 'w auth \<Rightarrow> 'w auth" where
  "registerNewAccounts X batch s = (case fold (register_one X) batch ([], [], s) of (pipe, successList, s1) \<Rightarrow>
     fold (\<lambda>(req, acc). dispatchEvent (OpAfterSDKCheck req (Some acc))) successList (s1\<lparr>au_w := snd (x_Pipe X pipe (au_w s1))\<rparr>))"

definition fail_all :: "LoginCode \<Rightarrow> login_req list \<Rightarrow> 'w auth \<Rightarrow> 'w auth" where
  "fail_all code batch s = fold (\<lambda>req. sendLoginFailure req code) batch s"

text \<open>
  The state of the accounts found in MongoDB is read back from Redis; \<open>None\<close> when that pipeline fails.  A row that does
  not arrive, or does not scan completely, leaves the rest of the account as it is.
\<close>

definition enrich :: "'w ext \<Rightarrow> account list \<Rightarrow> 'w \<Rightarrow> account list option \<times> 'w" where
  "enrich X accDatas w = (if accDatas = [] then (Some [], w)
     else (case x_HMGets X (map (\<lambda>acc. (KeyAccount (a_AccID acc), StateFields)) accDatas) w of
       (None, w') \<Rightarrow> (None, w')
     | (Some rows, w') \<Rightarrow> (Some (map (\<lambda>(acc, row). case row of None \<Rightarrow> acc | Some vals \<Rightarrow> fst (x_Scan X StateFields vals acc))
                             (zip accDatas rows)), w')))"

definition bind_map :: "account list \<Rightarrow> string \<rightharpoonup> account" where
  "bind_map accDatas = fold (\<lambda>acc m. fold (\<lambda>bind m. m(bind \<mapsto> acc)) (a_Binds acc) m) accDatas Map.empty"

text \<open>The requests whose account was found, with it, and the others.\<close>

definition found_batch :: "(string \<rightharpoonup> account) \<Rightarrow> login_req list \<Rightarrow> (login_req \<times> account) list" where
  "found_batch result batch = concat (map (\<lambda>op. case result (rq_BindAcc op) of None \<Rightarrow> [] | Some r \<Rightarrow> [(op, r)]) batch)"

definition new_batch :: "(string \<rightharpoonup> account) \<Rightarrow> login_req list \<Rightarrow> login_req list" where
  "new_batch result batch = filter (\<lambda>op. result (rq_BindAcc op) = None) batch"

definition loadAccountsFromDB :: "'w ext \<Rightarrow> login_req list \<Rightarrow> 'w auth \<Rightarrow> 'w auth" where
  "loadAccountsFromDB X batch s = (case x_Find X (map rq_BindAcc batch) (au_w s) of
     (None, w1) \<Rightarrow> fail_all LCServerErr batch (s\<lparr>au_w := w1\<rparr>)
   | (Some accDatas0, w1) \<Rightarrow> (case enrich X accDatas0 w1 of
       (None, w2) \<Rightarrow> fail_all LCServerErr batch (s\<lparr>au_w := w2\<rparr>)
     | (Some accDatas, w2) \<Rightarrow>
         let result = bind_map accDatas;
             updateAccBatch = map (\<lambda>(op, r). (rq_BindAcc op, r)) (found_batch result batch);
             w3 = (if updateAccBatch = [] then w2 else syncAccountsToCache X updateAccBatch w2);
             s3 = fold (\<lambda>(op, r). dispatchEvent (OpAfterSDKCheck op (Some (Clone (fst (MarshalBinds r)))))) (found_batch result batch)
                    (s\<lparr>au_w := w3\<rparr>);
             newAccBatch = new_batch result batch
         in if newAccBatch = [] then s3 else registerNewAccounts X newAccBatch s3))"

text \<open>Requests whose binding is cached, with the account number, and the others.\<close>

fun split_binds :: "login_req list \<Rightarrow> string option list \<Rightarrow> (login_req \<times> u64) list \<times> login_req list" where
  "split_binds (op # ops) (c # cs) = (case split_binds ops cs of (hits, misses) \<Rightarrow>
     (case Option.bind c (ParseUint 64) of
        Some accID \<Rightarrow> ((op, word_of_nat accID) # hits, misses)
      | None \<Rightarrow> (hits, op # misses)))"
| "split_binds _ _ = ([], [])"

text \<open>One cached account: dispatched when it scans and has a number, left to the database otherwise.\<close>

definition cache_one ::
    "'w ext \<Rightarrow> login_req \<times> string option list option \<Rightarrow> login_req list \<times> 'w auth \<Rightarrow> login_req list \<times> 'w auth" where
  "cache_one X c st = (case (c, st) of ((op, row), (batchFromDB, s)) \<Rightarrow>
     (case map_option (\<lambda>vals. x_Scan X AccFields vals new_account) row of
        Some (acc, True) \<Rightarrow> if a_AccID acc > 0 then (batchFromDB, dispatchEvent (OpAfterSDKCheck op (Some (UnmarshalBinds acc))) s)
                            else (batchFromDB @ [op], s)
      | _ \<Rightarrow> (batchFromDB @ [op], s)))"

definition loadAccountsFromCache :: "'w ext \<Rightarrow> login_req list \<Rightarrow> 'w auth \<Rightarrow> 'w auth" where
  "loadAccountsFromCache X batch s = (case x_Gets X (map (\<lambda>op. KeyAccBind (rq_BindAcc op)) batch) (au_w s) of
     (None, w1) \<Rightarrow> loadAccountsFromDB X batch (s\<lparr>au_w := w1\<rparr>)
   | (Some cmdBind, w1) \<Rightarrow> (case split_binds batch cmdBind of (cmdAcc, misses) \<Rightarrow>
       if cmdAcc = [] then (if misses = [] then s\<lparr>au_w := w1\<rparr> else loadAccountsFromDB X misses (s\<lparr>au_w := w1\<rparr>))
       else (case x_HMGets X (map (\<lambda>(_, accID). (KeyAccount accID, AccFields)) cmdAcc) w1 of
         (None, w2) \<Rightarrow> loadAccountsFromDB X batch (s\<lparr>au_w := w2\<rparr>)
       | (Some rows, w2) \<Rightarrow>
           let cmds = zip (map fst cmdAcc) rows in
           (case fold (\<lambda>i. cache_one X (cmds ! i)) (x_order X [0..<length cmds]) (misses, s\<lparr>au_w := w2\<rparr>) of (batchFromDB, s2) \<Rightarrow>
              if batchFromDB = [] then s2 else loadAccountsFromDB X batchFromDB s2))))"

text \<open>\<open>flush\<close> keeps the first request of every binding and answers the others.\<close>

fun unique_requests :: "string set \<Rightarrow> login_req list \<Rightarrow> login_req list \<times> login_req list" where
  "unique_requests seen [] = ([], [])"
| "unique_requests seen (req # reqs) = (if rq_BindAcc req \<in> seen
     then (case unique_requests seen reqs of (us, ds) \<Rightarrow> (us, req # ds))
     else (case unique_requests (insert (rq_BindAcc req) seen) reqs of (us, ds) \<Rightarrow> (req # us, ds)))"

definition loader_flush :: "'w ext \<Rightarrow> nat \<Rightarrow> 'w auth \<Rightarrow> 'w auth" where
  "loader_flush X l s = (let batch = au_batch s ! l in
     if batch = [] then s
     else (case unique_requests {} batch of (us, dups) \<Rightarrow>
       loadAccountsFromCache X us (fail_all LCServerBusy dups (s\<lparr>au_batch := (au_batch s)[l := []]\<rparr>))))"

definition loader_recv :: "'w ext \<Rightarrow> nat \<Rightarrow> 'w auth \<Rightarrow> 'w auth" where
  "loader_recv X l s = (case au_chan s ! l of
     [] \<Rightarrow> s
   | p # ps \<Rightarrow>
       let s' = s\<lparr>au_chan := (au_chan s)[l := ps], au_batch := (au_batch s)[l := au_batch s ! l @ [p]]\<rparr>
       in if batchSize \<le> length (au_batch s' ! l) then loader_flush X l s' else s')"

text \<open>After the context was cancelled a loader answers what is in its channel and returns.\<close>

definition loader_done :: "nat \<Rightarrow> 'w auth \<Rightarrow> 'w auth" where
  "loader_done l s = fail_all LCServerBusy (au_chan s ! l) (s\<lparr>au_chan := (au_chan s)[l := []], au_stopped := (au_stopped s)[l := True]\<rparr>)"

section \<open>Runs of the service\<close>

text \<open>
  The goroutines of the service as steps: a login or a logout arrives, the main goroutine takes its signal or sees the
  cancelled context, a goroutine finishes the check of an SDK, a loader receives, ticks or stops, and the world changes
  by itself.
\<close>

datatype 'w auth_step =
    DoLogin u64 C2SLogin
  | DoClear u64 u32
  | DoSig
  | DoRunDone
  | DoSdk nat
  | DoRecv nat
  | DoTick nat
  | DoLoaderDone nat
  | DoWorld "'w \<Rightarrow> 'w"

definition loader_live :: "nat \<Rightarrow> 'w auth \<Rightarrow> bool" where
  "loader_live l s \<longleftrightarrow> l < LoadThread \<and> \<not> au_stopped s ! l"

fun auth_do :: "'w ext \<Rightarrow> 'w auth_step \<Rightarrow> 'w auth \<Rightarrow> 'w auth option" where
  "auth_do X (DoLogin sesID req) s = Some (onLogin sesID req s)"
| "auth_do X (DoClear roleID seq) s = Some (onClearRole roleID seq s)"
| "auth_do X DoSig s = run_sig X s"
| "auth_do X DoRunDone s = Some (run_done s)"
| "auth_do X (DoSdk i) s = (if i < length (au_sdk s)
     then sdk_goroutine (au_sdk s ! i) (s\<lparr>au_sdk := take i (au_sdk s) @ drop (Suc i) (au_sdk s)\<rparr>) else Some s)"
| "auth_do X (DoRecv l) s = Some (if loader_live l s then loader_recv X l s else s)"
| "auth_do X (DoTick l) s = Some (if loader_live l s then loader_flush X l s else s)"
| "auth_do X (DoLoaderDone l) s = Some (if loader_live l s then loader_done l s else s)"
| "auth_do X (DoWorld f) s = Some (s\<lparr>au_w := f (au_w s)\<rparr>)"

fun auth_run :: "'w ext \<Rightarrow> 'w auth_step list \<Rightarrow> 'w auth \<Rightarrow> 'w auth option" where
  "auth_run X [] s = Some s"
| "auth_run X (st # sts) s = Option.bind (auth_do X st s) (auth_run X sts)"

text \<open>What identifies a login: the client's message and its session.\<close>

definition tag :: "login_req \<Rightarrow> C2SLogin option \<times> u64" where
  "tag req = (rq_Req req, rq_SesID req)"

fun out_req :: "acc_out \<Rightarrow> login_req" where
  "out_req (S2CLogin req _) = req"
| "out_req (ReqLoginToGame _ req) = req"

definition tags :: "login_req list \<Rightarrow> (C2SLogin option \<times> u64) multiset" where
  "tags reqs = image_mset tag (mset reqs)"

lemma tags_simps [simp]:
  "tags [] = {#}" "tags (r # rs) = add_mset (tag r) (tags rs)" "tags (rs @ rs') = tags rs + tags rs'"
  by (simp_all add: tags_def)

definition answered :: "'w auth \<Rightarrow> (C2SLogin option \<times> u64) multiset" where
  "answered s = tags (map out_req (au_out s))"

definition pending_reqs :: "'w auth \<Rightarrow> login_req list" where
  "pending_reqs s = List.map_filter event_login (sq_write (au_evt s)) @ au_sdk s @ concat (au_chan s) @ concat (au_batch s)"

definition accounted :: "'w auth \<Rightarrow> (C2SLogin option \<times> u64) multiset" where
  "accounted s = answered s + tags (pending_reqs s)"

text \<open>What is documented of the libraries: a pipeline answers each of its commands, ranging over a map visits each key once,
  and the random source does not give only zeros.\<close>

definition ext_ok :: "'w ext \<Rightarrow> bool" where
  "ext_ok X \<longleftrightarrow> (\<forall>ks w cs w'. x_Gets X ks w = (Some cs, w') \<longrightarrow> length cs = length ks)
     \<and> (\<forall>ks w rows w'. x_HMGets X ks w = (Some rows, w') \<longrightarrow> length rows = length ks)
     \<and> (\<forall>is. mset (x_order X is) = mset is)
     \<and> (\<forall>w. \<exists>p \<in> set (fst (x_draws X w)). p \<noteq> 0)
     \<and> order_ok (x_nodes X)"

definition req_ok :: "login_req \<Rightarrow> bool" where
  "req_ok req \<longleftrightarrow> (\<exists>r. rq_Req req = Some r \<and> rq_BindAcc req = FormatBindKey (cl_SdkType r) (cl_Account r))
     \<and> rq_RoleID req = 0 \<and> rq_ReConnToken req = 0 \<and> rq_Seq req = 0"

definition req_sdk_ok :: "login_req \<Rightarrow> bool" where
  "req_sdk_ok req \<longleftrightarrow> req_ok req \<and> (\<exists>r. rq_Req req = Some r \<and> cl_Account r \<noteq> [] \<and> CreateSdk (cl_SdkType r) \<noteq> None)"

definition event_ok :: "acc_event \<Rightarrow> bool" where
  "event_ok e \<longleftrightarrow> (\<forall>req. event_login e = Some req \<longrightarrow> req_ok req)"

definition chans_ok :: "'w auth \<Rightarrow> bool" where
  "chans_ok s \<longleftrightarrow> length (au_chan s) = LoadThread \<and> length (au_batch s) = LoadThread \<and> length (au_stopped s) = LoadThread
     \<and> (\<forall>l < LoadThread. length (au_chan s ! l) \<le> loader_cap \<and> length (au_batch s ! l) < batchSize
          \<and> (\<forall>req \<in> set (au_chan s ! l) \<union> set (au_batch s ! l). req_sdk_ok req \<and> loader_of req = l))"

definition auth_ok :: "'w auth \<Rightarrow> bool" where
  "auth_ok s \<longleftrightarrow> (\<forall>e \<in> set (sq_write (au_evt s)). event_ok e) \<and> (\<forall>req \<in> set (au_sdk s). req_sdk_ok req)
     \<and> chans_ok s \<and> manager_ok (au_disc s)"

text \<open>\<open>keeps D s s'\<close>: the state stays well formed and exactly the logins \<open>D\<close> are added to those accounted for.\<close>

definition keeps :: "(C2SLogin option \<times> u64) multiset \<Rightarrow> 'w auth \<Rightarrow> 'w auth \<Rightarrow> bool" where
  "keeps D s s' \<longleftrightarrow> (auth_ok s \<longrightarrow> auth_ok s' \<and> accounted s' = accounted s + D)"

lemma keeps_refl: "keeps {#} s s"
  by (simp add: keeps_def)

lemma keeps_trans: "keeps D s s1 \<Longrightarrow> keeps D' s1 s2 \<Longrightarrow> keeps (D + D') s s2"
  by (simp add: keeps_def)

lemma keeps_trans_eq: "keeps D s s1 \<Longrightarrow> keeps D' s1 s2 \<Longrightarrow> E = D + D' \<Longrightarrow> keeps E s s2"
  by (simp add: keeps_trans)

lemma keeps_w: "keeps {#} s (s\<lparr>au_w := w\<rparr>)"
  by (simp add: keeps_def auth_ok_def chans_ok_def accounted_def answered_def pending_reqs_def)

lemma keeps_via_w: "keeps D (s\<lparr>au_w := w\<rparr>) s' \<Longrightarrow> keeps D s s'"
  using keeps_trans [OF keeps_w] by fastforce

lemma keeps_disc: "manager_ok m \<Longrightarrow> keeps {#} s (s\<lparr>au_disc := m, au_w := w\<rparr>)"
  by (simp add: keeps_def auth_ok_def chans_ok_def accounted_def answered_def pending_reqs_def)

lemma keeps_out: "keeps {#tag (out_req m)#} s (s\<lparr>au_out := au_out s @ [m]\<rparr>)"
  by (simp add: keeps_def auth_ok_def chans_ok_def accounted_def answered_def pending_reqs_def)

lemma keeps_fail: "keeps {#tag req#} s (sendLoginFailure req code s)"
  using keeps_out [of "S2CLogin req code"] by (simp add: sendLoginFailure_def)

lemma keeps_fold:
  assumes "\<And>x s. x \<in> set xs \<Longrightarrow> keeps {#tag (g x)#} s (f x s)"
  shows "keeps (tags (map g xs)) s (fold f xs s)"
  using assms
proof (induction xs arbitrary: s)
  case (Cons x xs)
  have h1: "keeps {#tag (g x)#} s (f x s)" using Cons.prems by simp
  have h2: "keeps (tags (map g xs)) (f x s) (fold f xs (f x s))"
    using Cons.prems by (intro Cons.IH) simp
  show ?case using keeps_trans [OF h1 h2] by simp
qed (simp add: keeps_refl)

lemma keeps_fail_all: "keeps (tags reqs) s (fail_all code reqs s)"
  using keeps_fold [of reqs id "\<lambda>req. sendLoginFailure req code"] by (simp add: fail_all_def keeps_fail)

lemma event_login_filter: "List.map_filter event_login (es @ [e]) = List.map_filter event_login es @ (case event_login e of None \<Rightarrow> [] | Some r \<Rightarrow> [r])"
  by (induction es) (auto simp: List.map_filter_simps split: option.split)

lemma Push_cases:
  obtains (room) "sq_write (fst (Push q x)) = sq_write q @ [x]" "snd (Push q x) = None"
  | (refused) "sq_write (fst (Push q x)) = sq_write q" "snd (Push q x) \<noteq> None"
  by (rule pushData_cases [of q x]) (auto simp: Push_def queue_simps)

lemma keeps_evt:
  "event_ok e \<Longrightarrow> sq_write q = sq_write (au_evt s) @ [e]
     \<Longrightarrow> keeps (case event_login e of None \<Rightarrow> {#} | Some r \<Rightarrow> {#tag r#}) s (s\<lparr>au_evt := q\<rparr>)"
  by (auto simp: keeps_def auth_ok_def chans_ok_def accounted_def answered_def pending_reqs_def event_login_filter split: option.split)

lemma keeps_evt_same: "sq_write q = sq_write (au_evt s) \<Longrightarrow> keeps {#} s (s\<lparr>au_evt := q\<rparr>)"
  by (simp add: keeps_def auth_ok_def chans_ok_def accounted_def answered_def pending_reqs_def)

lemma keeps_dispatchEvent:
  assumes "event_ok e"
  shows "keeps (case event_login e of None \<Rightarrow> {#} | Some r \<Rightarrow> {#tag r#}) s (dispatchEvent e s)"
proof (cases "au_evt s" e rule: Push_cases)
  case room
  then show ?thesis
    using keeps_evt [OF assms, of "fst (Push (au_evt s) e)" s] by (cases "Push (au_evt s) e") (simp add: dispatchEvent_def Let_def)
next
  case refused
  let ?s = "s\<lparr>au_evt := fst (Push (au_evt s) e)\<rparr>"
  have 0: "keeps {#} s ?s" using refused by (intro keeps_evt_same) simp
  have "dispatchEvent e s = (case event_login e of None \<Rightarrow> ?s | Some req \<Rightarrow> sendLoginFailure req LCServerBusy ?s)"
    using refused by (cases "Push (au_evt s) e") (auto simp: dispatchEvent_def Let_def split: option.split)
  then show ?thesis
    using 0 keeps_trans [OF 0 keeps_fail] by (auto split: option.split)
qed

lemma keeps_dispatch_login: "event_login e = Some req \<Longrightarrow> req_ok req \<Longrightarrow> keeps {#tag req#} s (dispatchEvent e s)"
  using keeps_dispatchEvent [of e s] by (simp add: event_ok_def)

subsection \<open>Every operation accounts for its logins\<close>

lemma mset_concat_update:
  "l < length xss \<Longrightarrow> mset (concat (xss[l := xs])) + mset (xss ! l) = mset (concat xss) + mset xs"
proof (induction xss arbitrary: l)
  case (Cons ys xss)
  then show ?case by (cases l) (auto simp: ac_simps)
qed simp

lemma tags_concat_update:
  "l < length xss \<Longrightarrow> tags (concat (xss[l := xs])) + tags (xss ! l) = tags (concat xss) + tags xs"
  using arg_cong [OF mset_concat_update, of l xss "image_mset tag" xs] by (simp add: tags_def)

lemma batchSize_pos: "0 < batchSize"
  by (simp add: batchSize_def)

lemma in_concat_nth: "x \<in> set (concat xss) \<Longrightarrow> \<exists>l < length xss. x \<in> set (xss ! l)"
  by (metis UN_E in_set_conv_nth set_concat)

lemma loader_of_lt: "loader_of req < LoadThread"
  by (simp add: loader_of_def LoadThread_def)

lemma accounted_simp:
  "accounted s = tags (map out_req (au_out s)) + tags (List.map_filter event_login (sq_write (au_evt s)))
     + tags (au_sdk s) + tags (concat (au_chan s)) + tags (concat (au_batch s))"
  by (simp add: accounted_def answered_def pending_reqs_def ac_simps)

lemma chans_okD:
  assumes "chans_ok s"
  shows "length (au_chan s) = LoadThread" "length (au_batch s) = LoadThread" "length (au_stopped s) = LoadThread"
    "l < LoadThread \<Longrightarrow> length (au_chan s ! l) \<le> loader_cap" "l < LoadThread \<Longrightarrow> length (au_batch s ! l) < batchSize"
    "l < LoadThread \<Longrightarrow> req \<in> set (au_chan s ! l) \<Longrightarrow> req_sdk_ok req \<and> loader_of req = l"
    "l < LoadThread \<Longrightarrow> req \<in> set (au_batch s ! l) \<Longrightarrow> req_sdk_ok req \<and> loader_of req = l"
  using assms by (auto simp: chans_ok_def)

lemma chans_okI:
  assumes "length (au_chan s) = LoadThread" "length (au_batch s) = LoadThread" "length (au_stopped s) = LoadThread"
    "\<And>l. l < LoadThread \<Longrightarrow> length (au_chan s ! l) \<le> loader_cap" "\<And>l. l < LoadThread \<Longrightarrow> length (au_batch s ! l) < batchSize"
    "\<And>l req. l < LoadThread \<Longrightarrow> req \<in> set (au_chan s ! l) \<Longrightarrow> req_sdk_ok req \<and> loader_of req = l"
    "\<And>l req. l < LoadThread \<Longrightarrow> req \<in> set (au_batch s ! l) \<Longrightarrow> req_sdk_ok req \<and> loader_of req = l"
  shows "chans_ok s"
  using assms by (auto simp: chans_ok_def)

lemma keeps_PushToLoader:
  assumes "req_sdk_ok req"
  shows "keeps {#tag req#} s (PushToLoader req s)"
proof (cases "length (au_chan s ! loader_of req) < loader_cap")
  case True
  let ?l = "loader_of req" let ?s = "s\<lparr>au_chan := (au_chan s)[?l := au_chan s ! ?l @ [req]]\<rparr>"
  have "auth_ok ?s \<and> accounted ?s = accounted s + {#tag req#}" if ok: "auth_ok s"
  proof
    have len: "?l < length (au_chan s)" using ok loader_of_lt by (simp add: auth_ok_def chans_ok_def)
    have c: "chans_ok s" using ok by (simp add: auth_ok_def)
    have "chans_ok ?s"
      using c len True assms by (intro chans_okI) (auto simp: chans_okD(1-5) nth_list_update_case dest: chans_okD(6,7) split: if_splits)
    then show "auth_ok ?s" using ok by (simp add: auth_ok_def)
    show "accounted ?s = accounted s + {#tag req#}"
      using tags_concat_update [OF len, of "au_chan s ! ?l @ [req]"] by (simp add: accounted_simp)
  qed
  then show ?thesis using True by (simp add: PushToLoader_def Let_def keeps_def)
qed (simp add: PushToLoader_def Let_def keeps_fail)

lemma req_okE:
  assumes "req_ok req"
  obtains r where "rq_Req req = Some r"
  using assms by (auto simp: req_ok_def)

lemma keeps_login:
  assumes "req_ok req"
  shows "\<exists>s'. login X req s = Some s' \<and> keeps {#tag req#} s s'"
proof -
  obtain r where r: "rq_Req req = Some r" using assms by (rule req_okE)
  obtain code w' where c: "checkLoginRateLimit X r (au_w s) = (code, w')" by fastforce
  let ?s = "s\<lparr>au_w := w'\<rparr>"
  show ?thesis
  proof (cases "code = LCSuccess")
    case False
    then show ?thesis
      using r c keeps_via_w [OF keeps_dispatch_login [of "OpLoginFail req code" req ?s]] assms by (simp add: login_def)
  next
    case True
    have acc: "cl_Account r \<noteq> []" using c True by (auto simp: checkLoginRateLimit_def)
    show ?thesis
    proof (cases "CreateSdk (cl_SdkType r)")
      case None
      then show ?thesis
        using True r c keeps_via_w [OF keeps_dispatch_login [of "OpLoginFail req LCSDKErr" req ?s]] assms
        by (simp add: login_def authenticateWithSDK_def)
    next
      case (Some sdk)
      then have "keeps {#tag req#} s (s\<lparr>au_w := w', au_sdk := au_sdk s @ [req]\<rparr>)"
        using acc r assms by (auto simp: keeps_def auth_ok_def chans_ok_def accounted_simp req_sdk_ok_def)
      then show ?thesis using True Some r c by (simp add: login_def authenticateWithSDK_def)
    qed
  qed
qed

lemma gameExists_ok: "order_ok (x_nodes X) \<Longrightarrow> manager_ok m \<Longrightarrow> gameExists X g m w = (b, m', w') \<Longrightarrow> manager_ok m'"
  using Manager_Exists_ok [of "x_nodes X" m "x_unmarshal X" _ "SrvName Server_Game" "uint g"]
  by (auto simp: gameExists_def split: prod.splits) (metis snd_conv)

lemma selectGameServer_ok:
  assumes "order_ok (x_nodes X)" "manager_ok m"
  shows "\<exists>r m' w'. selectGameServer X m w = Some (r, m', w') \<and> manager_ok m'"
proof -
  obtain an w1 r1 r2 w2 where a: "x_answers X w = (an, w1)" "x_rand X w1 = ((r1, r2), w2)"
    by (metis surj_pair)
  obtain res m' where s: "Manager_Select (x_nodes X) (x_unmarshal X) an r1 r2 (SrvName Server_Game) m = (res, m')" by fastforce
  show ?thesis
    using Manager_Select_ok(1,2) [OF assms s] a s by (auto simp: selectGameServer_def split: option.split)
qed

lemma allocateGameServer_ok:
  assumes "order_ok (x_nodes X)" "manager_ok m"
  shows "\<exists>g code m' w'. allocateGameServer X lastID m w = Some ((g, code), m', w') \<and> manager_ok m'"
proof -
  obtain b m1 w1 where g: "gameExists X lastID m w = (b, m1, w1)" using prod_cases3 by blast
  have m1: "manager_ok m1" using gameExists_ok [OF assms g] .
  show ?thesis
    using selectGameServer_ok [OF assms, of w] selectGameServer_ok [OF assms(1) m1, of w1] g m1
    by (auto simp: allocateGameServer_def)
qed

lemma generatePasswd_returns: "p \<in> set ds \<Longrightarrow> p \<noteq> 0 \<Longrightarrow> \<exists>q. generatePasswd ds = Some q \<and> q \<noteq> 0"
  by (induction ds) auto

lemma new_passwd_ok:
  assumes "ext_ok X"
  shows "\<exists>p w'. new_passwd X passwd w = Some (p, w') \<and> p \<noteq> 0"
proof -
  obtain q where "q \<in> set (fst (x_draws X w))" "q \<noteq> 0" using assms unfolding ext_ok_def by blast
  then show ?thesis
    using generatePasswd_returns by (fastforce simp: new_passwd_def split: prod.split)
qed

lemma finalizeLoginSession_ok:
  assumes "ext_ok X" "manager_ok m" "req_ok req"
  shows "\<exists>a req' code m' w'. finalizeLoginSession X acc req m w = Some ((a, req', code), m', w') \<and> manager_ok m' \<and> tag req' = tag req"
proof -
  obtain r where r: "rq_Req req = Some r" using assms(3) by (rule req_okE)
  have o: "order_ok (x_nodes X)" using assms(1) by (simp add: ext_ok_def)
  obtain g code m1 w1 where al: "allocateGameServer X (a_GameID acc) m w = Some ((g, code), m1, w1)" "manager_ok m1"
    using allocateGameServer_ok [OF o assms(2)] by blast
  obtain p w2 where np: "new_passwd X (a_Passwd acc) w1 = Some (p, w2)" using new_passwd_ok [OF assms(1)] by blast
  obtain res w3 where sv: "SaveLoginData X (acc\<lparr>a_Passwd := p, a_Seq := a_Seq acc + 1, a_GameID := g\<rparr>) (a_Seq acc) w2 = (res, w3)"
    by fastforce
  show ?thesis
    using r al np sv assms(2) by (cases res) (auto simp: finalizeLoginSession_def Let_def tag_def)
qed

lemma keeps_OnSDKAuthSuccess:
  assumes "ext_ok X" "req_ok req" "auth_ok s"
  shows "\<exists>s'. OnSDKAuthSuccess X acc req s = Some s' \<and> keeps {#tag req#} s s'"
proof (cases acc)
  case None
  then show ?thesis by (simp add: OnSDKAuthSuccess_def keeps_fail)
next
  case (Some a)
  have "manager_ok (au_disc s)" using assms(3) by (simp add: auth_ok_def)
  from finalizeLoginSession_ok [OF assms(1) this assms(2)]
  obtain a' req' code m' w' where f: "finalizeLoginSession X a req (au_disc s) (au_w s) = Some ((a', req', code), m', w')"
      and m': "manager_ok m'" and t: "tag req' = tag req" by blast
  let ?s = "s\<lparr>au_disc := m', au_w := w'\<rparr>"
  have "keeps {#tag req#} s (sendLoginFailure req' code ?s)"
    using keeps_trans [OF keeps_disc [OF m', of s w'] keeps_fail [of req' _ code]] t by simp
  moreover have "keeps {#tag req#} s (?s\<lparr>au_out := au_out ?s @ [ReqLoginToGame (a_GameID a') (req'\<lparr>rq_ConnectedAcc := a_Binds a'\<rparr>)]\<rparr>)"
    using keeps_trans [OF keeps_disc [OF m', of s w'] keeps_out [of "ReqLoginToGame (a_GameID a') (req'\<lparr>rq_ConnectedAcc := a_Binds a'\<rparr>)"]] t
    by (simp add: tag_def)
  ultimately show ?thesis using Some f by (simp add: OnSDKAuthSuccess_def Let_def)
qed

definition event_tags :: "acc_event list \<Rightarrow> (C2SLogin option \<times> u64) multiset" where
  "event_tags es = tags (List.map_filter event_login es)"

lemma keeps_processEvent:
  assumes "ext_ok X" "event_ok e" "auth_ok s"
  shows "\<exists>s'. processEvent X e s = Some s' \<and> keeps (event_tags [e]) s s'"
proof (cases e)
  case (OpLogin req)
  then show ?thesis using keeps_login [of req X s] assms(2) by (simp add: event_ok_def event_tags_def List.map_filter_simps)
next
  case (OpAfterSDKCheck req acc)
  then show ?thesis
    using keeps_OnSDKAuthSuccess [OF assms(1) _ assms(3), of req acc] assms(2)
    by (simp add: event_ok_def event_tags_def List.map_filter_simps)
next
  case (OpLoginFail req code)
  then show ?thesis by (simp add: keeps_fail event_tags_def List.map_filter_simps)
next
  case (OpRoleClear a b)
  then show ?thesis by (simp add: keeps_w event_tags_def List.map_filter_simps)
qed

lemma keeps_register_fold:
  assumes "\<forall>req \<in> set batch. req_ok req" "\<forall>(req, acc) \<in> set reg. req_ok req"
    and "fold (register_one X) batch (pipe, reg, s) = (pipe', reg', s')"
  shows "(\<forall>(req, acc) \<in> set reg'. req_ok req)
    \<and> (\<exists>D. keeps D s s' \<and> D + tags (map fst reg') = tags batch + tags (map fst reg))"
  using assms
proof (induction batch arbitrary: pipe reg s)
  case Nil
  then show ?case using keeps_refl by fastforce
next
  case (Cons req batch)
  obtain p1 d1 s1 where one: "register_one X req (pipe, reg, s) = (p1, d1, s1)" using prod_cases3 by blast
  have "(\<exists>acc. d1 = reg @ [(req, acc)]) \<and> keeps {#} s s1 \<or> d1 = reg \<and> keeps {#tag req#} s s1"
    using one keeps_via_w [OF keeps_fail] keeps_w
    by (auto simp: register_one_def Let_def split: option.splits prod.splits insert_result.splits)
  then obtain D1 where D1: "keeps D1 s s1" "D1 + tags (map fst d1) = {#tag req#} + tags (map fst reg)"
      and ok1: "\<forall>(req, acc) \<in> set d1. req_ok req"
    using Cons.prems(1,2) by fastforce
  have "fold (register_one X) batch (p1, d1, s1) = (pipe', reg', s')" using Cons.prems(3) one by simp
  from Cons.IH [OF _ ok1 this] Cons.prems(1) obtain D where D: "\<forall>(req, acc) \<in> set reg'. req_ok req" "keeps D s1 s'"
      "D + tags (map fst reg') = tags batch + tags (map fst d1)" by auto
  have "D1 + D + tags (map fst reg') = tags (req # batch) + tags (map fst reg)"
    using arg_cong2 [OF D1(2) D(3), of "(+)"] by (simp add: ac_simps)
  then show ?case using D(1) keeps_trans [OF D1(1) D(2)] by blast
qed

lemma keeps_registerNewAccounts:
  assumes "\<forall>req \<in> set batch. req_ok req"
  shows "keeps (tags batch) s (registerNewAccounts X batch s)"
proof -
  obtain pipe lst s1 where f: "fold (register_one X) batch ([], [], s) = (pipe, lst, s1)" using prod_cases3 by blast
  obtain D where D: "\<forall>(req, acc) \<in> set lst. req_ok req" "keeps D s s1" "D + tags (map fst lst) = tags batch"
    using keeps_register_fold [OF assms _ f] by auto
  have "keeps (tags (map fst lst)) (s1\<lparr>au_w := snd (x_Pipe X pipe (au_w s1))\<rparr>) (registerNewAccounts X batch s)"
    using D(1) unfolding registerNewAccounts_def f
    by (auto intro!: keeps_fold keeps_dispatch_login)
  from keeps_trans [OF D(2) keeps_via_w [OF this]] show ?thesis using D(3) by simp
qed

lemma mset_found_new:
  "tags (map fst (found_batch res batch)) + tags (new_batch res batch) = tags batch"
  by (induction batch) (auto simp: found_batch_def new_batch_def split: option.split)

lemma set_found_batch: "(op, r) \<in> set (found_batch res batch) \<Longrightarrow> op \<in> set batch"
  by (auto simp: found_batch_def split: option.splits)

lemma keeps_loadAccountsFromDB:
  assumes "\<forall>req \<in> set batch. req_ok req"
  shows "keeps (tags batch) s (loadAccountsFromDB X batch s)"
proof -
  obtain res w1 where f: "x_Find X (map rq_BindAcc batch) (au_w s) = (res, w1)" by fastforce
  show ?thesis
  proof (cases res)
    case None
    then show ?thesis using f keeps_via_w [OF keeps_fail_all] by (simp add: loadAccountsFromDB_def)
  next
    case (Some accs0)
    obtain res2 w2 where e: "enrich X accs0 w1 = (res2, w2)" by fastforce
    show ?thesis
    proof (cases res2)
      case None
      then show ?thesis using f Some e keeps_via_w [OF keeps_fail_all] by (simp add: loadAccountsFromDB_def)
    next
      case (Some accs)
      define result where "result = bind_map accs"
      define upd where "upd = map (\<lambda>(op, r). (rq_BindAcc op, r)) (found_batch result batch)"
      define w3 where "w3 = (if upd = [] then w2 else syncAccountsToCache X upd w2)"
      define s3 where "s3 = fold (\<lambda>(op, r). dispatchEvent (OpAfterSDKCheck op (Some (Clone (fst (MarshalBinds r)))))) (found_batch result batch)
                    (s\<lparr>au_w := w3\<rparr>)"
      have eq: "loadAccountsFromDB X batch s = (if new_batch result batch = [] then s3 else registerNewAccounts X (new_batch result batch) s3)"
        using f \<open>res = Some accs0\<close> e Some by (simp add: loadAccountsFromDB_def Let_def result_def upd_def w3_def s3_def)
      have 1: "keeps (tags (map fst (found_batch result batch))) s s3"
        unfolding s3_def
      proof (rule keeps_via_w, rule keeps_fold)
        fix x :: "login_req \<times> account" and t :: "'a auth"
        assume "x \<in> set (found_batch result batch)"
        then obtain op r where x: "x = (op, r)" "req_ok op" using set_found_batch assms by (metis surj_pair)
        then show "keeps {#tag (fst x)#} t ((case x of (op, r) \<Rightarrow> dispatchEvent (OpAfterSDKCheck op (Some (Clone (fst (MarshalBinds r)))))) t)"
          by (simp add: keeps_dispatch_login)
      qed
      have 2: "keeps (tags (new_batch result batch)) s3 (registerNewAccounts X (new_batch result batch) s3)"
        using assms by (intro keeps_registerNewAccounts) (auto simp: new_batch_def)
      show ?thesis
        using keeps_trans [OF 1 2] 1 mset_found_new [of result batch] unfolding eq by auto
    qed
  qed
qed

lemma split_binds_tags:
  "length cs = length batch \<Longrightarrow> split_binds batch cs = (hits, misses) \<Longrightarrow>
     tags (map fst hits) + tags misses = tags batch \<and> fst ` set hits \<union> set misses = set batch"
proof (induction batch cs arbitrary: hits misses rule: split_binds.induct)
  case (1 op ops c cs)
  obtain h m where hm: "split_binds ops cs = (h, m)" by fastforce
  have IH: "tags (map fst h) + tags m = tags ops \<and> fst ` set h \<union> set m = set ops"
    using 1 hm by simp
  show ?case
    using 1(3) hm IH by (cases "Option.bind c (ParseUint 64)") (clarsimp; simp)+
qed auto

lemma cache_one_cases:
  obtains (hit) acc where "cache_one X (op, row) (db, s) = (db, dispatchEvent (OpAfterSDKCheck op (Some acc)) s)"
  | (miss) "cache_one X (op, row) (db, s) = (db @ [op], s)"
proof (cases row)
  case None
  then show ?thesis using miss by (simp add: cache_one_def)
next
  case (Some vals)
  obtain acc ok where "x_Scan X AccFields vals new_account = (acc, ok)" by fastforce
  then show ?thesis
    using Some hit miss by (cases ok; cases "a_AccID acc > 0") (auto simp: cache_one_def)
qed

lemma keeps_cache_fold:
  assumes "\<forall>c \<in> set cmds. req_ok (fst c)" "\<forall>req \<in> set db. req_ok req"
    and "fold (cache_one X) cmds (db, s) = (db', s')"
  shows "(\<forall>req \<in> set db'. req_ok req) \<and> (\<exists>D. keeps D s s' \<and> D + tags db' = tags (map fst cmds) + tags db)"
  using assms
proof (induction cmds arbitrary: db s)
  case Nil
  then show ?case using keeps_refl by fastforce
next
  case (Cons c cmds)
  obtain op row where c: "c = (op, row)" by fastforce
  have op: "req_ok op" using Cons.prems(1) c by simp
  obtain db1 s1 D1 where one: "cache_one X c (db, s) = (db1, s1)" "keeps D1 s s1" "D1 + tags db1 = {#tag op#} + tags db"
      and ok1: "\<forall>req \<in> set db1. req_ok req"
  proof (cases rule: cache_one_cases [of X op row db s])
    case (hit acc)
    then show ?thesis
      using that [OF _ keeps_dispatch_login [of "OpAfterSDKCheck op (Some acc)" op s]] op Cons.prems(2) c by simp
  next
    case miss
    then show ?thesis using that [OF _ keeps_refl] op Cons.prems(2) c by simp
  qed
  have "fold (cache_one X) cmds (db1, s1) = (db', s')" using Cons.prems(3) one by simp
  from Cons.IH [OF _ ok1 this] Cons.prems(1) obtain D where D: "\<forall>req \<in> set db'. req_ok req" "keeps D s1 s'"
      "D + tags db' = tags (map fst cmds) + tags db1" by auto
  have "D1 + D + tags db' = tags (map fst (c # cmds)) + tags db"
    using arg_cong2 [OF one(3) D(3), of "(+)"] c by (simp add: ac_simps)
  then show ?case using D(1) keeps_trans [OF one(2) D(2)] by blast
qed

lemma tags_perm: "mset xs = mset ys \<Longrightarrow> tags xs = tags ys"
  by (simp add: tags_def)

lemma mset_nth_order:
  assumes "ext_ok X"
  shows "mset (map ((!) cmds) (x_order X [0..<length cmds])) = mset cmds"
proof -
  have "mset (x_order X [0..<length cmds]) = mset [0..<length cmds]" using assms by (simp add: ext_ok_def)
  then have "mset (map ((!) cmds) (x_order X [0..<length cmds])) = image_mset ((!) cmds) (mset [0..<length cmds])" by simp
  also have "\<dots> = mset cmds" by (metis map_nth mset_map)
  finally show ?thesis .
qed

lemma keeps_loadAccountsFromCache:
  assumes X: "ext_ok X" and ok: "\<forall>req \<in> set batch. req_ok req"
  shows "keeps (tags batch) s (loadAccountsFromCache X batch s)"
proof -
  obtain res w1 where g: "x_Gets X (map (\<lambda>op. KeyAccBind (rq_BindAcc op)) batch) (au_w s) = (res, w1)" by fastforce
  show ?thesis
  proof (cases res)
    case None
    then show ?thesis
      using g keeps_via_w [OF keeps_loadAccountsFromDB [OF ok]] by (simp add: loadAccountsFromCache_def)
  next
    case (Some cs)
    obtain hits misses where sp: "split_binds batch cs = (hits, misses)" by fastforce
    have "length cs = length batch" using X g Some unfolding ext_ok_def by (metis length_map)
    from split_binds_tags [OF this sp] have t: "tags (map fst hits) + tags misses = tags batch" "fst ` set hits \<union> set misses = set batch"
      by auto
    then have okm: "\<forall>req \<in> set misses. req_ok req" and okh: "\<forall>h \<in> set hits. req_ok (fst h)" using ok by auto
    obtain res2 w2 where h: "x_HMGets X (map (\<lambda>(_, accID). (KeyAccount accID, AccFields)) hits) w1 = (res2, w2)" by fastforce
    show ?thesis
    proof (cases "hits = []")
      case True
      then show ?thesis
        using g Some sp t(1) keeps_w keeps_via_w [OF keeps_loadAccountsFromDB [OF okm]] by (auto simp: loadAccountsFromCache_def)
    next
      case ne: False
      show ?thesis
      proof (cases res2)
        case None
        then show ?thesis
          using g Some sp ne h keeps_via_w [OF keeps_loadAccountsFromDB [OF ok]] by (simp add: loadAccountsFromCache_def)
      next
        case rows: (Some rows)
        define cmds where "cmds = zip (map fst hits) rows"
        define cs' where "cs' = map ((!) cmds) (x_order X [0..<length cmds])"
        have len: "length rows = length hits" using X h rows unfolding ext_ok_def by (metis length_map)
        have m: "mset cs' = mset cmds" unfolding cs'_def by (rule mset_nth_order [OF X])
        have fst_cmds: "map fst cmds = map fst hits" using len by (simp add: cmds_def)
        have tc: "tags (map fst cs') = tags (map fst hits)" using m fst_cmds by (metis mset_map tags_perm)
        have okc: "\<forall>c \<in> set cs'. req_ok (fst c)"
          using okh fst_cmds mset_eq_setD [OF m] by (metis (no_types, lifting) image_eqI image_iff list.set_map)
        obtain db s2 where f: "fold (cache_one X) cs' (misses, s\<lparr>au_w := w2\<rparr>) = (db, s2)" by fastforce
        from keeps_cache_fold [OF okc okm f] obtain D where D: "\<forall>req \<in> set db. req_ok req" "keeps D (s\<lparr>au_w := w2\<rparr>) s2"
          "D + tags db = tags batch" using tc t(1) by auto
        have "fold (\<lambda>i. cache_one X (cmds ! i)) (x_order X [0..<length cmds]) (misses, s\<lparr>au_w := w2\<rparr>) = (db, s2)"
          using f by (simp add: cs'_def fold_map comp_def)
        then have eq: "loadAccountsFromCache X batch s = (if db = [] then s2 else loadAccountsFromDB X db s2)"
          using g Some sp ne h rows by (simp add: loadAccountsFromCache_def cmds_def [symmetric] Let_def)
        show ?thesis
          unfolding eq using keeps_via_w [OF D(2)] keeps_trans [OF keeps_via_w [OF D(2)] keeps_loadAccountsFromDB [OF D(1)]] D(3)
          by auto
      qed
    qed
  qed
qed

lemma unique_requests_tags:
  "unique_requests seen reqs = (us, ds) \<Longrightarrow> tags us + tags ds = tags reqs \<and> set us \<union> set ds = set reqs
     \<and> distinct (map rq_BindAcc us) \<and> (\<forall>u \<in> set us. rq_BindAcc u \<notin> seen)"
proof (induction seen reqs arbitrary: us ds rule: unique_requests.induct)
  case (2 seen req reqs)
  show ?case
  proof (cases "rq_BindAcc req \<in> seen")
    case True
    obtain ds' where "unique_requests seen reqs = (us, ds')" "ds = req # ds'"
      using 2(3) True by (auto split: prod.splits)
    then show ?thesis using 2(1) [OF True] by simp
  next
    case False
    obtain us' where "unique_requests (insert (rq_BindAcc req) seen) reqs = (us', ds)" "us = req # us'"
      using 2(3) False by (auto split: prod.splits)
    then show ?thesis using 2(2) [OF False, of us' ds] False by auto
  qed
qed simp

text \<open>Emptying the batch of a loader leaves the rest of a well-formed state well formed.\<close>

definition clear_batch :: "nat \<Rightarrow> 'w auth \<Rightarrow> 'w auth" where
  "clear_batch l s = s\<lparr>au_batch := (au_batch s)[l := []]\<rparr>"

lemma clear_batch_ok:
  assumes "auth_ok s"
  shows "auth_ok (clear_batch l s)"
proof -
  have c: "chans_ok s" using assms by (simp add: auth_ok_def)
  then have "chans_ok (clear_batch l s)"
    unfolding clear_batch_def
    by (intro chans_okI) (auto simp: chans_okD(1-5) nth_list_update_case batchSize_pos dest: chans_okD(6,7) split: if_splits)
  then show ?thesis using assms by (simp add: auth_ok_def clear_batch_def)
qed

lemma clear_batch_accounted:
  assumes "l < length (au_batch s)"
  shows "accounted s = accounted (clear_batch l s) + tags (au_batch s ! l)"
  using tags_concat_update [OF assms, of "[]"] by (simp add: accounted_simp clear_batch_def)

lemma loader_flush_keeps:
  assumes X: "ext_ok X" and l: "l < length (au_batch s)" and ok: "auth_ok (clear_batch l s)" and ne: "au_batch s ! l \<noteq> []"
    and reqs: "\<forall>req \<in> set (au_batch s ! l). req_sdk_ok req"
  shows "auth_ok (loader_flush X l s) \<and> accounted (loader_flush X l s) = accounted s"
proof -
  let ?b = "au_batch s ! l" let ?s0 = "clear_batch l s"
  obtain us ds where u: "unique_requests {} ?b = (us, ds)" by fastforce
  have t: "tags us + tags ds = tags ?b" "set us \<union> set ds = set ?b" using unique_requests_tags [OF u] by auto
  then have oku: "\<forall>req \<in> set us. req_ok req" using reqs by (auto simp: req_sdk_ok_def)
  have eq: "loader_flush X l s = loadAccountsFromCache X us (fail_all LCServerBusy ds ?s0)"
    using ne u by (simp add: loader_flush_def Let_def clear_batch_def)
  have "keeps (tags ds + tags us) ?s0 (loader_flush X l s)"
    unfolding eq by (rule keeps_trans [OF keeps_fail_all keeps_loadAccountsFromCache [OF X oku]])
  then show ?thesis
    using ok t(1) clear_batch_accounted [OF l] by (simp add: keeps_def ac_simps)
qed

lemma keeps_loader_flush:
  assumes "ext_ok X" "loader_live l s"
  shows "keeps {#} s (loader_flush X l s)"
proof (cases "au_batch s ! l = []")
  case True
  then show ?thesis by (simp add: loader_flush_def keeps_refl)
next
  case False
  have "auth_ok (loader_flush X l s) \<and> accounted (loader_flush X l s) = accounted s" if ok: "auth_ok s"
  proof -
    have c: "chans_ok s" using ok by (simp add: auth_ok_def)
    have l: "l < LoadThread" using assms(2) by (simp add: loader_live_def)
    show ?thesis
      by (rule loader_flush_keeps [OF assms(1) _ clear_batch_ok [OF ok] False]) (use l in \<open>auto simp: chans_okD(2) [OF c] dest: chans_okD(7) [OF c]\<close>)
  qed
  then show ?thesis by (simp add: keeps_def)
qed

lemma keeps_loader_recv:
  assumes "ext_ok X" "loader_live l s"
  shows "keeps {#} s (loader_recv X l s)"
proof (cases "au_chan s ! l")
  case Nil
  then show ?thesis by (simp add: loader_recv_def keeps_refl)
next
  case (Cons p ps)
  let ?s = "s\<lparr>au_chan := (au_chan s)[l := ps], au_batch := (au_batch s)[l := au_batch s ! l @ [p]]\<rparr>"
  have "auth_ok (loader_recv X l s) \<and> accounted (loader_recv X l s) = accounted s" if ok: "auth_ok s"
  proof -
    have c: "chans_ok s" using ok by (simp add: auth_ok_def)
    have l: "l < LoadThread" "l < length (au_batch s)" "l < length (au_chan s)"
      using assms(2) c by (simp_all add: loader_live_def chans_okD)
    have acc: "accounted ?s = accounted s"
      using tags_concat_update [OF l(2), of "au_batch s ! l @ [p]"] tags_concat_update [OF l(3), of ps] Cons by (simp add: accounted_simp ac_simps)
    have reqs: "\<forall>req \<in> set (au_batch s ! l @ [p]). req_sdk_ok req \<and> loader_of req = l"
      using chans_okD(6) [OF c l(1), of p] chans_okD(7) [OF c l(1)] Cons by auto
    show ?thesis
    proof (cases "batchSize \<le> length (au_batch ?s ! l)")
      case False
      have "chans_ok ?s"
        by (intro chans_okI) (use c l reqs Cons False in \<open>auto simp: chans_okD(1-5) nth_list_update_case dest: chans_okD(4,6,7) split: if_splits\<close>)
      then show ?thesis using ok acc Cons False by (simp add: loader_recv_def Let_def auth_ok_def)
    next
      case True
      have "chans_ok (clear_batch l ?s)"
        unfolding clear_batch_def
        by (intro chans_okI) (use c l reqs Cons in \<open>auto simp: chans_okD(1-5) batchSize_pos nth_list_update_case dest: chans_okD(4,6,7) split: if_splits\<close>)
      then have "auth_ok (clear_batch l ?s)" using ok by (simp add: auth_ok_def clear_batch_def)
      from loader_flush_keeps [OF assms(1) _ this] show ?thesis
        using acc Cons True l reqs by (simp add: loader_recv_def Let_def)
    qed
  qed
  then show ?thesis by (simp add: keeps_def)
qed

lemma keeps_loader_done:
  assumes "loader_live l s"
  shows "keeps {#} s (loader_done l s)"
proof -
  let ?s = "s\<lparr>au_chan := (au_chan s)[l := []], au_stopped := (au_stopped s)[l := True]\<rparr>"
  have "auth_ok (loader_done l s) \<and> accounted (loader_done l s) = accounted s" if ok: "auth_ok s"
  proof -
    have c: "chans_ok s" using ok by (simp add: auth_ok_def)
    have l: "l < length (au_chan s)" using assms c by (simp add: loader_live_def chans_okD)
    have "chans_ok ?s"
      by (intro chans_okI) (use c l in \<open>auto simp: chans_okD(1-5) nth_list_update_case dest: chans_okD(6,7) split: if_splits\<close>)
    then have s: "auth_ok ?s" using ok by (simp add: auth_ok_def)
    have "accounted s = accounted ?s + tags (au_chan s ! l)"
      using tags_concat_update [OF l, of "[]"] by (simp add: accounted_simp)
    then show ?thesis
      using s keeps_fail_all [of "au_chan s ! l" ?s LCServerBusy] by (simp add: loader_done_def keeps_def)
  qed
  then show ?thesis by (simp add: keeps_def)
qed

subsection \<open>Whole runs\<close>

lemma event_tags_Cons: "event_tags (e # es) = event_tags [e] + event_tags es"
  by (simp add: event_tags_def List.map_filter_simps split: option.split)

lemma run_callback_fold:
  assumes X: "ext_ok X" and "\<forall>e \<in> set es. event_ok e" and "auth_ok (s\<lparr>au_evt := q\<rparr>)"
  shows "\<exists>s'. fold (run_callback X) es (q, Some s) = (au_evt s', Some s') \<and> auth_ok s'
           \<and> accounted s' = accounted (s\<lparr>au_evt := q\<rparr>) + event_tags es
     \<or> es = []"
  using assms(2-)
proof (induction es arbitrary: q s)
  case (Cons e es)
  obtain s1 where s1: "processEvent X e (s\<lparr>au_evt := q\<rparr>) = Some s1" "keeps (event_tags [e]) (s\<lparr>au_evt := q\<rparr>) s1"
    using keeps_processEvent [OF X _ Cons.prems(2), of e] Cons.prems(1) by auto
  have ok1: "auth_ok s1" and acc1: "accounted s1 = accounted (s\<lparr>au_evt := q\<rparr>) + event_tags [e]"
    using s1(2) Cons.prems(2) by (auto simp: keeps_def)
  have step: "fold (run_callback X) (e # es) (q, Some s) = fold (run_callback X) es (au_evt s1, Some s1)"
    using s1(1) by (simp add: run_callback_def)
  have same: "s1\<lparr>au_evt := au_evt s1\<rparr> = s1" by simp
  show ?case
  proof (cases "es = []")
    case True
    then show ?thesis using step ok1 acc1 by auto
  next
    case False
    then obtain s' where "fold (run_callback X) es (au_evt s1, Some s1) = (au_evt s', Some s')" "auth_ok s'"
        "accounted s' = accounted s1 + event_tags es"
      using Cons.IH [of "au_evt s1" s1] Cons.prems(1) ok1 same by auto
    then show ?thesis using step acc1 event_tags_Cons [of e es] by auto
  qed
qed simp

lemma accounted_evt:
  "accounted (s\<lparr>au_evt := q\<rparr>) + event_tags (sq_write (au_evt s)) = accounted s + event_tags (sq_write q)"
  by (simp add: accounted_simp event_tags_def ac_simps)

lemma auth_ok_evt: "auth_ok s \<Longrightarrow> \<forall>e \<in> set (sq_write q). event_ok e \<Longrightarrow> auth_ok (s\<lparr>au_evt := q\<rparr>)"
  by (simp add: auth_ok_def chans_ok_def)

lemma run_range_keeps:
  assumes X: "ext_ok X" and ok: "auth_ok s"
  shows "\<exists>s'. run_range X s = Some s' \<and> auth_ok s' \<and> accounted s' = accounted s"
proof (cases "sq_write (au_evt s) = []")
  case True
  then show ?thesis using ok by (simp add: run_range_def Range_def)
next
  case False
  let ?q = "Range_swap (au_evt s)" let ?es = "sq_write (au_evt s)"
  have "auth_ok (s\<lparr>au_evt := ?q\<rparr>)" by (rule auth_ok_evt [OF ok]) (simp add: queue_simps)
  then obtain s1 where s1: "fold (run_callback X) ?es (?q, Some s) = (au_evt s1, Some s1)" "auth_ok s1"
      "accounted s1 = accounted (s\<lparr>au_evt := ?q\<rparr>) + event_tags ?es"
    using run_callback_fold [OF X, of ?es ?q s] ok False by (auto simp: auth_ok_def)
  have acc: "accounted s1 = accounted s"
    using s1(3) accounted_evt [of ?q s] by (simp add: queue_simps event_tags_def List.map_filter_simps)
  let ?q1 = "Range_finish (au_evt s1)"
  have "run_range X s = Some (s1\<lparr>au_evt := ?q1\<rparr>)"
    using s1(1) False by (simp add: run_range_def Range_def)
  moreover have "keeps {#} s1 (s1\<lparr>au_evt := ?q1\<rparr>)"
    by (rule keeps_evt_same) (simp add: queue_simps)
  ultimately show ?thesis using acc s1(2) by (auto simp: keeps_def)
qed

lemma run_sig_keeps:
  assumes "ext_ok X" "auth_ok s"
  shows "\<exists>s'. run_sig X s = Some s' \<and> auth_ok s' \<and> accounted s' = accounted s"
proof (cases "sq_sig (au_evt s)")
  case True
  let ?s = "s\<lparr>au_evt := (au_evt s)\<lparr>sq_sig := False\<rparr>\<rparr>"
  have "keeps {#} s ?s" by (rule keeps_evt_same) simp
  then have "auth_ok ?s" "accounted ?s = accounted s" using assms(2) by (simp_all add: keeps_def)
  then show ?thesis using run_range_keeps [OF assms(1), of ?s] True by (simp add: run_sig_def recv_Sig_def)
qed (use assms(2) in \<open>simp add: run_sig_def recv_Sig_def\<close>)

lemma run_done_fold:
  "\<exists>s'. fold (\<lambda>e (q, s). (q, case event_login e of None \<Rightarrow> s | Some req \<Rightarrow> sendLoginFailure req LCServerBusy s)) es (q, s) = (q, s')
     \<and> keeps (event_tags es) s s' \<and> au_evt s' = au_evt s"
proof (induction es arbitrary: s)
  case Nil
  then show ?case by (simp add: keeps_refl event_tags_def List.map_filter_simps)
next
  case (Cons e es)
  let ?s = "case event_login e of None \<Rightarrow> s | Some req \<Rightarrow> sendLoginFailure req LCServerBusy s"
  have 1: "keeps (event_tags [e]) s ?s" "au_evt ?s = au_evt s"
    by (auto simp: event_tags_def List.map_filter_simps keeps_refl keeps_fail split: option.split) (simp add: sendLoginFailure_def)
  obtain s' where "fold (\<lambda>e (q, s). (q, case event_login e of None \<Rightarrow> s | Some req \<Rightarrow> sendLoginFailure req LCServerBusy s)) es (q, ?s) = (q, s')"
      "keeps (event_tags es) ?s s'" "au_evt s' = au_evt s"
    using Cons.IH [of ?s] 1(2) by auto
  then show ?case using keeps_trans [OF 1(1)] event_tags_Cons [of e es] by auto
qed

lemma Close_write: "sq_write (Close q) = sq_write q"
  by (simp add: Close_def Wake_def)

lemma run_done_keeps: "keeps {#} s (run_done s)"
proof (cases "sq_write (au_evt s) = []")
  case True
  have "run_done s = s\<lparr>au_evt := Close (au_evt s)\<rparr>" using True by (simp add: run_done_def Range_def Close_write)
  then show ?thesis using keeps_evt_same [of "Close (au_evt s)" s] by (simp add: Close_write)
next
  case False
  let ?q = "Range_swap (Close (au_evt s))" let ?es = "sq_write (au_evt s)"
  obtain s1 where s1: "fold (\<lambda>e (q, s). (q, case event_login e of None \<Rightarrow> s | Some req \<Rightarrow> sendLoginFailure req LCServerBusy s)) ?es (?q, s) = (?q, s1)"
      "keeps (event_tags ?es) s s1" "au_evt s1 = au_evt s" using run_done_fold [of ?es ?q s] by blast
  have "run_done s = s1\<lparr>au_evt := Range_finish ?q\<rparr>"
    using s1(1) False by (simp add: run_done_def Range_def Close_write)
  moreover have "auth_ok (s1\<lparr>au_evt := Range_finish ?q\<rparr>) \<and> accounted (s1\<lparr>au_evt := Range_finish ?q\<rparr>) = accounted s" if ok: "auth_ok s"
  proof
    have s1': "auth_ok s1" "accounted s1 = accounted s + event_tags ?es" using s1(2) ok by (simp_all add: keeps_def)
    then show "auth_ok (s1\<lparr>au_evt := Range_finish ?q\<rparr>)" by (intro auth_ok_evt) (simp_all add: queue_simps)
    show "accounted (s1\<lparr>au_evt := Range_finish ?q\<rparr>) = accounted s"
      using accounted_evt [of "Range_finish ?q" s1] s1' s1(3) by (simp add: queue_simps event_tags_def List.map_filter_simps)
  qed
  ultimately show ?thesis by (simp add: keeps_def)
qed

text \<open>The logins that arrive in a run.\<close>

fun step_login :: "'w auth_step \<Rightarrow> (C2SLogin option \<times> u64) multiset" where
  "step_login (DoLogin sesID req) = {#(Some req, sesID)#}"
| "step_login _ = {#}"

definition arrived :: "'w auth_step list \<Rightarrow> (C2SLogin option \<times> u64) multiset" where
  "arrived sts = sum_list (map step_login sts)"

lemma keeps_onLogin: "keeps {#(Some req, sesID)#} s (onLogin sesID req s)"
  unfolding onLogin_def HandleLoginRequest_def
  by (simp, rule keeps_dispatch_login [where req = "\<lparr>rq_Req = Some req, rq_SesID = sesID, rq_RoleID = 0, rq_ReConnToken = 0,
        rq_Seq = 0, rq_BindAcc = FormatBindKey (cl_SdkType req) (cl_Account req), rq_ConnectedAcc = []\<rparr>", unfolded tag_def, simplified])
    (simp_all add: req_ok_def)

lemma keeps_sdk_step:
  assumes "i < length (au_sdk s)" "auth_ok s"
  shows "\<exists>s'. auth_do X (DoSdk i) s = Some s' \<and> auth_ok s' \<and> accounted s' = accounted s"
proof -
  let ?req = "au_sdk s ! i" let ?s = "s\<lparr>au_sdk := take i (au_sdk s) @ drop (Suc i) (au_sdk s)\<rparr>"
  have req: "req_sdk_ok ?req" using assms by (simp add: auth_ok_def)
  have split: "au_sdk s = take i (au_sdk s) @ ?req # drop (Suc i) (au_sdk s)" by (rule id_take_nth_drop [OF assms(1)])
  have "tags (au_sdk s) = tags (au_sdk ?s) + {#tag ?req#}" by (subst split) simp
  then have acc: "accounted s = accounted ?s + {#tag ?req#}" by (simp add: accounted_simp)
  have "set (au_sdk ?s) \<subseteq> set (au_sdk s)" using set_take_subset set_drop_subset by fastforce
  then have ok: "auth_ok ?s" using assms(2) by (auto simp: auth_ok_def chans_ok_def)
  obtain r sdk where r: "rq_Req ?req = Some r" "CreateSdk (cl_SdkType r) = Some sdk" using req by (auto simp: req_sdk_ok_def)
  have "sdk_Login sdk r" by (cases sdk) simp_all
  then have "auth_do X (DoSdk i) s = Some (PushToLoader ?req ?s)" using assms(1) r by (simp add: sdk_goroutine_def)
  then show ?thesis using keeps_PushToLoader [OF req, of ?s] ok acc by (simp add: keeps_def)
qed

lemma auth_do_keeps:
  assumes "ext_ok X" "auth_ok s"
  shows "\<exists>s'. auth_do X st s = Some s' \<and> auth_ok s' \<and> accounted s' = accounted s + step_login st"
proof (cases st)
  case (DoLogin sesID req)
  then show ?thesis using keeps_onLogin [of req sesID s] assms(2) by (simp add: keeps_def)
next
  case (DoClear a b)
  then show ?thesis using keeps_dispatchEvent [of "OpRoleClear a b" s] assms(2) by (simp add: keeps_def onClearRole_def event_ok_def)
next
  case DoSig
  then show ?thesis using run_sig_keeps [OF assms] by simp
next
  case DoRunDone
  then show ?thesis using run_done_keeps [of s] assms(2) by (simp add: keeps_def)
next
  case (DoSdk i)
  then show ?thesis using keeps_sdk_step [of i s X] assms(2) by (cases "i < length (au_sdk s)") auto
next
  case (DoRecv l)
  then show ?thesis using keeps_loader_recv [OF assms(1), of l s] assms(2) by (auto simp: keeps_def)
next
  case (DoTick l)
  then show ?thesis using keeps_loader_flush [OF assms(1), of l s] assms(2) by (auto simp: keeps_def)
next
  case (DoLoaderDone l)
  then show ?thesis using keeps_loader_done [of l s] assms(2) by (auto simp: keeps_def)
next
  case (DoWorld f)
  then show ?thesis using keeps_w [of s "f (au_w s)"] assms(2) by (simp add: keeps_def)
qed

lemma auth_run_keeps:
  assumes "ext_ok X" "auth_ok s"
  shows "\<exists>s'. auth_run X sts s = Some s' \<and> auth_ok s' \<and> accounted s' = accounted s + arrived sts"
  using assms(2)
proof (induction sts arbitrary: s)
  case Nil
  then show ?case by (simp add: arrived_def)
next
  case (Cons st sts)
  obtain s1 where s1: "auth_do X st s = Some s1" "auth_ok s1" "accounted s1 = accounted s + step_login st"
    using auth_do_keeps [OF assms(1) Cons.prems] by blast
  then show ?case using Cons.IH [OF s1(2)] by (auto simp: arrived_def ac_simps)
qed

lemma StartService_ok: "manager_ok m \<Longrightarrow> auth_ok (StartService grow m w) \<and> accounted (StartService grow m w) = {#}"
proof -
  assume m: "manager_ok m"
  have "chans_ok (StartService grow m w)"
    by (rule chans_okI) (simp_all add: StartService_def batchSize_def)
  then show ?thesis using m
    by (simp add: auth_ok_def StartService_def NewSwapQueue_def accounted_simp List.map_filter_simps)
qed

text \<open>
  C27. Every login is answered once.  In any run of the service, with whatever Redis, MongoDB, etcd and the other servers
  do, nothing panics, and the logins that arrived are exactly those that were answered (passed on to a game server or
  refused) together with those still in the event queue, in the check of their SDK, in a loader's channel or in its
  batch.  In particular no login is answered twice, and once nothing is pending all are answered.
\<close>

theorem every_login_is_accounted_for:
  assumes "ext_ok X" "manager_ok m"
  shows "\<exists>s. auth_run X sts (StartService grow m w) = Some s \<and> arrived sts = answered s + tags (pending_reqs s)
     \<and> (pending_reqs s = [] \<longrightarrow> answered s = arrived sts)"
proof -
  obtain s where "auth_run X sts (StartService grow m w) = Some s" "accounted s = arrived sts"
    using auth_run_keeps [OF assms(1), of "StartService grow m w" sts] StartService_ok [OF assms(2), of grow w] by auto
  then show ?thesis by (auto simp: accounted_def)
qed

text \<open>A Redis field reads back as it was written last.\<close>

definition hash_laws :: "'w ext \<Rightarrow> bool" where
  "hash_laws X \<longleftrightarrow> (\<forall>k fvs w k' f. x_HGet X k' f (x_HSet X k fvs w)
     = (if k' = k \<and> map_of (rev fvs) f \<noteq> None then map_of (rev fvs) f else x_HGet X k' f w))"

text \<open>A world that is a Redis of hashes, with no accounts yet, and a deployment without game servers.\<close>

type_synonym demo_world = "string \<Rightarrow> string \<rightharpoonup> string"

definition demo_HSet :: "string \<Rightarrow> (string \<times> string) list \<Rightarrow> demo_world \<Rightarrow> demo_world" where
  "demo_HSet k fvs w = w(k := \<lambda>f. if map_of (rev fvs) f \<noteq> None then map_of (rev fvs) f else w k f)"

definition demo_ext :: "demo_world ext" where
  "demo_ext = \<lparr>x_HGet = \<lambda>k f w. w k f, x_HSet = demo_HSet, x_Eval = \<lambda>w. (Delivered, w), x_SetNX = \<lambda>_ _ w. (Some True, w),
     x_Gets = \<lambda>ks w. (Some (map (\<lambda>_. None) ks), w), x_HMGets = \<lambda>ks w. (Some (map (\<lambda>_. None) ks), w), x_Scan = \<lambda>_ _ acc. (acc, True),
     x_Pipe = \<lambda>_ w. (True, w), x_Get = \<lambda>_ _. None, x_Set = \<lambda>_ _ w. w, x_Incr = \<lambda>_ w. (Some 100001, w), x_Find = \<lambda>_ w. (Some [], w),
     x_Insert = \<lambda>_ w. (Inserted, w), x_AddBind = \<lambda>_ _ w. (Inserted, w), x_order = \<lambda>is. is, x_draws = \<lambda>w. ([7], w), x_rand = \<lambda>w. ((0, 0), w),
     x_nodes = \<lambda>m. sorted_list_of_set (dom m), x_unmarshal = \<lambda>_. None, x_answers = \<lambda>w. (\<lparr>an_Get = None, an_MGet = None\<rparr>, w)\<rparr>"

lemma demo_ext_ok: "ext_ok demo_ext"
  by (auto simp: ext_ok_def demo_ext_def order_ok_def is_order_def)

lemma demo_hash_laws: "hash_laws demo_ext"
  by (simp add: hash_laws_def demo_ext_def demo_HSet_def)

lemma demo_manager_ok: "manager_ok (NewManager ''demo'')"
  by (simp add: manager_ok_def NewManager_def)

definition demo_login :: C2SLogin where
  "demo_login = \<lparr>cl_SdkType = 0, cl_Account = ''bob'', cl_Token = [], cl_Reconnect = True\<rparr>"

theorem every_login_is_accounted_for_witness:
  "\<exists>s. auth_run demo_ext [DoLogin 5 demo_login, DoSig, DoLogin 5 demo_login, DoSdk 0, DoRecv 1, DoTick 1, DoSig]
         (StartService Suc (NewManager ''demo'') (\<lambda>_ _. None)) = Some s
     \<and> {#(Some demo_login, 5), (Some demo_login, 5)#} = answered s + tags (pending_reqs s)"
  using every_login_is_accounted_for [OF demo_ext_ok demo_manager_ok, of "[DoLogin 5 demo_login, DoSig, DoLogin 5 demo_login, DoSdk 0, DoRecv 1, DoTick 1, DoSig]" Suc "\<lambda>_ _. None"]
  by (auto simp: arrived_def)

text \<open>
  C28. The logins inside the service are well formed.  Whatever is pending in a run carries the client's message and the key
  of its binding, and it waits at the loader its account name is hashed to, within the bounds of the channel and of the
  batch.  Its reconnect token is still 0, since no message of the client sets it; so a reconnect to an account that has a
  token is always refused.
\<close>

theorem pending_logins_wellformed:
  assumes "ext_ok X" "manager_ok m" "auth_run X sts (StartService grow m w) = Some s" "req \<in> set (pending_reqs s)"
  shows "(\<exists>r. rq_Req req = Some r \<and> rq_BindAcc req = FormatBindKey (cl_SdkType r) (cl_Account r)
       \<and> (cl_Reconnect r \<and> a_Passwd acc \<noteq> 0
            \<longrightarrow> OnSDKAuthSuccess X (Some acc) req s = Some (sendLoginFailure req LCCanNotReConn s)))
     \<and> rq_ReConnToken req = 0
     \<and> (\<forall>l < LoadThread. length (au_chan s ! l) \<le> 4096 \<and> length (au_batch s ! l) < 500
          \<and> (req \<in> set (au_chan s ! l) \<union> set (au_batch s ! l) \<longrightarrow> loader_of req = l))"
proof -
  have ok: "auth_ok s"
    using auth_run_keeps [OF assms(1), of "StartService grow m w" sts] StartService_ok [OF assms(2), of grow w] assms(3) by auto
  then have c: "chans_ok s" by (simp add: auth_ok_def)
  have "req_ok req"
  proof -
    consider "req \<in> set (List.map_filter event_login (sq_write (au_evt s)))" | "req \<in> set (au_sdk s)"
      | l where "l < LoadThread" "req \<in> set (au_chan s ! l)" | l where "l < LoadThread" "req \<in> set (au_batch s ! l)"
      using assms(4) chans_okD(1,2) [OF c] in_concat_nth unfolding pending_reqs_def set_append by (metis UnE)
    then show ?thesis
    proof cases
      case 1
      then show ?thesis using ok by (auto simp: auth_ok_def event_ok_def List.map_filter_def)
    next
      case 2
      then show ?thesis using ok by (auto simp: auth_ok_def req_sdk_ok_def)
    next
      case 3
      then show ?thesis using chans_okD(6) [OF c] by (auto simp: req_sdk_ok_def)
    next
      case 4
      then show ?thesis using chans_okD(7) [OF c] by (auto simp: req_sdk_ok_def)
    qed
  qed
  then show ?thesis
    using chans_okD(4-7) [OF c]
    by (auto simp: req_ok_def loader_cap_def batchSize_def OnSDKAuthSuccess_def finalizeLoginSession_def)
qed

theorem pending_logins_wellformed_witness:
  "\<exists>s req. auth_run demo_ext [DoLogin 5 demo_login] (StartService Suc (NewManager ''demo'') (\<lambda>_ _. None)) = Some s
     \<and> req \<in> set (pending_reqs s) \<and> rq_Req req = Some demo_login
     \<and> OnSDKAuthSuccess demo_ext (Some (new_account\<lparr>a_Passwd := 7\<rparr>)) req s = Some (sendLoginFailure req LCCanNotReConn s)"
proof -
  let ?s = "onLogin 5 demo_login (StartService Suc (NewManager ''demo'') ((\<lambda>_ _. None) :: demo_world))"
  let ?req = "\<lparr>rq_Req = Some demo_login, rq_SesID = 5, rq_RoleID = 0, rq_ReConnToken = 0, rq_Seq = 0,
     rq_BindAcc = FormatBindKey 0 ''bob'', rq_ConnectedAcc = []\<rparr>"
  have run: "auth_run demo_ext [DoLogin 5 demo_login] (StartService Suc (NewManager ''demo'') (\<lambda>_ _. None)) = Some ?s" by simp
  have "?req \<in> set (pending_reqs ?s)"
    by (simp add: pending_reqs_def onLogin_def HandleLoginRequest_def dispatchEvent_def StartService_def NewSwapQueue_def
        Push_def pushData_def append_write_def Wake_def List.map_filter_simps demo_login_def)
  from pending_logins_wellformed [OF demo_ext_ok demo_manager_ok run this, of "new_account\<lparr>a_Passwd := 7\<rparr>"]
  have "OnSDKAuthSuccess demo_ext (Some (new_account\<lparr>a_Passwd := 7\<rparr>)) ?req ?s = Some (sendLoginFailure ?req LCCanNotReConn ?s)"
    by (simp add: demo_login_def)
  then show ?thesis using run \<open>?req \<in> _\<close> by (intro exI [of _ ?s] exI [of _ ?req]) simp
qed

section \<open>The sequence number guards the account\<close>

text \<open>
  \<open>acc_op\<close> are the operations that reach the
  hash of one account, from any number of account servers: the end of a login, a logout, and the writes of
  \<open>syncAccountsToCache\<close> and \<open>registerNewAccounts\<close>, which leave the three fields alone.
\<close>

datatype acc_op = OpSave u32 u8 u64 | OpClear u32 | OpSync "(string \<times> string) list"

text \<open>The result is the reply of the script (0 for the other writes).\<close>

fun acc_exec :: "'w ext \<Rightarrow> u64 \<Rightarrow> acc_op \<Rightarrow> 'w \<Rightarrow> int \<times> 'w" where
  "acc_exec X accID (OpSave oldSeq gameID passwd) w =
     saveLoginLua X (KeyAccount accID) (fmt_word oldSeq) (fmt_word gameID) (fmt_word (oldSeq + 1)) (fmt_word passwd) w"
| "acc_exec X accID (OpClear seq) w = clearGameLua X (KeyAccount accID) (fmt_word seq) w"
| "acc_exec X accID (OpSync fvs) w = (0, x_HSet X (KeyAccount accID) fvs w)"

fun acc_execs :: "'w ext \<Rightarrow> u64 \<Rightarrow> acc_op list \<Rightarrow> 'w \<Rightarrow> int list \<times> 'w" where
  "acc_execs X accID [] w = ([], w)"
| "acc_execs X accID (op # ops) w = (case acc_exec X accID op w of (r, w1) \<Rightarrow>
     (case acc_execs X accID ops w1 of (rs, w2) \<Rightarrow> (r # rs, w2)))"

text \<open>The operations that do not know of the login with number \<open>seq\<close>.\<close>

fun unaware_of :: "u32 \<Rightarrow> acc_op \<Rightarrow> bool" where
  "unaware_of seq (OpSave oldSeq _ _) \<longleftrightarrow> oldSeq \<noteq> seq"
| "unaware_of seq (OpClear s) \<longleftrightarrow> s \<noteq> seq"
| "unaware_of seq (OpSync fvs) \<longleftrightarrow> fst ` set fvs \<inter> {''game_id'', ''seq'', ''passwd''} = {}"

definition holds_login :: "'w ext \<Rightarrow> u64 \<Rightarrow> u32 \<Rightarrow> u8 \<Rightarrow> u64 \<Rightarrow> 'w \<Rightarrow> bool" where
  "holds_login X accID seq gameID passwd w \<longleftrightarrow> x_HGet X (KeyAccount accID) ''seq'' w = Some (fmt_word seq)
     \<and> x_HGet X (KeyAccount accID) ''game_id'' w = Some (fmt_word gameID)
     \<and> x_HGet X (KeyAccount accID) ''passwd'' w = Some (fmt_word passwd)"

lemma hash_law: "hash_laws X \<Longrightarrow> x_HGet X k' f (x_HSet X k fvs w)
     = (if k' = k \<and> map_of (rev fvs) f \<noteq> None then map_of (rev fvs) f else x_HGet X k' f w)"
  by (simp add: hash_laws_def)

lemma saveLoginLua_commits:
  assumes "hash_laws X" "current_seq X (KeyAccount accID) w = fmt_word oldSeq"
  shows "fst (acc_exec X accID (OpSave oldSeq gameID passwd) w) = 1"
    and "holds_login X accID (oldSeq + 1) gameID passwd (snd (acc_exec X accID (OpSave oldSeq gameID passwd) w))"
  using assms by (simp_all add: saveLoginLua_def holds_login_def hash_law)

lemma unaware_no_effect:
  assumes "hash_laws X" "holds_login X accID seq gameID passwd w" "unaware_of seq op"
  shows "fst (acc_exec X accID op w) = 0 \<and> holds_login X accID seq gameID passwd (snd (acc_exec X accID op w))"
proof (cases op)
  case (OpSync fvs)
  have d: "fst ` set fvs \<inter> {''game_id'', ''seq'', ''passwd''} = {}" using assms(3) by (simp only: OpSync unaware_of.simps)
  have "map_of (rev fvs) f = None" if "f \<in> {''game_id'', ''seq'', ''passwd''}" for f
  proof -
    have "f \<notin> fst ` set fvs" using d that by (meson disjoint_iff)
    then show ?thesis by (simp add: map_of_eq_None_iff)
  qed
  then show ?thesis using assms OpSync by (simp add: holds_login_def hash_law)
qed (use assms in \<open>auto simp: saveLoginLua_def clearGameLua_def current_seq_def holds_login_def\<close>)

lemma unaware_execs:
  assumes "hash_laws X" "holds_login X accID seq gameID passwd w" "\<forall>op \<in> set ops. unaware_of seq op"
  shows "set (fst (acc_execs X accID ops w)) \<subseteq> {0} \<and> holds_login X accID seq gameID passwd (snd (acc_execs X accID ops w))"
  using assms(2,3)
proof (induction ops arbitrary: w)
  case (Cons op ops)
  obtain r w1 where e: "acc_exec X accID op w = (r, w1)" by fastforce
  then have "r = 0" "holds_login X accID seq gameID passwd w1"
    using unaware_no_effect [OF assms(1) Cons.prems(1), of op] Cons.prems(2) by auto
  then show ?case using Cons.IH [of w1] Cons.prems(2) e by (auto split: prod.splits)
qed simp



text \<open>
  The operations on the hash are these: a login ends with \<open>OpSave\<close>, and the other writes of the service do not touch the
  three fields.
\<close>

lemma SaveLoginData_op:
  "a_Seq acc = oldSeq + 1 \<Longrightarrow> SaveLoginData X acc oldSeq w
     = (case Eval X (acc_exec X (a_AccID acc) (OpSave oldSeq (a_GameID acc) (a_Passwd acc))) w of (res, w') \<Rightarrow> (map_option (\<lambda>r. r = 1) res, w'))"
  by (simp add: SaveLoginData_def Eval_def split: prod.split delivery.split)

lemma sync_cmds_unaware: "CHSet k fvs \<in> set (sync_cmds b) \<Longrightarrow> unaware_of seq (OpSync fvs)"
  by (cases b) (auto simp: sync_cmds_def)

section \<open>Further facts\<close>

text \<open>A player who is still online is sent to the game server that holds the role.\<close>

lemma relogin_same_game:
  assumes "lastGameID \<noteq> 0" "gameExists X lastGameID m w = (True, m', w')"
  shows "allocateGameServer X lastGameID m w = Some ((lastGameID, LCSuccess), m', w')"
  using assms by (simp add: allocateGameServer_def)

text \<open>
  Bindings survive the trip through Redis if no account name contains a comma; one that does comes back as two bindings.
\<close>

lemma binds_roundtrip:
  assumes "a_Binds acc \<noteq> []" "\<forall>b \<in> set (a_Binds acc). CHR '','' \<notin> set b \<and> b \<noteq> []"
  shows "a_Binds (UnmarshalBinds (fst (MarshalBinds acc)\<lparr>a_Binds := []\<rparr>)) = a_Binds acc"
proof -
  have "Join CHR '','' (a_Binds acc) \<noteq> []" using assms by (cases "(CHR '','', a_Binds acc)" rule: Join.cases) auto
  then show ?thesis using assms by (simp add: UnmarshalBinds_def MarshalBinds_def Split_Join)
qed

lemma binds_with_comma_differ:
  "a_Binds (UnmarshalBinds (fst (MarshalBinds (new_account\<lparr>a_Binds := [FormatBindKey 0 ''a,b'']\<rparr>)))) = [''0@a'', ''b'']"
  by (simp add: UnmarshalBinds_def MarshalBinds_def new_account_def FormatBindKey_def Itoa_def itoa.simps digit_0 Let_def)

text \<open>The start-up script only raises the counter of account numbers, so that a number is never handed out again.\<close>

lemma initAccIDLua_raises:
  assumes "Atoi (case x_Get X key w of None \<Rightarrow> ''0'' | Some s \<Rightarrow> s) = Some current"
  shows "fst (initAccIDLua X key proposed w) = Some (max current proposed)"
  using assms by (simp add: initAccIDLua_def max_def)

end
