(* ===== verification/Gateway.thy ===== *)
theory Gateway
  imports Sender Shards Swap_Queue
begin

text \<open>
  The gateway, \<^verbatim>\<open>src/internal/gateway\<close>: the table of client sessions (\<^verbatim>\<open>session/network.go\<close>), what a session reads
  from its client and forwards to the servers (\<^verbatim>\<open>session/recver.go\<close>), what it writes to the client
  (\<^verbatim>\<open>session/sender.go\<close>), its life cycle (\<^verbatim>\<open>session/session.go\<close>), and the messages of the servers (\<^verbatim>\<open>app.go\<close>,
  \<^verbatim>\<open>logic/handle.go\<close>).  The web socket is external: what a read returns and which writes succeed are arguments.
\<close>

section \<open>Packets of a client\<close>

datatype DisconnectReason = DR_Normal | DR_Heartbeat | DR_ShutDown | DR_Limit | DR_DecodeErr | DR_PkgCntErr | DR_InitErr
  | DR_Kick | DR_SlowClient | DR_NetErr | DR_Unknown

definition maxRecvMsgSize :: nat where "maxRecvMsgSize = 10240"

text \<open>
  What \<^verbatim>\<open>classifyReadErr\<close> can tell of an error: the code of a close frame, a time-out, the text of a system call error
  inside a network error, and the text of the error.
\<close>

record read_err =
  re_closeCode :: "int option"
  re_timeout :: bool
  re_syscall :: "string option"
  re_text :: string

fun Contains :: "string \<Rightarrow> string \<Rightarrow> bool" where
  "Contains [] p = (p = [])"
| "Contains (c # s) p = (HasPrefix (c # s) p \<or> Contains s p)"

definition ToLower :: "string \<Rightarrow> string" where
  "ToLower = map (\<lambda>c. let n = of_char c :: nat in if 65 \<le> n \<and> n \<le> 90 then char_of (n + 32) else c)"

definition classifyReadErr :: "read_err option \<Rightarrow> DisconnectReason" where
  "classifyReadErr err = (case err of
     None \<Rightarrow> DR_Normal
   | Some e \<Rightarrow> (case re_closeCode e of
       Some code \<Rightarrow> if code \<in> {1000, 1001, 1005, 1006} then DR_Normal else DR_NetErr
     | None \<Rightarrow>
         if re_timeout e then DR_Heartbeat
         else if (case re_syscall e of None \<Rightarrow> False | Some msg \<Rightarrow>
             let errMsg = ToLower msg in
             Contains errMsg ''connection reset'' \<or> Contains errMsg ''broken pipe'' \<or> Contains errMsg ''wsarecv'') then DR_Normal
         else if Contains (re_text e) ''message too large'' then DR_Limit
         else DR_Unknown))"

text \<open>
  \<^verbatim>\<open>readFull\<close> on a buffer of \<open>limit\<close> bytes: the reader returns the chunks one by one, as much of each as there is room for,
  and then reports the end of the message (\<open>None\<close>) or an error.
\<close>

definition too_large :: "nat \<Rightarrow> nat \<Rightarrow> read_err" where
  "too_large n limit = \<lparr>re_closeCode = None, re_timeout = False, re_syscall = None,
     re_text = ''message too large:'' @ itoa n @ '' > '' @ itoa limit\<rparr>"

fun readFull :: "nat \<Rightarrow> bytes \<Rightarrow> bytes list \<Rightarrow> read_err option \<Rightarrow> read_err + bytes" where
  "readFull limit buf [] final = (case final of None \<Rightarrow> Inr buf | Some err \<Rightarrow> Inl err)"
| "readFull limit buf (c # cs) final =
     (let got = take limit (buf @ c) in
      if length got \<ge> limit then Inl (too_large (length got) limit) else readFull limit got cs final)"

definition decode :: "bytes \<Rightarrow> (u32 \<times> bytes) option" where
  "decode src = (if length src < 4 then None else map_option (\<lambda>msgID. (msgID, drop 4 src)) (get_be32 (take 4 src)))"

text \<open>A message is read whole if it is shorter than the buffer; one that fills the buffer exactly is already refused.\<close>

lemma readFull_short: "length (buf @ concat cs) < limit \<Longrightarrow> readFull limit buf cs None = Inr (buf @ concat cs)"
  by (induction cs arbitrary: buf) (auto simp: Let_def)

lemma readFull_long:
  assumes "limit \<le> length (buf @ concat cs)" "length buf < limit"
  shows "readFull limit buf cs None = Inl (too_large limit limit)"
  using assms
proof (induction cs arbitrary: buf)
  case (Cons c cs)
  show ?case
  proof (cases "limit \<le> length (buf @ c)")
    case True
    then show ?thesis using Cons.prems(2) by (simp add: Let_def)
  next
    case False
    then have "readFull limit buf (c # cs) None = readFull limit (buf @ c) cs None"
      by (simp add: Let_def)
    then show ?thesis using Cons.IH [of "buf @ c"] False Cons.prems by simp
  qed
qed simp

lemma too_large_is_limit: "classifyReadErr (Some (too_large n limit)) = DR_Limit"
  by (simp add: classifyReadErr_def too_large_def HasPrefix_def)

section \<open>Sessions\<close>

record MsgSend =
  ms_ID :: u32
  ms_Data :: bytes

text \<open>
  \<open>ss_closed\<close> says that \<^verbatim>\<open>closeOnce\<close> has run, which also cancelled the context; \<open>ss_reading\<close> and \<open>ss_sending\<close> that the two
  loops have not returned; \<open>ss_wire\<close> is what was written to the client, close frames included.
\<close>

datatype wire = Binary bytes | CloseFrame

record session =
  ss_Id :: u64
  ss_GameID :: int
  ss_out :: "MsgSend swap_queue"
  ss_reason :: DisconnectReason
  ss_closed :: bool
  ss_loopCount :: int
  ss_reading :: bool
  ss_sending :: bool
  ss_wire :: "wire list"
  ss_connClosed :: bool

type_synonym addr = nat

text \<open>The message \<^verbatim>\<open>S2SGt2SDisconnect\<close> with the game server it goes to.\<close>

record gt_disconnect =
  gd_game :: u8
  gd_SesID :: u64
  gd_Why :: DisconnectReason

record gateway =
  gw_shards :: "(u64, addr) shards"
  gw_ses :: "addr \<rightharpoonup> session"
  gw_wait :: int \<comment> \<open>the counter of \<^verbatim>\<open>waitGroup\<close>\<close>
  gw_disconnects :: "gt_disconnect list" \<comment> \<open>the calls of \<^verbatim>\<open>gnet.SendToGame\<close> in \<^verbatim>\<open>onLoopExit\<close>\<close>
  gw_bus :: "packets databus"

definition shardCount :: nat where "shardCount = 64"

definition getRoleShard :: "u64 \<Rightarrow> nat" where
  "getRoleShard sesID = mask_ix (of_nat shardCount - 1) sesID"

lemma getRoleShard_bound: "getRoleShard k < shardCount"
  using mask_ix_bound [of "of_nat shardCount - 1" k] by (simp add: getRoleShard_def shardCount_def)

interpretation gs: sharding getRoleShard shardCount
  by unfold_locales (rule getRoleShard_bound)

definition table_Add :: "u64 \<Rightarrow> addr \<Rightarrow> gateway \<Rightarrow> gateway" where
  "table_Add sesID a g = g\<lparr>gw_shards := shards_put getRoleShard (gw_shards g) sesID a\<rparr>"

definition table_Remove :: "u64 \<Rightarrow> gateway \<Rightarrow> gateway" where
  "table_Remove sesID g = g\<lparr>gw_shards := shards_del getRoleShard (gw_shards g) sesID\<rparr>"

definition table_Count :: "gateway \<Rightarrow> nat" where
  "table_Count g = shards_count (gw_shards g)"

definition table_Get :: "u64 \<Rightarrow> gateway \<Rightarrow> addr option" where
  "table_Get sesID g = shards_get getRoleShard (gw_shards g) sesID"

definition upd_ses :: "addr \<Rightarrow> (session \<Rightarrow> session) \<Rightarrow> gateway \<Rightarrow> gateway" where
  "upd_ses a f g = g\<lparr>gw_ses := (gw_ses g)(a := map_option f (gw_ses g a))\<rparr>"

definition Session_Close :: "DisconnectReason \<Rightarrow> session \<Rightarrow> session" where
  "Session_Close why s = (if ss_closed s then s else s\<lparr>ss_reason := why, ss_closed := True\<rparr>)"

definition getSerID :: "int \<Rightarrow> session \<Rightarrow> u8" where
  "getSerID serType s = word_of_int (ss_GameID s)"

definition UpdateSerId :: "int \<Rightarrow> session \<Rightarrow> session" where
  "UpdateSerId gameID s = s\<lparr>ss_GameID := gameID\<rparr>"

definition onLoopExit :: "addr \<Rightarrow> gateway \<Rightarrow> gateway" where
  "onLoopExit a g = (case gw_ses g a of
     None \<Rightarrow> g
   | Some s \<Rightarrow>
       let g1 = upd_ses a (\<lambda>s. s\<lparr>ss_loopCount := ss_loopCount s - 1\<rparr>) (g\<lparr>gw_wait := gw_wait g - 1\<rparr>) in
       if ss_loopCount s - 1 = 0
       then (let g2 = table_Remove (ss_Id s) g1 in
             upd_ses a (\<lambda>s. s\<lparr>ss_connClosed := True\<rparr>)
               (g2\<lparr>gw_disconnects := gw_disconnects g2 @ [\<lparr>gd_game = getSerID Server_Game s, gd_SesID = ss_Id s, gd_Why = ss_reason s\<rparr>]\<rparr>))
       else g1)"

text \<open>\<open>sesID\<close> is the number \<^verbatim>\<open>idgen.Gen\<close> returns; the two loops run as goroutines.\<close>

definition OutChanSize :: nat where "OutChanSize = 16"

definition start :: "(nat \<Rightarrow> nat) \<Rightarrow> u64 \<Rightarrow> addr \<Rightarrow> gateway \<Rightarrow> gateway" where
  "start grow sesID a g =
     (let s = \<lparr>ss_Id = sesID, ss_GameID = 0, ss_out = NewSwapQueue grow OutChanSize (OutChanSize * 100), ss_reason = DR_Normal,
               ss_closed = False, ss_loopCount = 2, ss_reading = True, ss_sending = True, ss_wire = [], ss_connClosed = False\<rparr>;
          g1 = table_Add sesID a (g\<lparr>gw_ses := (gw_ses g)(a \<mapsto> s)\<rparr>)
      in g1\<lparr>gw_wait := gw_wait g1 + 2\<rparr>)"

subsection \<open>From the client\<close>

text \<open>
  \<^verbatim>\<open>forwardToSrv\<close>: a packet without a message number closes the session, a number reserved for the servers is dropped, and
  everything else goes to the node the session is assigned to, on the server type the number names.  An error of the bus is
  logged.  \<open>None\<close> is a panic of the bus.
\<close>

definition forwardToSrv :: "nat option \<times> nat option \<Rightarrow> addr \<Rightarrow> bytes \<Rightarrow> gateway \<Rightarrow> gateway option" where
  "forwardToSrv picks a src g = (case gw_ses g a of
     None \<Rightarrow> Some g
   | Some s \<Rightarrow> (case decode src of
       None \<Rightarrow> Some (upd_ses a (Session_Close DR_DecodeErr) g)
     | Some (msgID, data) \<Rightarrow>
         if msgID \<le> S2SMax then Some g
         else let serType = int (unat (msgID div 100000)); serID = getSerID serType s in
           (case SendToNode log_publish picks serType serID msgID data 0 (ss_Id s) (gw_bus g) of
              None \<Rightarrow> None
            | Some (bs, _) \<Rightarrow> Some (g\<lparr>gw_bus := bs\<rparr>))))"

text \<open>One turn of \<^verbatim>\<open>readLoop\<close>: \<^verbatim>\<open>NextReader\<close> fails, or it returns a reader of a binary or of another message.\<close>

datatype next_reader = ReadFails read_err | OtherMessage | BinaryMessage "bytes list" "read_err option"

definition leave_read :: "addr \<Rightarrow> gateway \<Rightarrow> gateway" where
  "leave_read a g = onLoopExit a (upd_ses a (\<lambda>s. s\<lparr>ss_reading := False\<rparr>) g)"

definition is_closed :: "addr \<Rightarrow> gateway \<Rightarrow> bool" where
  "is_closed a g = (case gw_ses g a of None \<Rightarrow> False | Some s \<Rightarrow> ss_closed s)"

definition readLoop :: "nat option \<times> nat option \<Rightarrow> addr \<Rightarrow> next_reader \<Rightarrow> gateway \<Rightarrow> gateway option" where
  "readLoop picks a nr g = (case nr of
     ReadFails err \<Rightarrow> Some (leave_read a (upd_ses a (Session_Close (classifyReadErr (Some err))) g))
   | OtherMessage \<Rightarrow> Some g
   | BinaryMessage chunks final \<Rightarrow> (case readFull maxRecvMsgSize [] chunks final of
       Inl err \<Rightarrow> Some (leave_read a (upd_ses a (Session_Close (classifyReadErr (Some err))) g))
     | Inr buf \<Rightarrow> (case forwardToSrv picks a buf g of
         None \<Rightarrow> None
       | Some g' \<Rightarrow> Some (if is_closed a g' then leave_read a (upd_ses a (Session_Close DR_Normal) g') else g'))))"

subsection \<open>To the client\<close>

definition SendBytes :: "u32 \<Rightarrow> bytes \<Rightarrow> session \<Rightarrow> session" where
  "SendBytes msgID data s = s\<lparr>ss_out := fst (Push (ss_out s) \<lparr>ms_ID = msgID, ms_Data = data\<rparr>)\<rparr>"

text \<open>
  \<open>msg\<close> is the interface value to send, nil or a pointer with its type; \<open>marshal\<close> is the generated encoder, which also takes
  the nil pointer.
\<close>

definition SendPB :: "('m \<Rightarrow> bytes option) \<Rightarrow> u32 \<Rightarrow> 'm option \<Rightarrow> session \<Rightarrow> session \<times> bool" where
  "SendPB marshal msgID msg s = (case msg of
     None \<Rightarrow> (s, False)
   | Some m \<Rightarrow> (case marshal m of None \<Rightarrow> (s, False) | Some b \<Rightarrow> (SendBytes msgID b s, True)))"

definition Session_Send :: "('m \<Rightarrow> bytes option) \<Rightarrow> msg_type \<Rightarrow> 'm option \<Rightarrow> session \<Rightarrow> session \<times> bool" where
  "Session_Send marshal ty msg s = (case GetMsgIDS2C ty of None \<Rightarrow> (s, False) | Some msgID \<Rightarrow> SendPB marshal msgID msg s)"

text \<open>
  \<^verbatim>\<open>drainAndWrite\<close>: \<open>oks\<close> says for every message in turn whether writing it succeeds; after the first error the rest of the
  queue is dropped.
\<close>

definition packet :: "MsgSend \<Rightarrow> bytes" where
  "packet v = put_be32 (ms_ID v) @ ms_Data v"

definition write_one :: "MsgSend \<Rightarrow> MsgSend swap_queue \<times> bool list \<times> wire list \<times> bool \<Rightarrow> MsgSend swap_queue \<times> bool list \<times> wire list \<times> bool" where
  "write_one v st = (case st of (q, oks, sent, failed) \<Rightarrow>
     if failed then st
     else (case oks of
       [] \<Rightarrow> (q, [], sent, True)
     | ok # oks' \<Rightarrow> if ok then (q, oks', sent @ [Binary (packet v)], False) else (q, oks', sent, True)))"

definition drainAndWrite :: "bool list \<Rightarrow> session \<Rightarrow> session \<times> bool" where
  "drainAndWrite oks s = (case Range write_one (ss_out s, oks, ss_wire s, False) of (q, _, sent, failed) \<Rightarrow>
     (s\<lparr>ss_out := q, ss_wire := sent\<rparr>, failed))"

definition writeCloseFrame :: "session \<Rightarrow> session" where
  "writeCloseFrame s = s\<lparr>ss_wire := ss_wire s @ [CloseFrame]\<rparr>"

definition leave_send :: "addr \<Rightarrow> gateway \<Rightarrow> gateway" where
  "leave_send a g = onLoopExit a (upd_ses a (\<lambda>s. s\<lparr>ss_sending := False\<rparr>) g)"

text \<open>One turn of \<^verbatim>\<open>sendLoop\<close>, taking the signal or the cancelled context, whichever the runtime picks.\<close>

definition sendLoop_sig :: "bool list \<Rightarrow> addr \<Rightarrow> gateway \<Rightarrow> gateway" where
  "sendLoop_sig oks a g = (case gw_ses g a of
     None \<Rightarrow> g
   | Some s \<Rightarrow> (case recv_Sig (ss_out s) of
       None \<Rightarrow> g
     | Some q \<Rightarrow> (case drainAndWrite oks (s\<lparr>ss_out := q\<rparr>) of (s', failed) \<Rightarrow>
         let g' = g\<lparr>gw_ses := (gw_ses g)(a \<mapsto> s')\<rparr> in
         if failed then leave_send a (upd_ses a (Session_Close DR_NetErr) g') else g')))"

definition sendLoop_done :: "bool list \<Rightarrow> addr \<Rightarrow> gateway \<Rightarrow> gateway" where
  "sendLoop_done oks a g = (case gw_ses g a of
     None \<Rightarrow> g
   | Some s \<Rightarrow> if ss_closed s
       then leave_send a (g\<lparr>gw_ses := (gw_ses g)(a \<mapsto> writeCloseFrame (fst (drainAndWrite oks s)))\<rparr>)
       else g)"

subsection \<open>From the servers\<close>

text \<open>A decoded request of another server, as the router hands it to the two handlers of the gateway; the answer of a login
  is a pointer of its type, so that the interface made of it is never nil.\<close>

datatype 'm gw_req = S2SResLogin (rl_GameID: int) (rl_Res: 'm) | S2SS2GtDisconnect DisconnectReason

definition onLoginSuccess :: "('m \<Rightarrow> bytes option) \<Rightarrow> u64 \<Rightarrow> int \<Rightarrow> 'm \<Rightarrow> gateway \<Rightarrow> gateway" where
  "onLoginSuccess marshal sesID gameID res g = (case table_Get sesID g of
     None \<Rightarrow> g
   | Some a \<Rightarrow> upd_ses a (\<lambda>s. fst (Session_Send marshal S2CLogin (Some res) (UpdateSerId gameID s))) g)"

definition onDisconnect :: "u64 \<Rightarrow> DisconnectReason \<Rightarrow> gateway \<Rightarrow> gateway" where
  "onDisconnect sesID why g = (case table_Get sesID g of None \<Rightarrow> g | Some a \<Rightarrow> upd_ses a (Session_Close why) g)"

definition OnServerMsg :: "('m \<Rightarrow> bytes option) \<Rightarrow> (u32 \<Rightarrow> bytes \<Rightarrow> 'm gw_req option) \<Rightarrow> 'u message \<Rightarrow> gateway \<Rightarrow> gateway" where
  "OnServerMsg marshal decode_req c g = (let h = Head c in
     if Flag h = Forward then
       (case table_Get (SesID h) g of
          None \<Rightarrow> g
        | Some a \<Rightarrow> upd_ses a (SendBytes (MsgID h) (message.Data c)) g)
     else (case decode_req (MsgID h) (message.Data c) of
       None \<Rightarrow> g
     | Some (S2SResLogin gameID res) \<Rightarrow> onLoginSuccess marshal (SesID h) gameID res g
     | Some (S2SS2GtDisconnect why) \<Rightarrow> onDisconnect (SesID h) why g))"

text \<open>\<^verbatim>\<open>GracefulStop\<close> closes the sessions of every shard; \<open>order i\<close> is the order in which shard \<open>i\<close> is ranged over.\<close>

definition close_shard :: "u64 list \<Rightarrow> gateway \<Rightarrow> gateway" where
  "close_shard keys g = fold (\<lambda>k g. case table_Get k g of None \<Rightarrow> g | Some a \<Rightarrow> upd_ses a (Session_Close DR_ShutDown) g) keys g"

definition GracefulStop :: "(nat \<Rightarrow> u64 list) \<Rightarrow> gateway \<Rightarrow> gateway" where
  "GracefulStop order g = fold (\<lambda>i. close_shard (order i)) [0..<shardCount] g"

section \<open>The life of a session\<close>

text \<open>
  The interleavings of the goroutines: a client connects, a loop of a session makes a turn, a message of a server arrives,
  or the gateway is stopped.  A new session has an object of its own, and \<^verbatim>\<open>idgen.Gen\<close> gives it a number no session had.
\<close>

datatype gw_step =
    Connect u64 addr
  | ReadTurn addr "nat option \<times> nat option" next_reader
  | SendTurn addr "bool list"
  | SendDoneTurn addr "bool list"
  | ServerMsg "unit message"
  | StopAll "nat \<Rightarrow> u64 list"

record 'm gw_env =
  ge_grow :: "nat \<Rightarrow> nat"
  ge_marshal :: "'m \<Rightarrow> bytes option"
  ge_decode :: "u32 \<Rightarrow> bytes \<Rightarrow> 'm gw_req option"

definition gw_ids :: "gateway \<Rightarrow> u64 set" where
  "gw_ids g = {ss_Id s | a s. gw_ses g a = Some s}"

definition ses_is :: "(session \<Rightarrow> bool) \<Rightarrow> addr \<Rightarrow> gateway \<Rightarrow> bool" where
  "ses_is P a g = (case gw_ses g a of None \<Rightarrow> False | Some s \<Rightarrow> P s)"

fun gw_do :: "'m gw_env \<Rightarrow> gw_step \<Rightarrow> gateway \<Rightarrow> gateway option" where
  "gw_do E (Connect sesID a) g = Some (if sesID \<notin> gw_ids g \<and> gw_ses g a = None then start (ge_grow E) sesID a g else g)"
| "gw_do E (ReadTurn a picks nr) g = (if ses_is ss_reading a g then readLoop picks a nr g else Some g)"
| "gw_do E (SendTurn a oks) g = Some (if ses_is ss_sending a g then sendLoop_sig oks a g else g)"
| "gw_do E (SendDoneTurn a oks) g = Some (if ses_is ss_sending a g then sendLoop_done oks a g else g)"
| "gw_do E (ServerMsg m) g = Some (OnServerMsg (ge_marshal E) (ge_decode E) m g)"
| "gw_do E (StopAll order) g = Some (GracefulStop order g)"

fun gw_run :: "'m gw_env \<Rightarrow> gw_step list \<Rightarrow> gateway \<Rightarrow> gateway option" where
  "gw_run E [] g = Some g"
| "gw_run E (st # sts) g = Option.bind (gw_do E st g) (gw_run E sts)"

definition new_gateway :: "packets databus \<Rightarrow> gateway" where
  "new_gateway bs = \<lparr>gw_shards = shards_new shardCount, gw_ses = Map.empty, gw_wait = 0, gw_disconnects = [], gw_bus = bs\<rparr>"

definition live :: "session \<Rightarrow> bool" where
  "live s \<longleftrightarrow> ss_reading s \<or> ss_sending s"

definition loops :: "session \<Rightarrow> int" where
  "loops s = of_bool (ss_reading s) + of_bool (ss_sending s)"

definition report :: "session \<Rightarrow> gt_disconnect" where
  "report s = \<lparr>gd_game = getSerID Server_Game s, gd_SesID = ss_Id s, gd_Why = ss_reason s\<rparr>"

definition reports :: "u64 \<Rightarrow> gateway \<Rightarrow> gt_disconnect list" where
  "reports k g = filter (\<lambda>d. gd_SesID d = k) (gw_disconnects g)"

definition ses_ok :: "gateway \<Rightarrow> addr \<Rightarrow> session \<Rightarrow> bool" where
  "ses_ok g a s \<longleftrightarrow> ss_loopCount s = loops s \<and> (loops s < 2 \<longrightarrow> ss_closed s)
     \<and> reports (ss_Id s) g = (if live s then [] else [report s])
     \<and> table_Get (ss_Id s) g = (if live s then Some a else None)"

definition gw_inv :: "gateway \<Rightarrow> bool" where
  "gw_inv g \<longleftrightarrow> finite (dom (gw_ses g)) \<and> shards_ok getRoleShard shardCount (gw_shards g)
     \<and> (\<forall>a b s t. gw_ses g a = Some s \<longrightarrow> gw_ses g b = Some t \<longrightarrow> ss_Id s = ss_Id t \<longrightarrow> a = b)
     \<and> (\<forall>a s. gw_ses g a = Some s \<longrightarrow> ses_ok g a s)
     \<and> (\<forall>k. k \<notin> gw_ids g \<longrightarrow> reports k g = [] \<and> table_Get k g = None)
     \<and> gw_wait g = (\<Sum>a \<in> dom (gw_ses g). loops (the (gw_ses g a)))"

lemma gw_invD:
  assumes "gw_inv g"
  shows "finite (dom (gw_ses g))" "shards_ok getRoleShard shardCount (gw_shards g)"
    "gw_ses g a = Some s \<Longrightarrow> gw_ses g b = Some t \<Longrightarrow> ss_Id s = ss_Id t \<Longrightarrow> a = b"
    "gw_ses g a = Some s \<Longrightarrow> ses_ok g a s"
    "k \<notin> gw_ids g \<Longrightarrow> reports k g = []" "k \<notin> gw_ids g \<Longrightarrow> table_Get k g = None"
    "gw_wait g = (\<Sum>a \<in> dom (gw_ses g). loops (the (gw_ses g a)))"
  using assms unfolding gw_inv_def by auto

text \<open>What may happen to a session that exists: it keeps its number, a closed one keeps its reason, a loop does not restart,
  and nothing changes the game server of a session whose loops have ended.\<close>

definition evolves :: "session \<Rightarrow> session \<Rightarrow> bool" where
  "evolves s s' \<longleftrightarrow> ss_Id s' = ss_Id s \<and> (ss_closed s \<longrightarrow> ss_closed s' \<and> ss_reason s' = ss_reason s)
     \<and> (ss_reading s' \<longrightarrow> ss_reading s) \<and> (ss_sending s' \<longrightarrow> ss_sending s)"

definition progresses :: "gateway \<Rightarrow> gateway \<Rightarrow> bool" where
  "progresses g g' \<longleftrightarrow> gw_inv g' \<and> (\<forall>a s. gw_ses g a = Some s \<longrightarrow> (\<exists>s'. gw_ses g' a = Some s' \<and> evolves s s'))"

lemma evolves_refl: "evolves s s"
  by (simp add: evolves_def)

lemma evolves_trans: "evolves s t \<Longrightarrow> evolves t u \<Longrightarrow> evolves s u"
  by (auto simp: evolves_def)

lemma progresses_refl: "gw_inv g \<Longrightarrow> progresses g g"
  using evolves_refl by (auto simp: progresses_def)

lemma progresses_trans: "progresses g h \<Longrightarrow> progresses h k \<Longrightarrow> progresses g k"
  unfolding progresses_def using evolves_trans by meson

text \<open>Updates that leave the loops and the number alone.\<close>

definition gentle :: "session \<Rightarrow> session \<Rightarrow> bool" where
  "gentle s s' \<longleftrightarrow> ss_Id s' = ss_Id s \<and> ss_reading s' = ss_reading s \<and> ss_sending s' = ss_sending s \<and> ss_loopCount s' = ss_loopCount s
     \<and> (ss_closed s \<longrightarrow> ss_closed s' \<and> ss_reason s' = ss_reason s) \<and> (live s \<or> ss_GameID s' = ss_GameID s)"

lemma sum_upd_same:
  fixes f :: "'b \<Rightarrow> int"
  assumes "finite (dom m)" "m a = Some x"
  shows "(\<Sum>b \<in> dom (m(a \<mapsto> y)). f (the ((m(a \<mapsto> y)) b))) = (\<Sum>b \<in> dom m. f (the (m b))) - f x + f y"
proof -
  have "dom (m(a \<mapsto> y)) = insert a (dom m - {a})" using assms(2) by auto
  then have "(\<Sum>b \<in> dom (m(a \<mapsto> y)). f (the ((m(a \<mapsto> y)) b))) = f y + (\<Sum>b \<in> dom m - {a}. f (the ((m(a \<mapsto> y)) b)))"
    using assms(1) by (simp add: sum.insert_remove)
  also have "(\<Sum>b \<in> dom m - {a}. f (the ((m(a \<mapsto> y)) b))) = (\<Sum>b \<in> dom m - {a}. f (the (m b)))"
    by (rule sum.cong) auto
  also have "\<dots> = (\<Sum>b \<in> dom m. f (the (m b))) - f x"
    using assms by (subst sum.remove [of "dom m" a]) (auto simp: domIff)
  finally show ?thesis by linarith
qed

lemma gw_ses_of: "gw_ses (g\<lparr>gw_ses := m\<rparr>) = m"
  by simp

lemma gw_ids_upd: "gw_ses g a = Some s \<Longrightarrow> ss_Id s' = ss_Id s \<Longrightarrow> gw_ids (g\<lparr>gw_ses := (gw_ses g)(a \<mapsto> s')\<rparr>) = gw_ids g"
proof (rule set_eqI)
  fix k assume s: "gw_ses g a = Some s" and i: "ss_Id s' = ss_Id s"
  have "(\<exists>b t. k = ss_Id t \<and> ((gw_ses g)(a \<mapsto> s')) b = Some t) \<longleftrightarrow> (\<exists>b t. k = ss_Id t \<and> gw_ses g b = Some t)"
    using s i by (metis fun_upd_apply option.inject)
  then show "k \<in> gw_ids (g\<lparr>gw_ses := (gw_ses g)(a \<mapsto> s')\<rparr>) \<longleftrightarrow> k \<in> gw_ids g"
    unfolding gw_ids_def mem_Collect_eq by (simp only: gw_ses_of)
qed

lemma gentle_progress:
  assumes inv: "gw_inv g" and s: "gw_ses g a = Some s" and e: "gentle s s'"
  shows "progresses g (g\<lparr>gw_ses := (gw_ses g)(a \<mapsto> s')\<rparr>)"
proof -
  let ?g = "g\<lparr>gw_ses := (gw_ses g)(a \<mapsto> s')\<rparr>"
  have id: "ss_Id s' = ss_Id s" and lv: "live s' = live s" "loops s' = loops s" using e by (simp_all add: gentle_def live_def loops_def)
  have rep: "report s' = report s" if "\<not> live s"
  proof -
    have "loops s < 2" using that by (simp add: live_def loops_def)
    then have "ss_closed s" using gw_invD(4) [OF inv s] by (simp add: ses_ok_def)
    then show ?thesis using e that by (simp add: gentle_def report_def getSerID_def)
  qed
  have "ses_ok ?g a s'"
    using gw_invD(4) [OF inv s] e rep lv by (auto simp: ses_ok_def gentle_def reports_def table_Get_def)
  moreover have "ses_ok ?g b t" if "gw_ses g b = Some t" for b t
    using gw_invD(4) [OF inv that] by (simp add: ses_ok_def reports_def table_Get_def)
  moreover have "gw_ids ?g = gw_ids g" by (rule gw_ids_upd [OF s id])
  moreover have "gw_wait ?g = (\<Sum>b \<in> dom (gw_ses ?g). loops (the (gw_ses ?g b)))"
    using sum_upd_same [OF gw_invD(1) [OF inv] s, of loops s'] lv gw_invD(7) [OF inv] by simp
  ultimately have "gw_inv ?g"
    using inv s id unfolding gw_inv_def
    by (auto simp: reports_def table_Get_def split: if_splits)
  moreover have "evolves s s'" using e by (auto simp: evolves_def gentle_def)
  ultimately show ?thesis using evolves_refl s by (auto simp: progresses_def)
qed

lemma upd_ses_some: "gw_ses g a = Some s \<Longrightarrow> upd_ses a f g = g\<lparr>gw_ses := (gw_ses g)(a \<mapsto> f s)\<rparr>"
  by (simp add: upd_ses_def)

lemma upd_ses_none: "gw_ses g a = None \<Longrightarrow> upd_ses a f g = g"
  by (simp add: upd_ses_def fun_upd_idem)

lemma gentle_upd:
  assumes "gw_inv g" "\<And>s. gw_ses g a = Some s \<Longrightarrow> gentle s (f s)"
  shows "progresses g (upd_ses a f g)"
  using assms gentle_progress [OF assms(1)] progresses_refl
  by (cases "gw_ses g a") (auto simp: upd_ses_some upd_ses_none)

lemma gentle_Close: "gentle s (Session_Close why s)"
  by (simp add: gentle_def Session_Close_def)

lemma close_progress: "gw_inv g \<Longrightarrow> progresses g (upd_ses a (Session_Close why) g)"
  by (simp add: gentle_upd gentle_Close)

lemma gentle_SendBytes: "gentle s (SendBytes i d s)"
  by (simp add: gentle_def SendBytes_def)

lemma gentle_drain: "gentle s (fst (drainAndWrite oks s))"
  by (auto simp: gentle_def drainAndWrite_def split: prod.split)

lemma gentle_trans: "gentle s t \<Longrightarrow> gentle t u \<Longrightarrow> gentle s u"
  by (auto simp: gentle_def live_def)

text \<open>A loop of a closed session returns.\<close>

lemma loop_exit_progress:
  assumes inv: "gw_inv g" and s: "gw_ses g a = Some s" and cl: "ss_closed s"
    and s': "s' = s\<lparr>ss_reading := False\<rparr> \<and> ss_reading s \<or> s' = s\<lparr>ss_sending := False\<rparr> \<and> ss_sending s"
  shows "progresses g (onLoopExit a (g\<lparr>gw_ses := (gw_ses g)(a \<mapsto> s')\<rparr>))"
proof -
  let ?t = "s'\<lparr>ss_loopCount := ss_loopCount s' - 1\<rparr>"
  have lp: "loops s' = loops s - 1" using s' by (auto simp: loops_def)
  have cnt: "ss_loopCount s' = loops s" using s' gw_invD(4) [OF inv s] by (auto simp: ses_ok_def)
  have lv: "live s" using s' by (auto simp: live_def)
  have old: "reports (ss_Id s) g = []" "table_Get (ss_Id s) g = Some a" using gw_invD(4) [OF inv s] lv by (auto simp: ses_ok_def)
  have same: "ss_Id s' = ss_Id s" "ss_closed s'" "ss_reason s' = ss_reason s" "ss_GameID s' = ss_GameID s" using s' cl by auto
  have other: "ss_Id t \<noteq> ss_Id s" if "gw_ses g b = Some t" "b \<noteq> a" for b t
    using gw_invD(3) [OF inv that(1) s] that(2) by auto
  have ev: "evolves s u" if "ss_Id u = ss_Id s'" "ss_closed u = ss_closed s'" "ss_reason u = ss_reason s'"
      "ss_reading u = ss_reading s'" "ss_sending u = ss_sending s'" for u
    using that s' cl by (auto simp: evolves_def)
  have fin: "finite (dom (gw_ses g))" by (rule gw_invD(1) [OF inv])
  show ?thesis
  proof (cases "loops s' = 0")
    case False
    let ?g = "g\<lparr>gw_ses := (gw_ses g)(a \<mapsto> ?t), gw_wait := gw_wait g - 1\<rparr>"
    have eq: "onLoopExit a (g\<lparr>gw_ses := (gw_ses g)(a \<mapsto> s')\<rparr>) = ?g"
      using False cnt lp by (simp add: onLoopExit_def Let_def upd_ses_def)
    have lt: "live ?t" "loops ?t = loops s'" using False by (auto simp: live_def loops_def)
    have ids: "gw_ids ?g = gw_ids g" using gw_ids_upd [OF s, of ?t] same by (simp add: gw_ids_def)
    have "ses_ok ?g a ?t"
      using lt cnt lp same old by (simp add: ses_ok_def reports_def table_Get_def)
    moreover have "ses_ok ?g b t" if "gw_ses g b = Some t" for b t
      using gw_invD(4) [OF inv that] by (simp add: ses_ok_def reports_def table_Get_def)
    moreover have "gw_wait ?g = (\<Sum>b \<in> dom (gw_ses ?g). loops (the (gw_ses ?g b)))"
      using sum_upd_same [OF fin s, of loops ?t] lt lp gw_invD(7) [OF inv] by simp
    ultimately have "gw_inv ?g"
      using inv s same ids unfolding gw_inv_def by (auto simp: reports_def table_Get_def split: if_splits)
    then show ?thesis using ev [of ?t] evolves_refl s unfolding eq by (auto simp: progresses_def)
  next
    case True
    let ?u = "?t\<lparr>ss_connClosed := True\<rparr>"
    let ?g = "g\<lparr>gw_shards := shards_del getRoleShard (gw_shards g) (ss_Id s), gw_ses := (gw_ses g)(a \<mapsto> ?u), gw_wait := gw_wait g - 1,
       gw_disconnects := gw_disconnects g @ [report s']\<rparr>"
    have eq: "onLoopExit a (g\<lparr>gw_ses := (gw_ses g)(a \<mapsto> s')\<rparr>) = ?g"
      using True cnt lp same by (simp add: onLoopExit_def Let_def upd_ses_def table_Remove_def report_def)
    have nlv: "\<not> live ?u" "loops ?u = 0" "report ?u = report s'"
      using True by (auto simp: live_def loops_def report_def getSerID_def of_bool_def split: if_splits)
    have ok: "shards_ok getRoleShard shardCount (gw_shards g)" by (rule gw_invD(2) [OF inv])
    have get: "table_Get k ?g = (if k = ss_Id s then None else table_Get k g)" for k
      using gs.get_del [OF ok] by (simp add: table_Get_def)
    have rp: "reports k ?g = (if k = ss_Id s then reports k g @ [report s'] else reports k g)" for k
      using same by (simp add: reports_def report_def)
    have ids: "gw_ids ?g = gw_ids g" using gw_ids_upd [OF s, of ?u] same by (simp add: gw_ids_def)
    have "ses_ok ?g a ?u"
      using nlv cnt lp same old True get [of "ss_Id s"] rp [of "ss_Id s"] by (simp add: ses_ok_def)
    moreover have "ses_ok ?g b t" if "gw_ses g b = Some t" "b \<noteq> a" for b t
      using gw_invD(4) [OF inv that(1)] other [OF that] get [of "ss_Id t"] rp [of "ss_Id t"] by (simp add: ses_ok_def)
    moreover have "gw_wait ?g = (\<Sum>b \<in> dom (gw_ses ?g). loops (the (gw_ses ?g b)))"
      using sum_upd_same [OF fin s, of loops ?u] nlv True lp gw_invD(7) [OF inv] by simp
    moreover have "reports k ?g = [] \<and> table_Get k ?g = None" if "k \<notin> gw_ids g" for k
      using gw_invD(5,6) [OF inv that] that s get [of k] rp [of k] by (auto simp: gw_ids_def)
    ultimately have "gw_inv ?g"
      using inv s same ids gs.ok_del [OF ok] unfolding gw_inv_def by (auto split: if_splits)
    then show ?thesis using ev [of ?u] evolves_refl s unfolding eq by (auto simp: progresses_def)
  qed
qed

lemma leave_read_progress:
  assumes "gw_inv g" "ses_is (\<lambda>s. ss_reading s \<and> ss_closed s) a g"
  shows "progresses g (leave_read a g)"
proof -
  obtain s where s: "gw_ses g a = Some s" "ss_reading s" "ss_closed s" using assms(2) by (auto simp: ses_is_def split: option.splits)
  then show ?thesis using loop_exit_progress [OF assms(1) s(1,3)] by (simp add: leave_read_def upd_ses_some)
qed

lemma leave_send_progress:
  assumes "gw_inv g" "ses_is (\<lambda>s. ss_sending s \<and> ss_closed s) a g"
  shows "progresses g (leave_send a g)"
proof -
  obtain s where s: "gw_ses g a = Some s" "ss_sending s" "ss_closed s" using assms(2) by (auto simp: ses_is_def split: option.splits)
  then show ?thesis using loop_exit_progress [OF assms(1) s(1,3)] by (simp add: leave_send_def upd_ses_some)
qed

lemma close_then_leave_read:
  assumes "gw_inv g" "ses_is ss_reading a g"
  shows "progresses g (leave_read a (upd_ses a (Session_Close why) g))"
proof (rule progresses_trans [OF close_progress [OF assms(1)]], rule leave_read_progress)
  show "gw_inv (upd_ses a (Session_Close why) g)" using close_progress [OF assms(1)] by (simp add: progresses_def)
  show "ses_is (\<lambda>s. ss_reading s \<and> ss_closed s) a (upd_ses a (Session_Close why) g)"
    using assms(2) by (auto simp: ses_is_def upd_ses_def Session_Close_def split: option.splits)
qed

lemma close_then_leave_send:
  assumes "gw_inv g" "ses_is ss_sending a g"
  shows "progresses g (leave_send a (upd_ses a (Session_Close why) g))"
proof (rule progresses_trans [OF close_progress [OF assms(1)]], rule leave_send_progress)
  show "gw_inv (upd_ses a (Session_Close why) g)" using close_progress [OF assms(1)] by (simp add: progresses_def)
  show "ses_is (\<lambda>s. ss_sending s \<and> ss_closed s) a (upd_ses a (Session_Close why) g)"
    using assms(2) by (auto simp: ses_is_def upd_ses_def Session_Close_def split: option.splits)
qed

lemma bus_progress: "gw_inv g \<Longrightarrow> progresses g (g\<lparr>gw_bus := bs\<rparr>)"
  using evolves_refl
  by (auto simp: progresses_def gw_inv_def ses_ok_def reports_def table_Get_def gw_ids_def)

lemma forwardToSrv_progress:
  assumes "gw_inv g" "forwardToSrv picks a src g = Some g'"
  shows "progresses g g' \<and> (ses_is ss_reading a g \<longrightarrow> ses_is ss_reading a g')"
proof (cases "gw_ses g a")
  case None
  then show ?thesis using assms progresses_refl by (simp add: forwardToSrv_def)
next
  case (Some s)
  show ?thesis
  proof (cases "decode src")
    case None
    then have "g' = upd_ses a (Session_Close DR_DecodeErr) g" using assms(2) Some by (simp add: forwardToSrv_def)
    moreover have "ses_is ss_reading a g'" if "ses_is ss_reading a g" using that Some calculation by (simp add: ses_is_def upd_ses_def Session_Close_def)
    ultimately show ?thesis using close_progress [OF assms(1)] by blast
  next
    case dec: (Some p)
    then show ?thesis
      using assms Some progresses_refl bus_progress
      by (cases p) (auto simp: forwardToSrv_def Let_def ses_is_def split: if_splits option.splits prod.splits)
  qed
qed

lemma readLoop_progress:
  assumes inv: "gw_inv g" and r: "ses_is ss_reading a g" and step: "readLoop picks a nr g = Some g'"
  shows "progresses g g'"
proof (cases nr)
  case (ReadFails err)
  then show ?thesis using step close_then_leave_read [OF inv r] by (auto simp: readLoop_def)
next
  case OtherMessage
  then show ?thesis using step progresses_refl [OF inv] by (simp add: readLoop_def)
next
  case (BinaryMessage chunks final)
  show ?thesis
  proof (cases "readFull maxRecvMsgSize [] chunks final")
    case (Inl err)
    then show ?thesis using step close_then_leave_read [OF inv r] BinaryMessage by (auto simp: readLoop_def)
  next
    case (Inr buf)
    obtain g1 where g1: "forwardToSrv picks a buf g = Some g1"
        "g' = (if is_closed a g1 then leave_read a (upd_ses a (Session_Close DR_Normal) g1) else g1)"
      using step BinaryMessage Inr by (auto simp: readLoop_def split: option.splits)
    have p: "progresses g g1" "ses_is ss_reading a g1" using forwardToSrv_progress [OF inv g1(1)] r by auto
    then have "progresses g1 g'" using g1(2) close_then_leave_read [of g1 a] progresses_refl by (auto simp: progresses_def)
    then show ?thesis using p(1) progresses_trans by blast
  qed
qed

lemma gentle_sig: "recv_Sig (ss_out s) = Some q \<Longrightarrow> gentle s (fst (drainAndWrite oks (s\<lparr>ss_out := q\<rparr>)))"
  by (rule gentle_trans [OF _ gentle_drain]) (simp add: gentle_def)

lemma sendLoop_sig_progress:
  assumes inv: "gw_inv g" and r: "ses_is ss_sending a g"
  shows "progresses g (sendLoop_sig oks a g)"
proof -
  obtain s where s: "gw_ses g a = Some s" "ss_sending s" using r by (auto simp: ses_is_def split: option.splits)
  show ?thesis
  proof (cases "recv_Sig (ss_out s)")
    case None
    then show ?thesis using s progresses_refl [OF inv] by (simp add: sendLoop_sig_def)
  next
    case (Some q)
    obtain s' failed where d: "drainAndWrite oks (s\<lparr>ss_out := q\<rparr>) = (s', failed)" by fastforce
    have ge: "gentle s s'" using gentle_sig [OF Some, of oks] d by simp
    let ?g = "g\<lparr>gw_ses := (gw_ses g)(a \<mapsto> s')\<rparr>"
    have p: "progresses g ?g" by (rule gentle_progress [OF inv s(1) ge])
    have "ses_is ss_sending a ?g" using ge s(2) by (simp add: ses_is_def gentle_def)
    then have "progresses ?g (leave_send a (upd_ses a (Session_Close DR_NetErr) ?g))"
      using p close_then_leave_send by (simp add: progresses_def)
    then show ?thesis using p s(1) Some d progresses_trans by (auto simp: sendLoop_sig_def Let_def)
  qed
qed

lemma sendLoop_done_progress:
  assumes inv: "gw_inv g" and r: "ses_is ss_sending a g"
  shows "progresses g (sendLoop_done oks a g)"
proof -
  obtain s where s: "gw_ses g a = Some s" "ss_sending s" using r by (auto simp: ses_is_def split: option.splits)
  show ?thesis
  proof (cases "ss_closed s")
    case False
    then show ?thesis using s progresses_refl [OF inv] by (simp add: sendLoop_done_def)
  next
    case True
    let ?s = "writeCloseFrame (fst (drainAndWrite oks s))" let ?g = "g\<lparr>gw_ses := (gw_ses g)(a \<mapsto> ?s)\<rparr>"
    have ge: "gentle s ?s" by (rule gentle_trans [OF gentle_drain [of s oks]]) (simp add: gentle_def writeCloseFrame_def)
    have p: "progresses g ?g" by (rule gentle_progress [OF inv s(1) ge])
    have "ses_is (\<lambda>s. ss_sending s \<and> ss_closed s) a ?g" using ge s(2) True by (simp add: ses_is_def gentle_def)
    then have "progresses ?g (leave_send a ?g)" using p leave_send_progress by (simp add: progresses_def)
    then show ?thesis using p s(1) True progresses_trans by (auto simp: sendLoop_done_def)
  qed
qed

lemma table_live:
  assumes "gw_inv g" "table_Get k g = Some a"
  obtains s where "gw_ses g a = Some s" "ss_Id s = k" "live s"
proof -
  have "k \<in> gw_ids g" using gw_invD(6) [OF assms(1), of k] assms(2) by force
  then obtain b s where s: "gw_ses g b = Some s" "ss_Id s = k" by (auto simp: gw_ids_def)
  then have "live s" "b = a" using gw_invD(4) [OF assms(1) s(1)] assms(2) by (auto simp: ses_ok_def split: if_splits)
  then show ?thesis using that s by blast
qed

lemma gentle_login: "live s \<Longrightarrow> gentle s (fst (Session_Send marshal ty res (UpdateSerId gameID s)))"
  by (auto simp: gentle_def Session_Send_def SendPB_def SendBytes_def UpdateSerId_def split: option.split)

lemma OnServerMsg_progress:
  assumes "gw_inv g"
  shows "progresses g (OnServerMsg marshal dec c g)"
proof -
  have login: "progresses g (onLoginSuccess marshal k gameID res g)" for k gameID res
  proof (cases "table_Get k g")
    case (Some a)
    obtain s where s: "gw_ses g a = Some s" "live s" by (rule table_live [OF assms Some])
    have "progresses g (upd_ses a (\<lambda>s. fst (Session_Send marshal S2CLogin (Some res) (UpdateSerId gameID s))) g)"
      by (rule gentle_upd [OF assms]) (use s gentle_login in auto)
    then show ?thesis using Some by (simp add: onLoginSuccess_def)
  qed (simp add: onLoginSuccess_def progresses_refl assms)
  have disc: "progresses g (onDisconnect k why g)" for k why
    using close_progress [OF assms] progresses_refl [OF assms] by (simp add: onDisconnect_def split: option.split)
  show ?thesis
    using login disc gentle_upd [OF assms gentle_SendBytes] progresses_refl [OF assms]
    by (simp add: OnServerMsg_def Let_def split: option.split gw_req.split)
qed

lemma close_shard_progress: "gw_inv g \<Longrightarrow> progresses g (close_shard ks g)"
proof (induction ks arbitrary: g)
  case Nil
  then show ?case by (simp add: close_shard_def progresses_refl)
next
  case (Cons k ks)
  let ?g = "case table_Get k g of None \<Rightarrow> g | Some a \<Rightarrow> upd_ses a (Session_Close DR_ShutDown) g"
  have p: "progresses g ?g" using close_progress [OF Cons.prems] progresses_refl [OF Cons.prems] by (simp split: option.split)
  then have "progresses ?g (close_shard ks ?g)" by (intro Cons.IH) (simp add: progresses_def)
  then show ?case using progresses_trans [OF p] by (simp add: close_shard_def)
qed

lemma GracefulStop_progress: "gw_inv g \<Longrightarrow> progresses g (GracefulStop order g)"
proof -
  have "gw_inv g \<Longrightarrow> progresses g (fold (\<lambda>i. close_shard (order i)) is g)" for "is"
  proof (induction "is" arbitrary: g)
    case (Cons i "is")
    have p: "progresses g (close_shard (order i) g)" by (rule close_shard_progress [OF Cons.prems])
    then show ?case using progresses_trans [OF p] Cons.IH by (simp add: progresses_def)
  qed (simp add: progresses_refl)
  then show "gw_inv g \<Longrightarrow> progresses g (GracefulStop order g)" by (simp add: GracefulStop_def)
qed

lemma start_progress:
  assumes inv: "gw_inv g" and fresh: "sesID \<notin> gw_ids g" "gw_ses g a = None"
  shows "progresses g (start grow sesID a g)" "gw_ids (start grow sesID a g) = insert sesID (gw_ids g)"
    "dom (gw_ses (start grow sesID a g)) = insert a (dom (gw_ses g))"
proof -
  define s where "s = \<lparr>ss_Id = sesID, ss_GameID = 0, ss_out = NewSwapQueue grow OutChanSize (OutChanSize * 100), ss_reason = DR_Normal,
               ss_closed = False, ss_loopCount = 2, ss_reading = True, ss_sending = True, ss_wire = [], ss_connClosed = False\<rparr>"
  let ?g = "start grow sesID a g"
  have eq: "?g = g\<lparr>gw_shards := shards_put getRoleShard (gw_shards g) sesID a, gw_ses := (gw_ses g)(a \<mapsto> s), gw_wait := gw_wait g + 2\<rparr>"
    by (simp add: start_def Let_def s_def table_Add_def)
  have ok: "shards_ok getRoleShard shardCount (gw_shards g)" by (rule gw_invD(2) [OF inv])
  have get: "table_Get k ?g = (if k = sesID then Some a else table_Get k g)" for k
    using gs.get_put [OF ok] by (simp add: table_Get_def eq)
  have rp: "reports k ?g = reports k g" for k by (simp add: reports_def eq)
  have fresh': "ss_Id t \<noteq> sesID" if "gw_ses g b = Some t" for b t using fresh(1) that by (auto simp: gw_ids_def)
  have ids: "gw_ids ?g = insert sesID (gw_ids g)"
  proof (rule set_eqI)
    fix k
    have "(\<exists>b t. k = ss_Id t \<and> ((gw_ses g)(a \<mapsto> s)) b = Some t) \<longleftrightarrow> k = sesID \<or> (\<exists>b t. k = ss_Id t \<and> gw_ses g b = Some t)"
      using fresh(2) by (auto simp: s_def split: if_splits) (metis option.distinct(1))
    then show "k \<in> gw_ids ?g \<longleftrightarrow> k \<in> insert sesID (gw_ids g)" by (simp add: eq gw_ids_def)
  qed
  have "ses_ok ?g a s"
    using get [of sesID] rp [of sesID] gw_invD(5) [OF inv fresh(1)] by (simp add: ses_ok_def s_def loops_def live_def)
  moreover have "ses_ok ?g b t" if "gw_ses g b = Some t" for b t
    using gw_invD(4) [OF inv that] get [of "ss_Id t"] rp fresh' [OF that] by (simp add: ses_ok_def)
  moreover have "gw_wait ?g = (\<Sum>b \<in> dom (gw_ses ?g). loops (the (gw_ses ?g b)))"
  proof -
    have na: "a \<notin> dom (gw_ses g)" using fresh(2) by (simp add: domIff)
    have "(\<Sum>b \<in> dom (gw_ses g). loops (the (((gw_ses g)(a \<mapsto> s)) b))) = (\<Sum>b \<in> dom (gw_ses g). loops (the (gw_ses g b)))"
      using na by (intro sum.cong) auto
    then show ?thesis using gw_invD(1,7) [OF inv] na by (simp add: eq s_def loops_def)
  qed
  moreover have "reports k ?g = [] \<and> table_Get k ?g = None" if "k \<notin> gw_ids ?g" for k
    using that gw_invD(5,6) [OF inv, of k] get [of k] rp [of k] unfolding ids by simp
  moreover have "a1 = b1" if "gw_ses ?g a1 = Some t1" "gw_ses ?g b1 = Some t2" "ss_Id t1 = ss_Id t2" for a1 b1 t1 t2
    using that fresh' gw_invD(3) [OF inv, of a1 t1 b1 t2] by (auto simp: eq s_def split: if_splits) metis+
  moreover have "finite (dom (gw_ses ?g))" "shards_ok getRoleShard shardCount (gw_shards ?g)"
    using gw_invD(1) [OF inv] gs.ok_put [OF ok] by (simp_all add: eq)
  moreover have "gw_ses ?g b = Some t \<Longrightarrow> b = a \<and> t = s \<or> gw_ses g b = Some t" for b t
    by (auto simp: eq split: if_splits)
  ultimately have "gw_inv ?g" unfolding gw_inv_def by blast
  then show "progresses g ?g" using evolves_refl fresh(2) by (auto simp: progresses_def eq)
  show "gw_ids ?g = insert sesID (gw_ids g)" by (rule ids)
  show "dom (gw_ses ?g) = insert a (dom (gw_ses g))" by (simp add: eq)
qed

lemma gw_do_progress:
  assumes inv: "gw_inv g" and step: "gw_do E st g = Some g'"
  shows "progresses g g'"
proof (cases st)
  case (Connect sesID a)
  then show ?thesis using step start_progress(1) [OF inv] progresses_refl [OF inv] by (auto split: if_splits)
next
  case (ReadTurn a picks nr)
  then show ?thesis using step readLoop_progress [OF inv] progresses_refl [OF inv] by (auto split: if_splits)
next
  case (SendTurn a oks)
  then show ?thesis using step sendLoop_sig_progress [OF inv] progresses_refl [OF inv] by auto
next
  case (SendDoneTurn a oks)
  then show ?thesis using step sendLoop_done_progress [OF inv] progresses_refl [OF inv] by auto
next
  case (ServerMsg m)
  then show ?thesis using step OnServerMsg_progress [OF inv] by auto
next
  case (StopAll order)
  then show ?thesis using step GracefulStop_progress [OF inv] by auto
qed

lemma gw_run_progress: "gw_inv g \<Longrightarrow> gw_run E sts g = Some g' \<Longrightarrow> progresses g g'"
proof (induction sts arbitrary: g)
  case Nil
  then show ?case by (simp add: progresses_refl)
next
  case (Cons st sts)
  then obtain g1 where g1: "gw_do E st g = Some g1" "gw_run E sts g1 = Some g'" by (auto simp: bind_eq_Some_conv)
  have p: "progresses g g1" by (rule gw_do_progress [OF Cons.prems(1) g1(1)])
  then have "gw_inv g1" by (simp add: progresses_def)
  from progresses_trans [OF p Cons.IH [OF this g1(2)]] show ?case .
qed

lemma gw_inv_new: "gw_inv (new_gateway bs)"
  by (simp add: gw_inv_def new_gateway_def gw_ids_def reports_def table_Get_def gs.ok_new gs.get_new)


definition demo_env :: "unit gw_env" where
  "demo_env = \<lparr>ge_grow = Suc, ge_marshal = \<lambda>_. None, ge_decode = \<lambda>_ _. None\<rparr>"

definition demo_err :: read_err where
  "demo_err = \<lparr>re_closeCode = None, re_timeout = True, re_syscall = None, re_text = ''i/o timeout''\<rparr>"


section \<open>What a client can send\<close>

text \<open>
  The message of a packet, and the cell of the bus it belongs to: none for a number of the servers or for a server type
  outside the tables.
\<close>

definition client_msg :: "u8 \<Rightarrow> u8 \<Rightarrow> session \<Rightarrow> bytes \<Rightarrow> (slot \<times> unit message) option" where
  "client_msg ty i s src = (case decode src of
     None \<Rightarrow> None
   | Some (msgID, body) \<Rightarrow>
       let t = unat (msgID div 100000); node = getSerID (int t) s in
       if msgID \<le> S2SMax \<or> 64 \<le> t then None
       else Some (SNode t (unat node), \<lparr>Head = \<lparr>ActorID = 0, SesID = ss_Id s, MsgID = msgID, Flag = Normal, FromSer = ty,
         FromSerID = i, ToSer = word_of_nat t, ToSerID = node\<rparr>, Data = body, U = None, reply = []\<rparr>))"

abbreviation client_msgs :: "u8 \<Rightarrow> u8 \<Rightarrow> session \<Rightarrow> slot \<Rightarrow> bytes list \<Rightarrow> unit message list" where
  "client_msgs ty i s \<equiv> slot_msgs (client_msg ty i s)"

text \<open>A packet whose number names a server type that has a name, or none the bus has a table for.\<close>

definition known_type :: "bytes \<Rightarrow> bool" where
  "known_type src = (case decode src of None \<Rightarrow> True | Some (msgID, _) \<Rightarrow>
     let t = unat (msgID div 100000) in 64 \<le> t \<or> Server_name (int t) \<noteq> None)"

definition open_bus :: "gateway \<Rightarrow> (slot \<Rightarrow> unit message list) \<Rightarrow> bool" where
  "open_bus g sent \<longleftrightarrow> bus_inv (gw_bus g) sent \<and> \<not> bs_closed (gw_bus g)"

lemma decode_some: "4 \<le> length src \<Longrightarrow> \<exists>msgID. decode src = Some (msgID, drop 4 src)"
  by (simp add: decode_def get_be32_def)

lemma decode_none: "length src < 4 \<Longrightarrow> decode src = None"
  by (simp add: decode_def)

lemma SendToNode_far:
  "64 \<le> t \<Longrightarrow> \<not> bs_closed bs \<Longrightarrow> SendToNode publish picks t i msgID body actorID sesID bs = Some (bs, Some ErrArg)"
  by (simp add: SendToNode_def Batchers_Node_def SvcTypeMax_def send_on_def)

lemma forwardToSrv_ok:
  assumes bus: "open_bus g sent" and ses: "gw_ses g a = Some s" and src: "4 \<le> length src" "known_type src"
    and node: "unat (getSerID t s) < 64"
  shows "\<exists>bs. forwardToSrv picks a src g = Some (g\<lparr>gw_bus := bs\<rparr>)
    \<and> open_bus (g\<lparr>gw_bus := bs\<rparr>) (\<lambda>sl. sent sl @ client_msgs (bs_serType (gw_bus g)) (bs_serID (gw_bus g)) s sl [src])
    \<and> bs_serType bs = bs_serType (gw_bus g) \<and> bs_serID bs = bs_serID (gw_bus g)"
proof -
  obtain msgID where d: "decode src = Some (msgID, drop 4 src)" using decode_some [OF src(1)] by blast
  let ?t = "unat (msgID div 100000)"
  let ?tg = "ToNode (int ?t) (getSerID (int ?t) s)"
  have same: "g\<lparr>gw_bus := gw_bus g\<rparr> = g" by simp
  have node': "unat (getSerID (int ?t) s) < 64" using node by (simp add: getSerID_def)
  consider (server) "msgID \<le> S2SMax" | (far) "\<not> msgID \<le> S2SMax" "64 \<le> ?t" | (sent) "\<not> msgID \<le> S2SMax" "\<not> 64 \<le> ?t" by blast
  then show ?thesis
  proof cases
    case server
    then show ?thesis using bus ses d
      by (intro exI [of _ "gw_bus g"]) (simp add: forwardToSrv_def slot_msgs_one client_msg_def Let_def)
  next
    case far
    have "SendToNode log_publish picks (int ?t) (getSerID (int ?t) s) msgID (drop 4 src) 0 (ss_Id s) (gw_bus g) = Some (gw_bus g, Some ErrArg)"
      using far(2) bus unfolding open_bus_def by (intro SendToNode_far) linarith+
    then show ?thesis using bus ses d far
      by (intro exI [of _ "gw_bus g"]) (simp add: forwardToSrv_def slot_msgs_one client_msg_def Let_def)
  next
    case sent
    have tg: "target_ok ?tg" using sent src(2) d node' by (simp add: known_type_def Let_def)
    obtain bs where bs: "send_to ?tg picks msgID (drop 4 src) 0 (ss_Id s) (gw_bus g) = Some (bs, None)"
      "bus_inv bs (sent(target_slot ?tg := sent (target_slot ?tg) @ [sent_msg (bs_serType (gw_bus g)) (bs_serID (gw_bus g)) ?tg msgID (drop 4 src) 0 (ss_Id s)]))"
      "bs_closed bs = bs_closed (gw_bus g)" "bs_serType bs = bs_serType (gw_bus g)" "bs_serID bs = bs_serID (gw_bus g)"
      using send_to_ok [OF _ _ tg, of "gw_bus g" sent picks msgID "drop 4 src" 0 "ss_Id s"] bus by (auto simp: open_bus_def)
    have "sent(target_slot ?tg := sent (target_slot ?tg) @ [sent_msg (bs_serType (gw_bus g)) (bs_serID (gw_bus g)) ?tg msgID (drop 4 src) 0 (ss_Id s)])
      = (\<lambda>sl. sent sl @ client_msgs (bs_serType (gw_bus g)) (bs_serID (gw_bus g)) s sl [src])"
      using sent d by (auto simp: slot_msgs_one client_msg_def Let_def sent_msg_def)
    then show ?thesis using bs bus ses d sent
      by (intro exI [of _ bs]) (simp add: forwardToSrv_def Let_def open_bus_def)
  qed
qed

text \<open>A turn of \<^verbatim>\<open>readLoop\<close> for each message the client sends, in the chunks it arrives in.\<close>

definition client_turns :: "addr \<Rightarrow> ((nat option \<times> nat option) \<times> bytes list) list \<Rightarrow> gw_step list" where
  "client_turns a ms = map (\<lambda>(picks, cs). ReadTurn a picks (BinaryMessage cs None)) ms"

lemma client_msg_head:
  "client_msg ty i s src = Some (sl, m) \<Longrightarrow>
     SesID (Head m) = ss_Id s \<and> ActorID (Head m) = 0 \<and> S2SMax < MsgID (Head m) \<and> Flag (Head m) = Normal"
  by (auto simp: client_msg_def Let_def not_le split: option.splits if_splits)

lemma client_msgs_head:
  "m \<in> set (client_msgs ty i s sl srcs) \<Longrightarrow>
     SesID (Head m) = ss_Id s \<and> ActorID (Head m) = 0 \<and> S2SMax < MsgID (Head m) \<and> Flag (Head m) = Normal"
  using client_msg_head [of ty i s _ sl m] by (auto simp: slot_msgs_mem)

lemma turns_when_left: "\<not> ses_is ss_reading a g \<Longrightarrow> gw_run E (client_turns a ms) g = Some g"
  by (induction ms) (auto simp: client_turns_def)

lemma readLoop_decode_err:
  assumes "gw_ses g a = Some s" "length (concat cs) < 4"
  shows "\<exists>g'. readLoop picks a (BinaryMessage cs None) g = Some g' \<and> gw_bus g' = gw_bus g \<and> \<not> ses_is ss_reading a g'"
proof -
  have "readFull maxRecvMsgSize [] cs None = Inr (concat cs)"
    using readFull_short [of "[]" cs maxRecvMsgSize] assms(2) by (simp add: maxRecvMsgSize_def)
  moreover have "is_closed a (upd_ses a (Session_Close DR_DecodeErr) g)"
    using assms(1) by (simp add: is_closed_def upd_ses_def Session_Close_def)
  ultimately show ?thesis
    using assms decode_none [OF assms(2)]
    by (auto simp: readLoop_def forwardToSrv_def leave_read_def onLoopExit_def upd_ses_def ses_is_def Let_def table_Remove_def
        Session_Close_def)
qed

lemma client_turns_ok:
  assumes "open_bus g sent" "gw_ses g a = Some s" "ss_reading s" "\<not> ss_closed s" "unat (getSerID 0 s) < 64"
    "\<forall>src \<in> set (map (concat \<circ> snd) ms). length src < maxRecvMsgSize \<and> known_type src"
  shows "\<exists>g'. gw_run E (client_turns a ms) g = Some g' \<and> open_bus g' (\<lambda>sl. sent sl @ client_msgs (bs_serType (gw_bus g))
    (bs_serID (gw_bus g)) s sl (takeWhile (\<lambda>src. 4 \<le> length src) (map (concat \<circ> snd) ms)))"
  using assms
proof (induction ms arbitrary: g sent)
  case Nil
  then show ?case by (simp add: client_turns_def slot_msgs_Nil)
next
  case (Cons m ms)
  obtain picks cs where m: "m = (picks, cs)" by (metis surj_pair)
  let ?src = "concat cs" and ?ty = "bs_serType (gw_bus g)" and ?i = "bs_serID (gw_bus g)"
  have reading: "ses_is ss_reading a g" using Cons.prems(2,3) by (simp add: ses_is_def)
  have turns: "client_turns a ((picks, cs) # ms) = ReadTurn a picks (BinaryMessage cs None) # client_turns a ms"
    by (simp add: client_turns_def)
  show ?case
  proof (cases "4 \<le> length ?src")
    case False
    then obtain g' where "readLoop picks a (BinaryMessage cs None) g = Some g'" "gw_bus g' = gw_bus g" "\<not> ses_is ss_reading a g'"
      using readLoop_decode_err [OF Cons.prems(2), of cs picks] by auto
    then show ?thesis
      using Cons.prems(1) False reading turns_when_left [of a g' E ms]
      by (simp add: turns m open_bus_def slot_msgs_Nil)
  next
    case True
    obtain bs where bs: "forwardToSrv picks a ?src g = Some (g\<lparr>gw_bus := bs\<rparr>)"
      "open_bus (g\<lparr>gw_bus := bs\<rparr>) (\<lambda>sl. sent sl @ client_msgs ?ty ?i s sl [?src])" "bs_serType bs = ?ty" "bs_serID bs = ?i"
      using forwardToSrv_ok [OF Cons.prems(1,2) True _ Cons.prems(5), of picks] Cons.prems(6) by (auto simp: m)
    have "readFull maxRecvMsgSize [] cs None = Inr ?src"
      using readFull_short [of "[]" cs maxRecvMsgSize] Cons.prems(6) by (simp add: m)
    then have "gw_do E (ReadTurn a picks (BinaryMessage cs None)) g = Some (g\<lparr>gw_bus := bs\<rparr>)"
      using reading bs(1) Cons.prems(2,4) by (simp add: readLoop_def is_closed_def)
    moreover have "gw_ses (g\<lparr>gw_bus := bs\<rparr>) a = Some s" "gw_bus (g\<lparr>gw_bus := bs\<rparr>) = bs" using Cons.prems(2) by simp_all
    moreover note Cons.IH [OF bs(2) this(1) Cons.prems(3,4,5)]
    ultimately show ?thesis
      using Cons.prems(6) bs(3,4) True
      by (auto simp: turns m slot_msgs_Cons [of _ _ _ "takeWhile _ (map _ ms)"] simp del: gw_do.simps)
  qed
qed


text \<open>A client sends a login (100001) in two chunks, a number of the servers (22), a short packet, and one more login.\<close>

definition demo_turns :: "((nat option \<times> nat option) \<times> bytes list) list" where
  "demo_turns = [((None, None), [put_be32 100001, [7]]), ((None, None), [put_be32 22 @ [9]]), ((None, None), [[1, 2]]),
     ((None, None), [put_be32 100001])]"

definition demo_gateway :: gateway where
  "demo_gateway = start Suc 5 0 (new_gateway (new_bus 0 1 (NewBytesPoll buffSize)))"


end
