(* ===== verification/Actor.thy ===== *)
theory Actor
  imports Frame Swap_Queue
begin

text \<open>
  Global actors, \<^verbatim>\<open>src/internal/share/actor\<close>, and the goroutine wrapper \<^verbatim>\<open>RunSafe\<close> of \<^verbatim>\<open>src/pkg/thread/thread.go\<close> they run
  under.  A handler acts on the state \<open>'s\<close> of the server and may panic; in a release build the panic is recovered and the
  actor goes on.  What a handler posts to a mailbox is a step of its own.
\<close>

section \<open>Recovered panics\<close>

text \<open>
  \<^verbatim>\<open>RunSafe\<close> around a call that ranges over a mailbox: a callback returns the new state and whether it panicked.  A panic
  leaves \<^verbatim>\<open>Range\<close> in the middle, before it clears the slice it took; the result has the elements it did not get to.
\<close>

fun range_until :: "('a \<Rightarrow> 's \<Rightarrow> 's \<times> bool) \<Rightarrow> 'a list \<Rightarrow> 's \<Rightarrow> 's \<times> 'a list option" where
  "range_until f [] s = (s, None)"
| "range_until f (x # xs) s = (case f x s of (s', panicked) \<Rightarrow> if panicked then (s', Some xs) else range_until f xs s')"

definition Range_safe :: "('a \<Rightarrow> 's \<Rightarrow> 's \<times> bool) \<Rightarrow> 'a swap_queue \<Rightarrow> 's \<Rightarrow> 'a swap_queue \<times> 's \<times> 'a list option" where
  "Range_safe f q s =
     (if sq_write q = [] then (q, s, None)
      else (case range_until f (sq_write q) s of
         (s', None) \<Rightarrow> (Range_finish (Range_swap q), s', None)
       | (s', Some rest) \<Rightarrow> (Range_swap q, s', Some rest)))"

section \<open>Actors\<close>

text \<open>The interface \<^verbatim>\<open>ISubActor\<close>: \<^verbatim>\<open>Init\<close> says whether it failed, \<^verbatim>\<open>OnTick\<close> whether it panicked.\<close>

record 's ISubActor =
  sub_Init :: "'s \<Rightarrow> 's \<times> bool"
  sub_OnTick :: "int \<Rightarrow> 's \<Rightarrow> 's \<times> bool"
  sub_Exit :: "'s \<Rightarrow> 's"

record ('u, 's) actor_event =
  ae_Ctx :: "'u message"
  ae_Func :: "('s \<Rightarrow> 's \<times> bool) option"

text \<open>The goroutine of an actor is not started, runs, or has returned.\<close>

datatype goroutine = Not_started | Running | Returned

record ('u, 's) actor =
  ac_Events :: "('u, 's) actor_event swap_queue"
  ac_sub :: "'s ISubActor"
  ac_go :: goroutine

definition NewActor :: "(nat \<Rightarrow> nat) \<Rightarrow> 's ISubActor \<Rightarrow> nat \<Rightarrow> ('u, 's) actor" where
  "NewActor grow subActor EventChanSize =
     (let EventChanSize = (if EventChanSize = 0 then 40960 else EventChanSize)
      in \<lparr>ac_Events = NewSwapQueue grow EventChanSize (EventChanSize * 100), ac_sub = subActor, ac_go = Not_started\<rparr>)"

definition Actor_Post :: "('u, 's) actor_event \<Rightarrow> ('u, 's) actor \<Rightarrow> ('u, 's) actor \<times> queue_err option" where
  "Actor_Post e a = (case Push (ac_Events a) e of (q, err) \<Rightarrow> (a\<lparr>ac_Events := q\<rparr>, err))"

text \<open>\<open>handle\<close> is the router of the server; an error it reports is logged.\<close>

definition run_event :: "('u message \<Rightarrow> 's \<Rightarrow> 's \<times> bool) \<Rightarrow> ('u, 's) actor_event \<Rightarrow> 's \<Rightarrow> 's \<times> bool" where
  "run_event handle evt s = (case ae_Func evt of Some f \<Rightarrow> f s | None \<Rightarrow> handle (ae_Ctx evt) s)"

section \<open>The actor manager\<close>

record ('u, 's) ActorMgr =
  am_actors :: "u64 \<rightharpoonup> ('u, 's) actor"
  am_wg :: int
  am_cancelled :: bool
  am_state :: 's

definition NewActorMgr :: "'s \<Rightarrow> ('u, 's) ActorMgr" where
  "NewActorMgr s = \<lparr>am_actors = Map.empty, am_wg = 0, am_cancelled = False, am_state = s\<rparr>"

datatype actor_err = Actor_repeated | Actor_init_failed | Actor_not_found | Actor_post queue_err

definition Mgr_Init :: "(nat \<Rightarrow> nat) \<Rightarrow> u64 \<Rightarrow> 's ISubActor \<Rightarrow> nat \<Rightarrow> ('u, 's) ActorMgr \<Rightarrow> ('u, 's) ActorMgr \<times> actor_err option" where
  "Mgr_Init grow i a evtChanSize m =
     (if am_actors m i \<noteq> None then (m, Some Actor_repeated)
      else let ac = NewActor grow a evtChanSize in
        (case sub_Init (ac_sub ac) (am_state m) of (s, failed) \<Rightarrow>
           let m = m\<lparr>am_state := s\<rparr> in
           if failed then (m, Some Actor_init_failed) else (m\<lparr>am_actors := (am_actors m)(i \<mapsto> ac)\<rparr>, None)))"

definition upd_actor :: "u64 \<Rightarrow> (('u, 's) actor \<Rightarrow> ('u, 's) actor) \<Rightarrow> ('u, 's) ActorMgr \<Rightarrow> ('u, 's) ActorMgr" where
  "upd_actor i f m = m\<lparr>am_actors := (am_actors m)(i := map_option f (am_actors m i))\<rparr>"

text \<open>\<open>order\<close> is the order in which the runtime ranges over the map of actors.\<close>

definition Actor_Start :: "u64 \<Rightarrow> ('u, 's) ActorMgr \<Rightarrow> ('u, 's) ActorMgr" where
  "Actor_Start i m = upd_actor i (\<lambda>a. a\<lparr>ac_go := Running\<rparr>) (m\<lparr>am_wg := am_wg m + 1\<rparr>)"

definition Mgr_Start :: "u64 list \<Rightarrow> ('u, 's) ActorMgr \<Rightarrow> ('u, 's) ActorMgr" where
  "Mgr_Start order m = fold Actor_Start order m"

definition Mgr_Dispatch :: "u64 \<Rightarrow> ('u, 's) actor_event \<Rightarrow> ('u, 's) ActorMgr \<Rightarrow> ('u, 's) ActorMgr \<times> actor_err option" where
  "Mgr_Dispatch i e m = (case am_actors m i of
     None \<Rightarrow> (m, Some Actor_not_found)
   | Some a \<Rightarrow> (case Actor_Post e a of (a', err) \<Rightarrow> (m\<lparr>am_actors := (am_actors m)(i \<mapsto> a')\<rparr>, map_option Actor_post err)))"

text \<open>\<^verbatim>\<open>StopAndWait\<close> cancels the context and wakes every actor with an event that only logs; it returns when \<open>am_wg\<close> is 0.\<close>

definition stop_event :: "('u, 's) actor_event" where
  "stop_event = \<lparr>ae_Ctx = \<lparr>Head = \<lparr>ActorID = 0, SesID = 0, MsgID = 0, Flag = 0, FromSer = 0, FromSerID = 0, ToSer = 0, ToSerID = 0\<rparr>,
     Data = [], U = None, reply = []\<rparr>, ae_Func = Some (\<lambda>s. (s, False))\<rparr>"

definition StopAndWait :: "u64 list \<Rightarrow> ('u, 's) ActorMgr \<Rightarrow> ('u, 's) ActorMgr" where
  "StopAndWait order m = fold (\<lambda>i m. fst (Mgr_Dispatch i stop_event m)) order (m\<lparr>am_cancelled := True\<rparr>)"

subsection \<open>The goroutine of an actor\<close>

text \<open>The deferred function of \<^verbatim>\<open>Start\<close>.\<close>

definition actor_exit :: "u64 \<Rightarrow> ('u, 's) ActorMgr \<Rightarrow> ('u, 's) ActorMgr" where
  "actor_exit i m = (case am_actors m i of
     None \<Rightarrow> m
   | Some a \<Rightarrow> m\<lparr>am_state := sub_Exit (ac_sub a) (am_state m), am_wg := am_wg m - 1,
       am_actors := (am_actors m)(i \<mapsto> a\<lparr>ac_go := Returned\<rparr>)\<rparr>)"

text \<open>After a recovered panic the outer loop looks at the context before it calls \<^verbatim>\<open>run\<close> again.\<close>

definition after_panic :: "u64 \<Rightarrow> ('u, 's) ActorMgr \<Rightarrow> ('u, 's) ActorMgr" where
  "after_panic i m = (if am_cancelled m then actor_exit i m else m)"

text \<open>The three cases of the \<^verbatim>\<open>select\<close> in \<^verbatim>\<open>run\<close>; a case that is not ready changes nothing.\<close>

definition run_sig :: "('u message \<Rightarrow> 's \<Rightarrow> 's \<times> bool) \<Rightarrow> u64 \<Rightarrow> ('u, 's) ActorMgr \<Rightarrow> ('u, 's) ActorMgr" where
  "run_sig handle i m = (case am_actors m i of
     None \<Rightarrow> m
   | Some a \<Rightarrow> if ac_go a \<noteq> Running then m else (case recv_Sig (ac_Events a) of
       None \<Rightarrow> m
     | Some q \<Rightarrow> (case Range_safe (run_event handle) q (am_state m) of (q', s', rest) \<Rightarrow>
         let m' = m\<lparr>am_actors := (am_actors m)(i \<mapsto> a\<lparr>ac_Events := q'\<rparr>), am_state := s'\<rparr>
         in if rest = None then m' else after_panic i m')))"

definition run_tick :: "int \<Rightarrow> u64 \<Rightarrow> ('u, 's) ActorMgr \<Rightarrow> ('u, 's) ActorMgr" where
  "run_tick now i m = (case am_actors m i of
     None \<Rightarrow> m
   | Some a \<Rightarrow> if ac_go a \<noteq> Running then m else (case sub_OnTick (ac_sub a) now (am_state m) of (s', panicked) \<Rightarrow>
       let m' = m\<lparr>am_state := s'\<rparr> in if panicked then after_panic i m' else m'))"

definition run_done :: "u64 \<Rightarrow> ('u, 's) ActorMgr \<Rightarrow> ('u, 's) ActorMgr" where
  "run_done i m = (case am_actors m i of
     None \<Rightarrow> m
   | Some a \<Rightarrow> if ac_go a = Running \<and> am_cancelled m then actor_exit i m else m)"

section \<open>Runs\<close>

text \<open>
  Every event is eventually handled, makes its handler panic, or is dropped because an earlier event of the same batch made
  its handler panic.  \<open>lg_in\<close> has the events that \<^verbatim>\<open>Dispatch\<close> accepted for an actor, \<open>lg_out\<close> those its goroutine took, with what
  became of them.
\<close>

datatype outcome = Handled | Panicked | Dropped

fun outcomes :: "('a \<Rightarrow> 's \<Rightarrow> 's \<times> bool) \<Rightarrow> 'a list \<Rightarrow> 's \<Rightarrow> ('a \<times> outcome) list" where
  "outcomes f [] s = []"
| "outcomes f (x # xs) s = (case f x s of (s', panicked) \<Rightarrow>
     if panicked then (x, Panicked) # map (\<lambda>y. (y, Dropped)) xs else (x, Handled) # outcomes f xs s')"

record ('u, 's) actor_log =
  lg_in :: "u64 \<Rightarrow> ('u, 's) actor_event list"
  lg_out :: "u64 \<Rightarrow> (('u, 's) actor_event \<times> outcome) list"

definition no_log :: "('u, 's) actor_log" where
  "no_log = \<lparr>lg_in = \<lambda>_. [], lg_out = \<lambda>_. []\<rparr>"

definition log_dispatch :: "u64 \<Rightarrow> ('u, 's) actor_event \<Rightarrow> ('u, 's) ActorMgr \<times> ('u, 's) actor_log \<Rightarrow> ('u, 's) ActorMgr \<times> ('u, 's) actor_log" where
  "log_dispatch i e ml = (case ml of (m, lg) \<Rightarrow> (case Mgr_Dispatch i e m of (m', err) \<Rightarrow>
     (m', if err = None then lg\<lparr>lg_in := (lg_in lg)(i := lg_in lg i @ [e])\<rparr> else lg)))"

definition taken :: "('u message \<Rightarrow> 's \<Rightarrow> 's \<times> bool) \<Rightarrow> u64 \<Rightarrow> ('u, 's) ActorMgr \<Rightarrow> (('u, 's) actor_event \<times> outcome) list" where
  "taken handle i m = (case am_actors m i of
     None \<Rightarrow> []
   | Some a \<Rightarrow> if ac_go a = Running \<and> sq_sig (ac_Events a) then outcomes (run_event handle) (sq_write (ac_Events a)) (am_state m) else [])"

datatype ('u, 's) actor_step =
    Post_step u64 "('u, 's) actor_event"
  | Sig_step u64
  | Tick_step u64 int
  | Done_step u64
  | Stop_step "u64 list"

fun actor_do :: "('u message \<Rightarrow> 's \<Rightarrow> 's \<times> bool) \<Rightarrow> ('u, 's) actor_step \<Rightarrow> ('u, 's) ActorMgr \<times> ('u, 's) actor_log
    \<Rightarrow> ('u, 's) ActorMgr \<times> ('u, 's) actor_log" where
  "actor_do handle (Post_step i e) ml = log_dispatch i e ml"
| "actor_do handle (Sig_step i) ml = (case ml of (m, lg) \<Rightarrow>
     (run_sig handle i m, lg\<lparr>lg_out := (lg_out lg)(i := lg_out lg i @ taken handle i m)\<rparr>))"
| "actor_do handle (Tick_step i now) ml = (case ml of (m, lg) \<Rightarrow> (run_tick now i m, lg))"
| "actor_do handle (Done_step i) ml = (case ml of (m, lg) \<Rightarrow> (run_done i m, lg))"
| "actor_do handle (Stop_step order) ml = (case ml of (m, lg) \<Rightarrow>
     fold (\<lambda>i. log_dispatch i stop_event) order (m\<lparr>am_cancelled := True\<rparr>, lg))"

lemma fold_log_dispatch:
  "fst (fold (\<lambda>i. log_dispatch i e) order ml) = fold (\<lambda>i m. fst (Mgr_Dispatch i e m)) order (fst ml)"
  by (induction order arbitrary: ml) (auto simp: log_dispatch_def split: prod.split)

lemma stop_step_StopAndWait: "fst (actor_do handle (Stop_step order) (m, lg)) = StopAndWait order m"
  by (simp add: StopAndWait_def fold_log_dispatch)

lemma outcomes_fst: "map fst (outcomes f xs s) = xs"
  by (induction xs arbitrary: s) (auto simp: comp_def split: prod.split)

lemma range_until_outcomes:
  "snd (range_until f xs s) = None \<longleftrightarrow> (\<forall>x \<in> set (outcomes f xs s). snd x = Handled)"
proof (induction xs arbitrary: s)
  case (Cons x xs)
  obtain s' panicked where "f x s = (s', panicked)" by (metis surj_pair)
  then show ?case using Cons.IH [of s'] by (cases panicked) simp_all
qed simp

text \<open>A dropped event comes right after one that was dropped, or whose handler panicked.\<close>

definition drops_ok :: "('a \<times> outcome) list \<Rightarrow> bool" where
  "drops_ok xs \<longleftrightarrow> (\<forall>k < length xs. snd (xs ! k) = Dropped \<longrightarrow> 0 < k \<and> snd (xs ! (k - 1)) \<noteq> Handled)"

lemma drops_ok_append: "drops_ok xs \<Longrightarrow> drops_ok ys \<Longrightarrow> drops_ok (xs @ ys)"
  unfolding drops_ok_def
proof (intro allI impI)
  fix k assume x: "\<forall>k<length xs. snd (xs ! k) = Dropped \<longrightarrow> 0 < k \<and> snd (xs ! (k - 1)) \<noteq> Handled"
    and y: "\<forall>k<length ys. snd (ys ! k) = Dropped \<longrightarrow> 0 < k \<and> snd (ys ! (k - 1)) \<noteq> Handled"
    and k: "k < length (xs @ ys)" "snd ((xs @ ys) ! k) = Dropped"
  show "0 < k \<and> snd ((xs @ ys) ! (k - 1)) \<noteq> Handled"
  proof (cases "k < length xs")
    case True
    then show ?thesis using x k by (auto simp: nth_append)
  next
    case False
    then have "0 < k - length xs \<and> snd (ys ! (k - length xs - 1)) \<noteq> Handled"
      using y [rule_format, of "k - length xs"] k by (auto simp: nth_append)
    then show ?thesis using False by (auto simp: nth_append)
  qed
qed

lemma drops_ok_dropped: "drops_ok ((x, Panicked) # map (\<lambda>y. (y, Dropped)) ys)"
  unfolding drops_ok_def by (auto simp: nth_Cons' split: if_splits)

lemma drops_ok_outcomes: "drops_ok (outcomes f xs s)"
proof (induction xs arbitrary: s)
  case Nil
  then show ?case by (simp add: drops_ok_def)
next
  case (Cons x xs)
  obtain s' panicked where f: "f x s = (s', panicked)" by (metis surj_pair)
  have "drops_ok ([(x, Handled)] @ outcomes f xs s')"
    by (rule drops_ok_append [OF _ Cons.IH]) (simp add: drops_ok_def)
  then show ?case using f drops_ok_dropped [of x xs] by simp
qed

definition actor_ok :: "bool \<Rightarrow> ('u, 's) actor_event list \<Rightarrow> (('u, 's) actor_event \<times> outcome) list \<Rightarrow> ('u, 's) actor \<Rightarrow> bool" where
  "actor_ok cancelled ins outs a \<longleftrightarrow> map fst outs @ sq_write (ac_Events a) = ins \<and> drops_ok outs
     \<and> (sq_write (ac_Events a) \<noteq> [] \<longrightarrow> sq_sig (ac_Events a)) \<and> (ac_go a = Returned \<longrightarrow> cancelled)"

definition running :: "('u, 's) ActorMgr \<Rightarrow> u64 set" where
  "running m = {i. \<exists>a. am_actors m i = Some a \<and> ac_go a = Running}"

definition mgr_inv :: "('u, 's) ActorMgr \<Rightarrow> ('u, 's) actor_log \<Rightarrow> bool" where
  "mgr_inv m lg \<longleftrightarrow> finite (dom (am_actors m)) \<and> am_wg m = int (card (running m))
     \<and> (\<forall>i a. am_actors m i = Some a \<longrightarrow> actor_ok (am_cancelled m) (lg_in lg i) (lg_out lg i) a)"

lemma finite_running: "finite (dom (am_actors m)) \<Longrightarrow> finite (running m)"
  by (rule finite_subset [of _ "dom (am_actors m)"]) (auto simp: running_def)

lemma running_upd:
  "am_actors m i = Some a \<Longrightarrow> am_actors m' = (am_actors m)(i \<mapsto> a') \<Longrightarrow>
   running m' = (if ac_go a' = Running then insert i (running m) else running m - {i})"
  by (auto simp: running_def)

lemma mgr_inv_upd:
  assumes inv: "mgr_inv m lg" and a: "am_actors m i = Some a"
    and m': "am_actors m' = (am_actors m)(i \<mapsto> a')" "am_cancelled m \<longrightarrow> am_cancelled m'"
      "am_wg m' = am_wg m - of_bool (ac_go a = Running) + of_bool (ac_go a' = Running)"
    and lg': "lg_in lg' = (lg_in lg)(i := ins)" "lg_out lg' = (lg_out lg)(i := outs)"
    and ok: "actor_ok (am_cancelled m') ins outs a'"
  shows "mgr_inv m' lg'"
proof -
  have fin: "finite (running m)" using inv finite_running by (simp add: mgr_inv_def)
  have i: "i \<in> running m \<longleftrightarrow> ac_go a = Running" using a by (simp add: running_def)
  have pos: "0 < card (running m)" if "i \<in> running m" using fin that by (auto simp: card_gt_0_iff)
  have "int (card (running m')) = am_wg m'"
    unfolding running_upd [OF a m'(1)] m'(3)
    using inv fin i pos by (auto simp: mgr_inv_def card_insert_if card_Diff_singleton_if of_nat_diff Suc_le_eq)
  moreover have "actor_ok (am_cancelled m') (lg_in lg' j) (lg_out lg' j) b" if "am_actors m' j = Some b" for j b
    using that ok inv m' lg' by (cases "j = i") (auto simp: mgr_inv_def actor_ok_def)
  moreover have "finite (dom (am_actors m'))" using inv m'(1) by (simp add: mgr_inv_def)
  ultimately show ?thesis by (simp add: mgr_inv_def)
qed

lemma mgr_inv_state: "mgr_inv m lg \<Longrightarrow> mgr_inv (m\<lparr>am_state := s\<rparr>) lg"
  by (simp add: mgr_inv_def running_def)

lemma mgr_inv_cancel: "mgr_inv m lg \<Longrightarrow> mgr_inv (m\<lparr>am_cancelled := True\<rparr>) lg"
  by (auto simp: mgr_inv_def running_def actor_ok_def)

lemma mgr_invD: "mgr_inv m lg \<Longrightarrow> am_actors m i = Some a \<Longrightarrow> actor_ok (am_cancelled m) (lg_in lg i) (lg_out lg i) a"
  by (simp add: mgr_inv_def)

lemma dispatch_inv:
  assumes "mgr_inv (fst ml) (snd ml)"
  shows "mgr_inv (fst (log_dispatch i e ml)) (snd (log_dispatch i e ml))"
proof -
  obtain m lg where ml: "ml = (m, lg)" by (metis surj_pair)
  show ?thesis
  proof (cases "am_actors m i")
    case None
    then show ?thesis using assms by (simp add: ml log_dispatch_def Mgr_Dispatch_def)
  next
    case (Some a)
    obtain q err where q: "Push (ac_Events a) e = (q, err)" by (metis surj_pair)
    have w: "sq_write q = sq_write (ac_Events a) @ (if err = None then [e] else [])" "sq_sig q"
      using q by (auto simp: Push_def pushData_def queue_simps split: if_splits)
    show ?thesis
      using mgr_invD [OF assms [unfolded ml fst_conv snd_conv] Some] q w Some
      by (intro mgr_inv_upd [OF assms [unfolded ml fst_conv snd_conv] Some, where a' = "a\<lparr>ac_Events := q\<rparr>"
            and ins = "lg_in lg i @ (if err = None then [e] else [])" and outs = "lg_out lg i"])
        (auto simp: ml log_dispatch_def Mgr_Dispatch_def Actor_Post_def actor_ok_def)
  qed
qed

lemma exit_inv:
  assumes inv: "mgr_inv m lg" and a: "am_actors m i = Some a" "ac_go a = Running" "am_cancelled m"
  shows "mgr_inv (actor_exit i m) lg"
  using mgr_invD [OF inv a(1)] a
  by (intro mgr_inv_upd [OF inv a(1), where a' = "a\<lparr>ac_go := Returned\<rparr>" and ins = "lg_in lg i" and outs = "lg_out lg i"])
    (auto simp: actor_exit_def actor_ok_def)

lemma after_panic_inv:
  assumes "mgr_inv m lg" "am_actors m i = Some a" "ac_go a = Running"
  shows "mgr_inv (after_panic i m) lg"
  using assms exit_inv by (auto simp: after_panic_def)

lemma sig_inv:
  assumes inv: "mgr_inv m lg"
  shows "mgr_inv (run_sig handle i m) (lg\<lparr>lg_out := (lg_out lg)(i := lg_out lg i @ taken handle i m)\<rparr>)"
proof (cases "am_actors m i")
  case None
  then show ?thesis using inv by (simp add: run_sig_def taken_def mgr_inv_def)
next
  case (Some a)
  let ?f = "run_event handle" and ?q = "ac_Events a"
  show ?thesis
  proof (cases "ac_go a = Running \<and> sq_sig ?q")
    case False
    then show ?thesis using inv Some by (auto simp: run_sig_def taken_def mgr_inv_def recv_Sig_def)
  next
    case True
    obtain q' s' rest where r: "Range_safe ?f (?q\<lparr>sq_sig := False\<rparr>) (am_state m) = (q', s', rest)" by (metis surj_pair)
    have w: "sq_write q' = []"
      using r by (auto simp: Range_safe_def Range_swap_def Range_finish_def Let_def split: if_splits option.splits prod.splits)
    have out: "taken handle i m = outcomes ?f (sq_write ?q) (am_state m)" using Some True by (simp add: taken_def)
    let ?m = "m\<lparr>am_actors := (am_actors m)(i \<mapsto> a\<lparr>ac_Events := q'\<rparr>), am_state := s'\<rparr>"
    have "mgr_inv ?m (lg\<lparr>lg_out := (lg_out lg)(i := lg_out lg i @ taken handle i m)\<rparr>)"
      using mgr_invD [OF inv Some] w True
      by (intro mgr_inv_upd [OF inv Some, where a' = "a\<lparr>ac_Events := q'\<rparr>" and ins = "lg_in lg i"
            and outs = "lg_out lg i @ taken handle i m"])
        (auto simp: actor_ok_def out outcomes_fst drops_ok_append drops_ok_outcomes)
    then show ?thesis
      using True Some r after_panic_inv [of ?m _ i "a\<lparr>ac_Events := q'\<rparr>"] by (simp add: run_sig_def recv_Sig_def Let_def)
  qed
qed

lemma tick_inv: "mgr_inv m lg \<Longrightarrow> mgr_inv (run_tick now i m) lg"
  using after_panic_inv [of "m\<lparr>am_state := _\<rparr>" lg i]
  by (auto simp: run_tick_def mgr_inv_state Let_def split: option.split prod.split)

lemma done_inv: "mgr_inv m lg \<Longrightarrow> mgr_inv (run_done i m) lg"
  using exit_inv by (auto simp: run_done_def split: option.split)

lemma actor_do_inv:
  assumes "mgr_inv (fst ml) (snd ml)"
  shows "mgr_inv (fst (actor_do handle st ml)) (snd (actor_do handle st ml))"
proof -
  obtain m lg where ml: "ml = (m, lg)" by (metis surj_pair)
  have inv: "mgr_inv m lg" using assms by (simp add: ml)
  show ?thesis
  proof (cases st)
    case (Stop_step order)
    have "mgr_inv (fst (fold (\<lambda>i. log_dispatch i stop_event) order ml)) (snd (fold (\<lambda>i. log_dispatch i stop_event) order ml))"
      if "mgr_inv (fst ml) (snd ml)" for ml :: "('a, 'b) ActorMgr \<times> ('a, 'b) actor_log"
      using that by (induction order arbitrary: ml) (simp_all add: dispatch_inv)
    then show ?thesis using mgr_inv_cancel [OF inv] by (simp add: Stop_step ml)
  qed (use dispatch_inv [OF assms] sig_inv [OF inv] tick_inv [OF inv] done_inv [OF inv] in \<open>simp_all add: ml\<close>)
qed

lemma actor_run_inv:
  "mgr_inv (fst ml) (snd ml) \<Longrightarrow> mgr_inv (fst (fold (actor_do handle) sts ml)) (snd (fold (actor_do handle) sts ml))"
  by (induction sts arbitrary: ml) (simp_all add: actor_do_inv)

text \<open>Start-up: \<^verbatim>\<open>Init\<close> for every actor, then \<^verbatim>\<open>Start\<close>.\<close>

definition init_actors :: "(nat \<Rightarrow> nat) \<Rightarrow> (u64 \<times> 's ISubActor \<times> nat) list \<Rightarrow> 's \<Rightarrow> ('u, 's) ActorMgr" where
  "init_actors grow specs s = fold (\<lambda>(i, a, n) m. fst (Mgr_Init grow i a n m)) specs (NewActorMgr s)"

definition idle :: "('u, 's) ActorMgr \<Rightarrow> bool" where
  "idle m \<longleftrightarrow> finite (dom (am_actors m)) \<and> am_wg m = 0 \<and> \<not> am_cancelled m
     \<and> (\<forall>i a. am_actors m i = Some a \<longrightarrow> ac_go a = Not_started \<and> sq_write (ac_Events a) = [])"

lemma Mgr_Init_idle: "idle m \<Longrightarrow> idle (fst (Mgr_Init grow i a n m))"
  by (auto simp: Mgr_Init_def idle_def NewActor_def NewSwapQueue_def Let_def split: prod.split)

lemma Mgr_Inits_idle: "idle m \<Longrightarrow> idle (fold (\<lambda>(i, a, n) m. fst (Mgr_Init grow i a n m)) specs m)"
  by (induction specs arbitrary: m) (auto simp: Mgr_Init_idle)

lemma init_actors_idle: "idle (init_actors grow specs s)"
  unfolding init_actors_def by (rule Mgr_Inits_idle) (simp add: idle_def NewActorMgr_def)

lemma idle_inv: "idle m \<Longrightarrow> mgr_inv m no_log"
  by (auto simp: idle_def mgr_inv_def running_def actor_ok_def drops_ok_def no_log_def)

lemma Actor_Start_inv:
  assumes "mgr_inv m lg" "am_actors m i = Some a" "ac_go a = Not_started"
  shows "mgr_inv (Actor_Start i m) lg"
  using mgr_invD [OF assms(1,2)] assms(2,3)
  by (intro mgr_inv_upd [OF assms(1,2), where a' = "a\<lparr>ac_go := Running\<rparr>" and ins = "lg_in lg i" and outs = "lg_out lg i"])
    (auto simp: Actor_Start_def upd_actor_def actor_ok_def)

lemma Mgr_Start_inv:
  assumes "mgr_inv m lg" "distinct order" "\<forall>i \<in> set order. \<exists>a. am_actors m i = Some a \<and> ac_go a = Not_started"
  shows "mgr_inv (Mgr_Start order m) lg"
  using assms
proof (induction order arbitrary: m)
  case (Cons i order)
  have "mgr_inv (Actor_Start i m) lg" using Cons.prems Actor_Start_inv by auto
  moreover have "\<forall>j \<in> set order. \<exists>a. am_actors (Actor_Start i m) j = Some a \<and> ac_go a = Not_started"
    using Cons.prems(2,3) by (auto simp: Actor_Start_def upd_actor_def)
  ultimately show ?case using Cons.IH Cons.prems(2) by (simp add: Mgr_Start_def)
qed (simp add: Mgr_Start_def)

lemma started_inv:
  assumes "is_order order (am_actors m)" "idle m"
  shows "mgr_inv (Mgr_Start order m) no_log"
  using assms idle_inv by (intro Mgr_Start_inv) (auto simp: is_order_def idle_def)


text \<open>One actor counts its messages, and message 13 makes it panic: of the three messages in one batch the last is lost.\<close>

definition demo_sub :: "nat ISubActor" where
  "demo_sub = \<lparr>sub_Init = \<lambda>s. (s, False), sub_OnTick = \<lambda>_ s. (s, False), sub_Exit = id\<rparr>"

definition demo_handle :: "unit message \<Rightarrow> nat \<Rightarrow> nat \<times> bool" where
  "demo_handle p s = (Suc s, MsgID (Head p) = 13)"

definition demo_evt :: "u32 \<Rightarrow> (unit, nat) actor_event" where
  "demo_evt i = \<lparr>ae_Ctx = demo_msg i [], ae_Func = None\<rparr>"


end
