(* ===== verification/Center.thy ===== *)
theory Center
  imports Actor Registry Role
begin

text \<open>
  The center, \<^verbatim>\<open>src/internal/center\<close>: the table of the roles that are online on any game server, the actors, and what it does
  with a message (\<^verbatim>\<open>app.go\<close>); and what a game server does with one (\<^verbatim>\<open>src/internal/game/app.go\<close>).  A message for a role whose
  game server the sender does not know goes to the center, which relays it.
\<close>

section \<open>Roles online\<close>

record online_data =
  od_SesID :: u64
  od_GameID :: u8

type_synonym onlines = "(u64, online_data) shards"

definition shardCount :: nat where
  "shardCount = 640"

definition getRoleShard :: "u64 \<Rightarrow> nat" where
  "getRoleShard roleID = mask_ix (of_nat shardCount - 1) roleID"

definition new_onlines :: onlines where
  "new_onlines = shards_new shardCount"

definition online_Add :: "u64 \<Rightarrow> online_data \<Rightarrow> onlines \<Rightarrow> onlines" where
  "online_Add roleID d t = shards_put getRoleShard t roleID d"

definition online_Remove :: "u64 \<Rightarrow> onlines \<Rightarrow> onlines" where
  "online_Remove roleID t = shards_del getRoleShard t roleID"

definition GetGameID :: "u64 \<Rightarrow> onlines \<Rightarrow> u8 \<times> bool" where
  "GetGameID roleID t = (case shards_get getRoleShard t roleID of Some r \<Rightarrow> (od_GameID r, True) | None \<Rightarrow> (0, False))"

definition online_Count :: "onlines \<Rightarrow> nat" where
  "online_Count t = shards_count t"

record S2SReqLoginOrLogout =
  lr_RoleID :: u64
  lr_SesID :: u64
  lr_GameID :: u32
  lr_Login :: bool

definition onLoginOrLogout :: "S2SReqLoginOrLogout \<Rightarrow> onlines \<Rightarrow> onlines" where
  "onLoginOrLogout req t =
     (if lr_Login req then online_Add (lr_RoleID req) \<lparr>od_SesID = lr_SesID req, od_GameID = ucast (lr_GameID req)\<rparr> t
      else online_Remove (lr_RoleID req) t)"

section \<open>The center\<close>

definition ID_Example :: u64 where "ID_Example = 0"
definition ID_Global :: u64 where "ID_Global = 1"

text \<open>\<^verbatim>\<open>Example\<close> and \<^verbatim>\<open>Global\<close> have the same, empty methods.\<close>

definition empty_actor :: "'s ISubActor" where
  "empty_actor = \<lparr>sub_Init = \<lambda>s. (s, False), sub_OnTick = \<lambda>_ s. (s, False), sub_Exit = \<lambda>s. s\<rparr>"

text \<open>The state the actors work on is the table of roles.\<close>

record 'u center =
  ce_actors :: "('u, onlines) ActorMgr"
  ce_bus :: "packets databus"

definition Create :: "(nat \<Rightarrow> nat) \<Rightarrow> ('u, onlines) ActorMgr \<Rightarrow> ('u, onlines) ActorMgr" where
  "Create grow m = fst (Mgr_Init grow ID_Global empty_actor 0 (fst (Mgr_Init grow ID_Example empty_actor 0 m)))"

text \<open>
  The router of the center has two handlers, \<^verbatim>\<open>onLoginOrLogout\<close> and one that does nothing; \<open>decode_req\<close> decodes the body of a
  report.
\<close>

definition center_handle :: "(u32 \<Rightarrow> bytes \<Rightarrow> S2SReqLoginOrLogout option) \<Rightarrow> 'u message \<Rightarrow> onlines \<Rightarrow> onlines \<times> bool" where
  "center_handle decode_req p t = (case decode_req (MsgID (Head p)) (message.Data p) of
     None \<Rightarrow> (t, False) | Some req \<Rightarrow> (onLoginOrLogout req t, False))"

definition center_OnServerMsg :: "nat option \<times> nat option \<Rightarrow> 'u message \<Rightarrow> 'u center \<Rightarrow> 'u center option" where
  "center_OnServerMsg picks c ce = (let h = Head c in
     if Flag h = Forward then (case GetGameID (ActorID h) (am_state (ce_actors ce)) of (gameID, ok) \<Rightarrow>
       if ok then (case SendToNode log_publish picks (int (unat (ToSer h))) gameID (MsgID h) (message.Data c) (ActorID h) (SesID h) (ce_bus ce) of
           None \<Rightarrow> None
         | Some (bs, _) \<Rightarrow> Some (ce\<lparr>ce_bus := bs\<rparr>))
       else Some ce)
     else if ActorID h > 0 then Some (ce\<lparr>ce_actors := fst (Mgr_Dispatch (ActorID h) \<lparr>ae_Ctx = c, ae_Func = None\<rparr> (ce_actors ce))\<rparr>)
     else Some (ce\<lparr>ce_actors := fst (Mgr_Dispatch ID_Global \<lparr>ae_Ctx = c, ae_Func = None\<rparr> (ce_actors ce))\<rparr>))"

section \<open>A game server\<close>

definition IDAccBegin :: u64 where "IDAccBegin = 100000"

record ('u, 'w, 's) game =
  gm_roles :: "('u, 'w) Event rworld"
  gm_actors :: "('u, 's) ActorMgr"

text \<open>\<open>handle\<close> is the router with the handlers of the logon service; they only post events.\<close>

definition game_OnServerMsg :: "('u message \<Rightarrow> 's \<Rightarrow> 's) \<Rightarrow> 'u message \<Rightarrow> ('u, 'w, 's) game \<Rightarrow> ('u, 'w, 's) game" where
  "game_OnServerMsg handle c g = (let h = Head c in
     if SesID h \<noteq> 0 then g\<lparr>gm_roles := fst (DispatchBySesID (SesID h) \<lparr>evt_Ctx = c, evt_Func = None\<rparr> (gm_roles g))\<rparr>
     else if ActorID h > IDAccBegin then g\<lparr>gm_roles := fst (Dispatch (ActorID h) \<lparr>evt_Ctx = c, evt_Func = None\<rparr> (gm_roles g))\<rparr>
     else if ActorID h > 0 then g\<lparr>gm_actors := fst (Mgr_Dispatch (ActorID h) \<lparr>ae_Ctx = c, ae_Func = None\<rparr> (gm_actors g))\<rparr>
     else g\<lparr>gm_actors := (gm_actors g)\<lparr>am_state := handle c (am_state (gm_actors g))\<rparr>\<rparr>)"

section \<open>The table follows the reports\<close>

lemma online_shard_bound: "getRoleShard k < shardCount"
  using mask_ix_bound [of "of_nat shardCount - 1" k] by (simp add: getRoleShard_def shardCount_def)

interpretation os: sharding getRoleShard shardCount
  by unfold_locales (rule online_shard_bound)

abbreviation online :: "onlines \<Rightarrow> u64 \<rightharpoonup> online_data" where
  "online t \<equiv> shards_get getRoleShard t"

definition report_val :: "S2SReqLoginOrLogout \<Rightarrow> online_data option" where
  "report_val req = (if lr_Login req then Some \<lparr>od_SesID = lr_SesID req, od_GameID = ucast (lr_GameID req)\<rparr> else None)"

definition report_map :: "S2SReqLoginOrLogout \<Rightarrow> (u64 \<rightharpoonup> online_data) \<Rightarrow> (u64 \<rightharpoonup> online_data)" where
  "report_map req m = m(lr_RoleID req := report_val req)"

lemma onLoginOrLogout_map:
  assumes "shards_ok getRoleShard shardCount t"
  shows "shards_ok getRoleShard shardCount (onLoginOrLogout req t)" "online (onLoginOrLogout req t) = report_map req (online t)"
  using assms by (simp_all add: onLoginOrLogout_def online_Add_def online_Remove_def os.ok_put os.ok_del os.get_put os.get_del report_map_def report_val_def)

lemma reports_map:
  "shards_ok getRoleShard shardCount t \<Longrightarrow>
   shards_ok getRoleShard shardCount (fold onLoginOrLogout reqs t) \<and> online (fold onLoginOrLogout reqs t) = fold report_map reqs (online t)"
  by (induction reqs arbitrary: t) (simp_all add: onLoginOrLogout_map)

lemma fold_report_map:
  "fold report_map reqs m r = (case filter (\<lambda>q. lr_RoleID q = r) reqs of [] \<Rightarrow> m r | q # qs \<Rightarrow> report_val (last (q # qs)))"
proof (induction reqs arbitrary: m)
  case (Cons p reqs)
  show ?case
    using Cons.IH [of "report_map p m"] by (cases "filter (\<lambda>q. lr_RoleID q = r) reqs") (auto simp: report_map_def)
qed simp

text \<open>Of the shards only those whose number has no bit outside the mask are used.\<close>

lemma used_shards: "card (range getRoleShard) = 256"
proof -
  let ?used = "filter (\<lambda>i. i AND 639 = i) [0..639 :: int]"
  have m: "int (getRoleShard k) = uint k AND 639" for k
    by (simp add: getRoleShard_def mask_ix_def shardCount_def uint_and)
  have "int ` range getRoleShard = set ?used"
  proof (intro equalityI subsetI)
    fix i assume "i \<in> int ` range getRoleShard"
    then obtain k where k: "i = int (getRoleShard k)" by auto
    then have "i < 640" using online_shard_bound [of k] by (simp add: shardCount_def)
    then show "i \<in> set ?used" using k m [of k] by (simp add: and.assoc)
  next
    fix i assume i: "i \<in> set ?used"
    then have "int (getRoleShard (word_of_int i)) = i" using m [of "word_of_int i"] by (simp add: uint_word_of_int)
    then show "i \<in> int ` range getRoleShard" by (metis imageI rangeI)
  qed
  moreover have "length ?used = 256" by code_simp
  moreover have "card (int ` range getRoleShard) = card (range getRoleShard)" by (simp add: card_image)
  ultimately show ?thesis using distinct_card [of ?used] by simp
qed

text \<open>
  C33. The center knows a role by the last report about it.  After any reports of logins and logouts, from whatever game
  servers and in the order they arrive, \<^verbatim>\<open>GetGameID\<close> finds a role exactly if the last report about it was a login, and then
  returns the game server of that report; \<^verbatim>\<open>Count\<close> counts these roles.  In particular a logout of the old game server that
  arrives after the login at the new one hides a role that is online.  The table works although its mask does not fit its
  length: of the 640 shards only 256 are used.
\<close>

theorem center_follows_last_report:
  "GetGameID r (fold onLoginOrLogout reqs new_onlines) = (case filter (\<lambda>q. lr_RoleID q = r) reqs of
       [] \<Rightarrow> (0, False)
     | q # qs \<Rightarrow> if lr_Login (last (q # qs)) then (ucast (lr_GameID (last (q # qs))), True) else (0, False))
   \<and> online_Count (fold onLoginOrLogout reqs new_onlines)
       = card {r. snd (GetGameID r (fold onLoginOrLogout reqs new_onlines))}
   \<and> length new_onlines = 640 \<and> card (range getRoleShard) = 256"
proof -
  let ?t = "fold onLoginOrLogout reqs new_onlines"
  have ok: "shards_ok getRoleShard shardCount new_onlines" "online new_onlines = Map.empty"
    by (simp_all add: new_onlines_def os.ok_new os.get_new)
  have t: "shards_ok getRoleShard shardCount ?t" "online ?t = fold report_map reqs Map.empty"
    using reports_map [OF ok(1), of reqs] ok(2) by simp_all
  have "GetGameID r ?t = (case filter (\<lambda>q. lr_RoleID q = r) reqs of
       [] \<Rightarrow> (0, False)
     | q # qs \<Rightarrow> if lr_Login (last (q # qs)) then (ucast (lr_GameID (last (q # qs))), True) else (0, False))"
    unfolding GetGameID_def t(2) fold_report_map
    by (cases "filter (\<lambda>q. lr_RoleID q = r) reqs") (simp_all add: report_val_def)
  moreover have "online_Count ?t = card {r. snd (GetGameID r ?t)}"
    using os.count_get [OF t(1)] by (simp add: online_Count_def map_len_def GetGameID_def dom_def option.case_eq_if)
  ultimately show ?thesis
    using used_shards by (simp add: new_onlines_def shards_new_def shardCount_def)
qed

section \<open>Relaying\<close>

text \<open>The message the center sends for one it is to relay, with the cell of the bus it belongs to.\<close>

definition relay_msg :: "u8 \<Rightarrow> u8 \<Rightarrow> onlines \<Rightarrow> 'u message \<Rightarrow> (slot \<times> unit message) option" where
  "relay_msg ty i t c = (let h = Head c in case GetGameID (ActorID h) t of (gameID, ok) \<Rightarrow>
     if ok then Some (SNode (unat (ToSer h)) (unat gameID),
       \<lparr>Head = \<lparr>ActorID = ActorID h, SesID = SesID h, MsgID = MsgID h, Flag = Normal, FromSer = ty, FromSerID = i,
          ToSer = ToSer h, ToSerID = gameID\<rparr>, Data = message.Data c, U = None, reply = []\<rparr>)
     else None)"

definition relay_ok :: "onlines \<Rightarrow> 'u message \<Rightarrow> bool" where
  "relay_ok t c \<longleftrightarrow> Flag (Head c) = Forward \<and> Server_name (int (unat (ToSer (Head c)))) \<noteq> None
     \<and> unat (fst (GetGameID (ActorID (Head c)) t)) < 64"

fun center_run :: "((nat option \<times> nat option) \<times> 'u message) list \<Rightarrow> 'u center \<Rightarrow> 'u center option" where
  "center_run [] ce = Some ce"
| "center_run ((picks, c) # ms) ce = Option.bind (center_OnServerMsg picks c ce) (center_run ms)"

lemma relay_one:
  assumes bus: "bus_inv (ce_bus ce) sent" "\<not> bs_closed (ce_bus ce)" and c: "relay_ok (am_state (ce_actors ce)) c"
  shows "\<exists>bs. center_OnServerMsg picks c ce = Some (ce\<lparr>ce_bus := bs\<rparr>) \<and> \<not> bs_closed bs
    \<and> bus_inv bs (\<lambda>sl. sent sl @ slot_msgs (relay_msg (bs_serType (ce_bus ce)) (bs_serID (ce_bus ce)) (am_state (ce_actors ce))) sl [c])
    \<and> bs_serType bs = bs_serType (ce_bus ce) \<and> bs_serID bs = bs_serID (ce_bus ce)"
proof -
  let ?h = "Head c" and ?t = "am_state (ce_actors ce)"
  obtain node ok where g: "GetGameID (ActorID ?h) ?t = (node, ok)" by (metis surj_pair)
  show ?thesis
  proof (cases ok)
    case False
    then show ?thesis using bus c g
      by (intro exI [of _ "ce_bus ce"]) (simp add: center_OnServerMsg_def relay_ok_def slot_msgs_one relay_msg_def Let_def)
  next
    case True
    let ?tg = "ToNode (int (unat (ToSer ?h))) node"
    have tg: "target_ok ?tg" using c g by (simp add: relay_ok_def)
    obtain bs where bs: "send_to ?tg picks (MsgID ?h) (message.Data c) (ActorID ?h) (SesID ?h) (ce_bus ce) = Some (bs, None)"
      "bus_inv bs (sent(target_slot ?tg := sent (target_slot ?tg) @
         [sent_msg (bs_serType (ce_bus ce)) (bs_serID (ce_bus ce)) ?tg (MsgID ?h) (message.Data c) (ActorID ?h) (SesID ?h)]))"
      "bs_closed bs = bs_closed (ce_bus ce)" "bs_serType bs = bs_serType (ce_bus ce)" "bs_serID bs = bs_serID (ce_bus ce)"
      using send_to_ok [OF bus tg, of picks "MsgID ?h" "message.Data c" "ActorID ?h" "SesID ?h"] by auto
    have "sent(target_slot ?tg := sent (target_slot ?tg) @
         [sent_msg (bs_serType (ce_bus ce)) (bs_serID (ce_bus ce)) ?tg (MsgID ?h) (message.Data c) (ActorID ?h) (SesID ?h)])
      = (\<lambda>sl. sent sl @ slot_msgs (relay_msg (bs_serType (ce_bus ce)) (bs_serID (ce_bus ce)) ?t) sl [c])"
      using True g by (auto simp: slot_msgs_one relay_msg_def Let_def sent_msg_def)
    then show ?thesis using bs bus True g c
      by (intro exI [of _ bs]) (simp add: center_OnServerMsg_def relay_ok_def Let_def)
  qed
qed

lemma relay_all:
  assumes "bus_inv (ce_bus ce) sent" "\<not> bs_closed (ce_bus ce)" "\<forall>c \<in> set (map snd ms). relay_ok (am_state (ce_actors ce)) c"
  shows "\<exists>ce'. center_run ms ce = Some ce' \<and> \<not> bs_closed (ce_bus ce') \<and> bus_inv (ce_bus ce')
    (\<lambda>sl. sent sl @ slot_msgs (relay_msg (bs_serType (ce_bus ce)) (bs_serID (ce_bus ce)) (am_state (ce_actors ce))) sl (map snd ms))"
  using assms
proof (induction ms arbitrary: ce sent)
  case Nil
  then show ?case by (simp add: slot_msgs_Nil)
next
  case (Cons m ms)
  obtain picks c where m: "m = (picks, c)" by (metis surj_pair)
  let ?f = "relay_msg (bs_serType (ce_bus ce)) (bs_serID (ce_bus ce)) (am_state (ce_actors ce))"
  obtain bs where bs: "center_OnServerMsg picks c ce = Some (ce\<lparr>ce_bus := bs\<rparr>)" "\<not> bs_closed bs"
    "bus_inv bs (\<lambda>sl. sent sl @ slot_msgs ?f sl [c])" "bs_serType bs = bs_serType (ce_bus ce)" "bs_serID bs = bs_serID (ce_bus ce)"
    using relay_one [OF Cons.prems(1,2), of c picks] Cons.prems(3) by (auto simp: m)
  have "slot_msgs ?f sl [c] @ slot_msgs ?f sl (map snd ms) = slot_msgs ?f sl (map snd (m # ms))" for sl
    by (simp add: m slot_msgs_Cons [of _ _ c "map snd ms"])
  then show ?case
    using Cons.IH [of "ce\<lparr>ce_bus := bs\<rparr>" "\<lambda>sl. sent sl @ slot_msgs ?f sl [c]"] bs Cons.prems(3) by (simp add: m)
qed

text \<open>Messages for no session that arrive at a game server: those for a registered role end up in its mailbox.\<close>

lemma game_deliver_one:
  fixes g :: "('u, 'w, 's) game" and handle :: "'u message \<Rightarrow> 's \<Rightarrow> 's"
  assumes "SesID (Head m) = 0" "reg_get r (rw_reg (gm_roles g)) = Some a" "\<forall>r'. reg_get r' (rw_reg (gm_roles g)) = Some a \<longrightarrow> r' = r"
    "IDAccBegin < r" and q: "\<not> sq_closed (events (rw_box (gm_roles g) a))"
    "length (sq_write (events (rw_box (gm_roles g) a))) + length (filter (\<lambda>m. ActorID (Head m) = r) [m]) \<le> sq_maxSize (events (rw_box (gm_roles g) a))"
  defines "g' \<equiv> game_OnServerMsg handle m g"
  shows "rw_reg (gm_roles g') = rw_reg (gm_roles g)
    \<and> sq_write (events (rw_box (gm_roles g') a)) = sq_write (events (rw_box (gm_roles g) a))
        @ map (\<lambda>m. \<lparr>evt_Ctx = m, evt_Func = None\<rparr>) (filter (\<lambda>m. ActorID (Head m) = r) [m])
    \<and> \<not> sq_closed (events (rw_box (gm_roles g') a))
    \<and> sq_maxSize (events (rw_box (gm_roles g') a)) = sq_maxSize (events (rw_box (gm_roles g) a))"
proof -
  let ?w = "gm_roles g" and ?e = "\<lparr>evt_Ctx = m, evt_Func = None\<rparr>"
  show ?thesis
  proof (cases "ActorID (Head m) = r")
    case True
    have "Push (events (rw_box ?w a)) ?e = (Wake (append_write (events (rw_box ?w a)) ?e), None)"
      using q True by (simp add: Push_room)
    moreover have "gm_roles g' = fst (push_event a ?e ?w)"
      using assms(1,2,4) True
      by (simp add: g'_def game_OnServerMsg_def Let_def Dispatch_def split: prod.split option.split)
    ultimately show ?thesis
      using q(1) True by (simp add: push_event_box queue_simps)
  next
    case False
    have d: "rw_reg (fst (Dispatch k ?e ?w)) = rw_reg ?w \<and> rw_box (fst (Dispatch k ?e ?w)) a = rw_box ?w a" if "k \<noteq> r" for k
      using that assms(3)
      by (auto simp: Dispatch_def push_event_def split: option.split prod.split)
    show ?thesis using assms(1,5) False d [OF False] by (auto simp: g'_def game_OnServerMsg_def Let_def)
  qed
qed

lemma game_deliver:
  assumes "\<forall>m \<in> set ms. SesID (Head m) = 0" "reg_get r (rw_reg (gm_roles g)) = Some a"
    "\<forall>r'. reg_get r' (rw_reg (gm_roles g)) = Some a \<longrightarrow> r' = r" "IDAccBegin < r" "\<not> sq_closed (events (rw_box (gm_roles g) a))"
    "length (sq_write (events (rw_box (gm_roles g) a))) + length (filter (\<lambda>m. ActorID (Head m) = r) ms) \<le> sq_maxSize (events (rw_box (gm_roles g) a))"
  shows "sq_write (events (rw_box (gm_roles (fold (game_OnServerMsg handle) ms g)) a)) = sq_write (events (rw_box (gm_roles g) a))
        @ map (\<lambda>m. \<lparr>evt_Ctx = m, evt_Func = None\<rparr>) (filter (\<lambda>m. ActorID (Head m) = r) ms)"
  using assms
proof (induction ms arbitrary: g)
  case Nil
  show ?case by simp
next
  case (Cons m ms)
  let ?g = "game_OnServerMsg handle m g"
  have "length (sq_write (events (rw_box (gm_roles g) a))) + length (filter (\<lambda>m. ActorID (Head m) = r) [m]) \<le> sq_maxSize (events (rw_box (gm_roles g) a))"
    using Cons.prems(6) by (auto split: if_splits)
  note one = game_deliver_one [OF _ Cons.prems(2-5) this, of handle]
  have m: "SesID (Head m) = 0" using Cons.prems(1) by simp
  have reg: "rw_reg (gm_roles ?g) = rw_reg (gm_roles g)" and wr: "sq_write (events (rw_box (gm_roles ?g) a)) = sq_write (events (rw_box (gm_roles g) a))
        @ map (\<lambda>m. \<lparr>evt_Ctx = m, evt_Func = None\<rparr>) (filter (\<lambda>m. ActorID (Head m) = r) [m])"
    and cl: "\<not> sq_closed (events (rw_box (gm_roles ?g) a))"
    and mx: "sq_maxSize (events (rw_box (gm_roles ?g) a)) = sq_maxSize (events (rw_box (gm_roles g) a))"
    using one [OF m] by blast+
  have "sq_write (events (rw_box (gm_roles (fold (game_OnServerMsg handle) ms ?g)) a)) = sq_write (events (rw_box (gm_roles ?g) a))
        @ map (\<lambda>m. \<lparr>evt_Ctx = m, evt_Func = None\<rparr>) (filter (\<lambda>m. ActorID (Head m) = r) ms)"
  proof (rule Cons.IH)
    show "\<forall>m \<in> set ms. SesID (Head m) = 0" using Cons.prems(1) by simp
    show "reg_get r (rw_reg (gm_roles ?g)) = Some a" using Cons.prems(2) by (simp only: reg)
    show "\<forall>r'. reg_get r' (rw_reg (gm_roles ?g)) = Some a \<longrightarrow> r' = r" using Cons.prems(3) by (simp only: reg)
    show "length (sq_write (events (rw_box (gm_roles ?g) a))) + length (filter (\<lambda>m. ActorID (Head m) = r) ms) \<le> sq_maxSize (events (rw_box (gm_roles ?g) a))"
      unfolding wr mx using Cons.prems(6) by (simp split: if_splits)
  qed (fact Cons.prems(4) cl)+
  then show ?case by (simp add: wr)
qed

lemma relay_msg_fields:
  "relay_msg ty i t c = Some (sl, m) \<Longrightarrow>
     SesID (Head m) = SesID (Head c) \<and> MsgID (Head m) = MsgID (Head c) \<and> message.Data m = message.Data c"
  by (auto simp: relay_msg_def Let_def split: if_splits prod.splits)

lemma relayed_to_role:
  assumes "GetGameID r t = (node, True)" "\<forall>c \<in> set cs. unat (ToSer (Head c)) = n"
  shows "filter (\<lambda>m. ActorID (Head m) = r) (slot_msgs (relay_msg ty i t) (SNode n (unat node)) cs)
    = map (\<lambda>c. snd (the (relay_msg ty i t c))) (filter (\<lambda>c. ActorID (Head c) = r) cs)"
  using assms
proof (induction cs)
  case (Cons c cs)
  then show ?case
    by (cases "GetGameID (ActorID (Head c)) t")
      (auto simp: slot_msgs_Cons [of _ _ c cs] slot_msgs_one relay_msg_def Let_def)
qed (simp add: slot_msgs_Nil)

end
