(* ===== verification/Lock.thy ===== *)
theory Lock
  imports Model_Keys
begin

text \<open>
  Distributed locks, \<^verbatim>\<open>src/pkg/lock\<close>: the lock that does not wait (\<^verbatim>\<open>simple.go\<close>), optimistic updates (\<^verbatim>\<open>optimistic_lock.go\<close>) and
  the lock around a function (\<^verbatim>\<open>lock.go\<close>).  Redis and redsync are parameters.
\<close>

section \<open>The simple lock\<close>

text \<open>
  What the lock uses of Redis: \<^verbatim>\<open>SETNX\<close>, which says whether it set the key (\<^term>\<open>None\<close>: an error), and the \<^verbatim>\<open>get\<close> and \<^verbatim>\<open>del\<close> of the
  script, which Redis runs as a whole.  The client sends a number as its decimal form.
\<close>

record 'w lock_store =
  ls_SetNX :: "string \<Rightarrow> string \<Rightarrow> 'w \<Rightarrow> bool option \<times> 'w"
  ls_get :: "string \<Rightarrow> 'w \<Rightarrow> string option"
  ls_del :: "string \<Rightarrow> 'w \<Rightarrow> 'w"

record SimpleLock =
  lk_lockKey :: string
  lk_lockValue :: int

definition NewSimpleLock :: "int \<Rightarrow> string \<Rightarrow> SimpleLock" where
  "NewSimpleLock i lockKey = \<lparr>lk_lockKey = lockKey, lk_lockValue = i\<rparr>"

definition SimpleLock_Lock :: "'w lock_store \<Rightarrow> SimpleLock \<Rightarrow> 'w \<Rightarrow> bool \<times> 'w" where
  "SimpleLock_Lock R l w = (case ls_SetNX R (lk_lockKey l) (Itoa (lk_lockValue l)) w of
     (None, w') \<Rightarrow> (False, w') | (Some result, w') \<Rightarrow> (result, w'))"

definition SimpleLock_Unlock :: "'w lock_store \<Rightarrow> SimpleLock \<Rightarrow> 'w \<Rightarrow> 'w" where
  "SimpleLock_Unlock R l w =
     (if ls_get R (lk_lockKey l) w = Some (Itoa (lk_lockValue l)) then ls_del R (lk_lockKey l) w else w)"

text \<open>
  The documented behaviour of the store.  A \<^verbatim>\<open>SETNX\<close> that reports an error may have been carried out or not.
\<close>

definition SetNX_ok :: "'w lock_store \<Rightarrow> string \<Rightarrow> string \<Rightarrow> 'w \<Rightarrow> bool option \<Rightarrow> 'w \<Rightarrow> bool" where
  "SetNX_ok R k v w res w' \<longleftrightarrow>
     (res = Some True \<longrightarrow> ls_get R k w = None \<and> ls_get R k w' = Some v) \<and>
     (res = Some False \<longrightarrow> ls_get R k w \<noteq> None) \<and>
     (ls_get R k w \<noteq> None \<longrightarrow> ls_get R k w' = ls_get R k w) \<and>
     (\<forall>k'. k' \<noteq> k \<longrightarrow> ls_get R k' w' = ls_get R k' w)"

definition lock_laws :: "'w lock_store \<Rightarrow> bool" where
  "lock_laws R \<longleftrightarrow> (\<forall>k v w. SetNX_ok R k v w (fst (ls_SetNX R k v w)) (snd (ls_SetNX R k v w)))
     \<and> (\<forall>k k' w. ls_get R k' (ls_del R k w) = (if k' = k then None else ls_get R k' w))"

text \<open>
  Runs of any number of lockers on one store.  A locker holds its lock from a successful \<^verbatim>\<open>Lock\<close> until it calls \<^verbatim>\<open>Unlock\<close> or the
  key expires; a locker whose key expired may still call \<^verbatim>\<open>Unlock\<close> later.
\<close>

datatype lock_step = Do_Lock nat | Do_Unlock nat | Expire string

record 'w lock_sys =
  sy_store :: 'w
  sy_holds :: "nat set"

fun lock_do :: "'w lock_store \<Rightarrow> (nat \<Rightarrow> SimpleLock) \<Rightarrow> lock_step \<Rightarrow> 'w lock_sys \<Rightarrow> 'w lock_sys" where
  "lock_do R L (Do_Lock i) s = (case SimpleLock_Lock R (L i) (sy_store s) of (ok, w) \<Rightarrow>
     \<lparr>sy_store = w, sy_holds = (if ok then insert i (sy_holds s) else sy_holds s)\<rparr>)"
| "lock_do R L (Do_Unlock i) s = \<lparr>sy_store = SimpleLock_Unlock R (L i) (sy_store s), sy_holds = sy_holds s - {i}\<rparr>"
| "lock_do R L (Expire k) s = \<lparr>sy_store = ls_del R k (sy_store s), sy_holds = {i \<in> sy_holds s. lk_lockKey (L i) \<noteq> k}\<rparr>"

definition lock_inv :: "'w lock_store \<Rightarrow> (nat \<Rightarrow> SimpleLock) \<Rightarrow> 'w lock_sys \<Rightarrow> bool" where
  "lock_inv R L s \<longleftrightarrow> (\<forall>i \<in> sy_holds s. ls_get R (lk_lockKey (L i)) (sy_store s) = Some (Itoa (lk_lockValue (L i))))"

lemma SetNX_law:
  assumes "lock_laws R" "ls_SetNX R k v w = (res, w')"
  shows "res = Some True \<Longrightarrow> ls_get R k w = None \<and> ls_get R k w' = Some v" "res = Some False \<Longrightarrow> ls_get R k w \<noteq> None"
    "ls_get R k w \<noteq> None \<Longrightarrow> ls_get R k w' = ls_get R k w" "k' \<noteq> k \<Longrightarrow> ls_get R k' w' = ls_get R k' w"
proof -
  have "SetNX_ok R k v w res w'" using assms by (metis lock_laws_def fst_conv snd_conv)
  then show "res = Some True \<Longrightarrow> ls_get R k w = None \<and> ls_get R k w' = Some v" "res = Some False \<Longrightarrow> ls_get R k w \<noteq> None"
    "ls_get R k w \<noteq> None \<Longrightarrow> ls_get R k w' = ls_get R k w" "k' \<noteq> k \<Longrightarrow> ls_get R k' w' = ls_get R k' w"
    by (auto simp: SetNX_ok_def)
qed

lemma del_law: "lock_laws R \<Longrightarrow> ls_get R k' (ls_del R k w) = (if k' = k then None else ls_get R k' w)"
  by (simp add: lock_laws_def)

lemma lock_do_inv:
  assumes laws: "lock_laws R" and inj: "inj (\<lambda>i. lk_lockValue (L i))" and inv: "lock_inv R L s"
  shows "lock_inv R L (lock_do R L st s)"
proof (cases st)
  case (Do_Lock i)
  let ?k = "lk_lockKey (L i)" and ?v = "Itoa (lk_lockValue (L i))"
  obtain res w where w: "ls_SetNX R ?k ?v (sy_store s) = (res, w)" by (metis surj_pair)
  note law = SetNX_law [OF laws w]
  have "ls_get R (lk_lockKey (L j)) w = Some (Itoa (lk_lockValue (L j)))" if "j \<in> sy_holds s" for j
    using inv that law(3) law(4) [of "lk_lockKey (L j)"] by (cases "lk_lockKey (L j) = ?k") (auto simp: lock_inv_def)
  then show ?thesis
    using law(1) by (auto simp: Do_Lock lock_inv_def SimpleLock_Lock_def w split: option.split)
next
  case (Do_Unlock i)
  have other: "Itoa (lk_lockValue (L j)) \<noteq> Itoa (lk_lockValue (L i))" if "j \<noteq> i" for j
    using inj that Itoa_inj by (auto dest: injD)
  have "ls_get R (lk_lockKey (L j)) (SimpleLock_Unlock R (L i) (sy_store s)) = Some (Itoa (lk_lockValue (L j)))"
    if "j \<in> sy_holds s" "j \<noteq> i" for j
  proof -
    have "ls_get R (lk_lockKey (L j)) (sy_store s) = Some (Itoa (lk_lockValue (L j)))" using inv that(1) by (simp add: lock_inv_def)
    then show ?thesis using other [OF that(2)] by (auto simp: SimpleLock_Unlock_def del_law [OF laws])
  qed
  then show ?thesis by (simp add: Do_Unlock lock_inv_def)
next
  case (Expire k)
  then show ?thesis using inv by (auto simp: lock_inv_def del_law [OF laws])
qed

lemma lock_run_inv:
  assumes "lock_laws R" "inj (\<lambda>i. lk_lockValue (L i))"
  shows "lock_inv R L s \<Longrightarrow> lock_inv R L (fold (lock_do R L) sts s)"
  by (induction sts arbitrary: s) (simp_all add: lock_do_inv [OF assms])

text \<open>
  C35. The simple lock excludes.  Any number of lockers with different lock values take and release locks on one store
  in any order, and keys expire at any time.  At every moment at most one locker holds the lock of a key; while one holds
  it no other locker gets it, and no \<^verbatim>\<open>Unlock\<close> of another locker, such as one whose lock expired, takes it away; after the
  holder's own \<^verbatim>\<open>Unlock\<close> the key is free.
\<close>

theorem simple_lock_excludes:
  assumes "lock_laws R" "inj (\<lambda>i. lk_lockValue (L i))"
    and "fold (lock_do R L) sts \<lparr>sy_store = w, sy_holds = {}\<rparr> = s" "i \<in> sy_holds s"
  shows "(\<forall>j \<in> sy_holds s. lk_lockKey (L j) = lk_lockKey (L i) \<longrightarrow> j = i)
    \<and> (\<forall>j. lk_lockKey (L j) = lk_lockKey (L i) \<longrightarrow> \<not> fst (SimpleLock_Lock R (L j) (sy_store s)))
    \<and> (\<forall>j. j \<noteq> i \<longrightarrow> ls_get R (lk_lockKey (L i)) (SimpleLock_Unlock R (L j) (sy_store s)) = Some (Itoa (lk_lockValue (L i))))
    \<and> ls_get R (lk_lockKey (L i)) (SimpleLock_Unlock R (L i) (sy_store s)) = None"
proof -
  have inv: "lock_inv R L s" unfolding assms(3) [symmetric] by (rule lock_run_inv [OF assms(1,2)]) (simp add: lock_inv_def)
  then have held: "ls_get R (lk_lockKey (L i)) (sy_store s) = Some (Itoa (lk_lockValue (L i)))"
    using assms(4) by (simp add: lock_inv_def)
  have val: "Itoa (lk_lockValue (L j)) = Itoa (lk_lockValue (L i)) \<longleftrightarrow> j = i" for j
    using assms(2) Itoa_inj by (auto dest: injD)
  have "\<not> fst (SimpleLock_Lock R (L j) (sy_store s))" if "lk_lockKey (L j) = lk_lockKey (L i)" for j
  proof -
    obtain res w' where "ls_SetNX R (lk_lockKey (L j)) (Itoa (lk_lockValue (L j))) (sy_store s) = (res, w')" by (metis surj_pair)
    then show ?thesis
      using SetNX_law(1) [OF assms(1)] held that by (auto simp: SimpleLock_Lock_def split: option.split)
  qed
  moreover have "\<forall>j \<in> sy_holds s. lk_lockKey (L j) = lk_lockKey (L i) \<longrightarrow> j = i"
    using inv held val by (metis lock_inv_def option.inject)
  ultimately show ?thesis
    using held val by (auto simp: SimpleLock_Unlock_def del_law [OF assms(1)])
qed

definition demo_store :: "(string \<rightharpoonup> string) lock_store" where
  "demo_store = \<lparr>ls_SetNX = \<lambda>k v w. if w k = None then (Some True, w(k \<mapsto> v)) else (Some False, w), ls_get = \<lambda>k w. w k,
     ls_del = \<lambda>k w. w(k := None)\<rparr>"

lemma demo_lock_laws: "lock_laws demo_store"
  by (auto simp: lock_laws_def SetNX_ok_def demo_store_def)

text \<open>Locker 1 lets its lock expire, locker 2 takes it, and the late \<^verbatim>\<open>Unlock\<close> of locker 1 does not release it.\<close>

theorem simple_lock_excludes_witness:
  "\<exists>s. s = fold (lock_do demo_store (\<lambda>i. NewSimpleLock (int i) ''k'')) [Do_Lock 1, Do_Lock 2, Expire ''k'', Do_Lock 2, Do_Unlock 1]
       \<lparr>sy_store = Map.empty, sy_holds = {}\<rparr>
     \<and> sy_holds s = {2} \<and> sy_store s ''k'' = Some ''2''
     \<and> \<not> fst (SimpleLock_Lock demo_store (NewSimpleLock 3 ''k'') (sy_store s))"
proof -
  let ?L = "\<lambda>i. NewSimpleLock (int i) ''k''"
  have inj: "inj (\<lambda>i. lk_lockValue (?L i))" by (simp add: inj_def NewSimpleLock_def)
  have n: "Itoa (int 1) = ''1''" "Itoa (int 2) = ''2''" by code_simp+
  obtain s where run: "fold (lock_do demo_store ?L) [Do_Lock 1, Do_Lock 2, Expire ''k'', Do_Lock 2, Do_Unlock 1]
      \<lparr>sy_store = Map.empty, sy_holds = {}\<rparr> = s" by simp
  then have s: "sy_holds s = {2}" "sy_store s ''k'' = Some ''2''"
    using n by (auto simp: SimpleLock_Lock_def SimpleLock_Unlock_def NewSimpleLock_def demo_store_def)
  have "2 \<in> sy_holds s" using s by simp
  from simple_lock_excludes [OF demo_lock_laws inj run this] have all: "\<forall>j. \<not> fst (SimpleLock_Lock demo_store (?L j) (sy_store s))"
    by (simp add: NewSimpleLock_def)
  from all [rule_format, of 3] show ?thesis using s run by auto
qed

section \<open>Optimistic updates\<close>

text \<open>
  One call of \<^verbatim>\<open>Watch\<close> runs the function of the caller and, when it returns no error, the commands it collected; Redis refuses
  them when the watched key has changed.  \<open>watch w\<close> is what such a call makes of the store, and what it returns.
\<close>

datatype tx_result = Tx_ok | Tx_failed | Tx_error string

abbreviation maxRetries :: nat where
  "maxRetries \<equiv> 5"

fun optimistic_loop :: "('w \<Rightarrow> 'w \<times> tx_result) \<Rightarrow> nat \<Rightarrow> 'w \<Rightarrow> 'w \<times> string option" where
  "optimistic_loop watch 0 w = (w, None)"
| "optimistic_loop watch (Suc n) w = (case watch w of
     (w', Tx_ok) \<Rightarrow> (w', None)
   | (w', Tx_failed) \<Rightarrow> optimistic_loop watch n w'
   | (w', Tx_error err) \<Rightarrow> (w', Some err))"

definition OptimisticLockedDo :: "('w \<Rightarrow> 'w \<times> tx_result) \<Rightarrow> 'w \<Rightarrow> 'w \<times> string option" where
  "OptimisticLockedDo watch w = optimistic_loop watch maxRetries w"

text \<open>The store after \<open>k\<close> refused attempts.\<close>

fun refused :: "('w \<Rightarrow> 'w \<times> tx_result) \<Rightarrow> nat \<Rightarrow> 'w \<Rightarrow> 'w option" where
  "refused watch 0 w = Some w"
| "refused watch (Suc n) w = (case watch w of (w', Tx_failed) \<Rightarrow> refused watch n w' | _ \<Rightarrow> None)"

lemma optimistic_loop_cases:
  "(\<exists>k w1 w2. k < n \<and> refused watch k w = Some w1 \<and> watch w1 = (w2, Tx_ok) \<and> optimistic_loop watch n w = (w2, None))
   \<or> (\<exists>k w1 w2 err. k < n \<and> refused watch k w = Some w1 \<and> watch w1 = (w2, Tx_error err) \<and> optimistic_loop watch n w = (w2, Some err))
   \<or> (\<exists>w1. refused watch n w = Some w1 \<and> optimistic_loop watch n w = (w1, None))"
proof (induction n arbitrary: w)
  case (Suc n)
  obtain w' res where w': "watch w = (w', res)" by (metis surj_pair)
  show ?case
  proof (cases res)
    case Tx_ok
    then show ?thesis using w' by (intro disjI1 exI [of _ 0]) simp
  next
    case (Tx_error err)
    then show ?thesis using w' by (intro disjI2 disjI1 exI [of _ 0]) simp
  next
    case Tx_failed
    have "refused watch (Suc k) w = refused watch k w'" for k using w' Tx_failed by simp
    moreover have "optimistic_loop watch (Suc n) w = optimistic_loop watch n w'" using w' Tx_failed by simp
    ultimately show ?thesis using Suc.IH [of w'] by (metis Suc_less_eq)
  qed
qed simp

text \<open>
  What an optimistic update returns.  It makes at most five attempts, and stops at the first that Redis does not
  refuse: with no error if the update was carried out, with the error of the function otherwise.  When Redis refuses all
  five, it returns no error either, although nothing was saved.
\<close>

theorem optimistic_update_may_be_lost:
  "((\<exists>k w1 w2. k < 5 \<and> refused watch k w = Some w1 \<and> watch w1 = (w2, Tx_ok) \<and> OptimisticLockedDo watch w = (w2, None))
   \<or> (\<exists>k w1 w2 err. k < 5 \<and> refused watch k w = Some w1 \<and> watch w1 = (w2, Tx_error err) \<and> OptimisticLockedDo watch w = (w2, Some err))
   \<or> (\<exists>w1. refused watch 5 w = Some w1 \<and> OptimisticLockedDo watch w = (w1, None)))
   \<and> OptimisticLockedDo (\<lambda>w. (w, Tx_failed)) w = (w, None)"
  using optimistic_loop_cases [of 5 watch w] by (simp_all add: OptimisticLockedDo_def numeral_eq_Suc)

section \<open>A function under a lock\<close>

text \<open>\<open>lock\<close> and \<open>unlock\<close> are the mutex of redsync; the function returns an error or none, or panics.\<close>

datatype call_result = Returned_err "string option" | Panic

definition LockedDo :: "(string \<Rightarrow> 'w \<Rightarrow> 'w \<times> string option) \<Rightarrow> (string \<Rightarrow> 'w \<Rightarrow> 'w) \<Rightarrow> string \<Rightarrow> ('w \<Rightarrow> 'w \<times> call_result) \<Rightarrow> 'w
    \<Rightarrow> 'w \<times> call_result" where
  "LockedDo lock unlock key fn w = (case lock (''lock:'' @ key) w of
     (w1, Some err) \<Rightarrow> (w1, Returned_err (Some err))
   | (w1, None) \<Rightarrow> (case fn w1 of (w2, res) \<Rightarrow> (unlock (''lock:'' @ key) w2, res)))"

end
