(* ===== verification/Rand.thy ===== *)
theory Rand
  imports Base "HOL-Library.Multiset"
begin

text \<open>
  Random choices, \<^verbatim>\<open>src/pkg/util/rand.go\<close>, and bit flags, \<^verbatim>\<open>src/pkg/util/flag.go\<close>.  The number the random source returns is an
  argument: \<^verbatim>\<open>Int64N(n)\<close> and \<^verbatim>\<open>IntN(n)\<close> return the argument modulo \<open>n\<close>, \<^verbatim>\<open>rand.N\<close> on \<^verbatim>\<open>uint64\<close> the same on words.  Weights are
  positive \<^verbatim>\<open>int32\<close>, so their \<^verbatim>\<open>int64\<close> sum does not overflow.
\<close>

section \<open>By weight\<close>

record 'a RandByWeight =
  rb_datas :: "(int \<times> 'a) list"
  rb_max :: int

definition NewRandByWeight :: "'a RandByWeight" where
  "NewRandByWeight = \<lparr>rb_datas = [], rb_max = 0\<rparr>"

definition Valid :: "'a RandByWeight \<Rightarrow> bool" where
  "Valid r \<longleftrightarrow> rb_datas r \<noteq> [] \<and> rb_max r > 0"

definition weight_Add :: "int \<Rightarrow> 'a \<Rightarrow> 'a RandByWeight \<Rightarrow> 'a RandByWeight" where
  "weight_Add weight v r = (if weight \<le> 0 then r else r\<lparr>rb_datas := rb_datas r @ [(weight, v)], rb_max := rb_max r + weight\<rparr>)"

text \<open>The loop of \<^verbatim>\<open>Get\<close> and \<^verbatim>\<open>GetAndDelete\<close>: the first index at which the sum of the weights exceeds \<open>rate\<close>.\<close>

fun draw :: "int \<Rightarrow> int \<Rightarrow> (int \<times> 'a) list \<Rightarrow> nat option" where
  "draw rate cr [] = None"
| "draw rate cr (d # ds) = (if cr + fst d > rate then Some 0 else map_option Suc (draw rate (cr + fst d) ds))"

definition Int64N :: "nat \<Rightarrow> int \<Rightarrow> int" where
  "Int64N x n = int x mod n"

definition weight_Get :: "nat \<Rightarrow> 'a RandByWeight \<Rightarrow> 'a option" where
  "weight_Get x r = (if \<not> Valid r then None
     else map_option (\<lambda>i. snd (rb_datas r ! i)) (draw (Int64N x (rb_max r)) 0 (rb_datas r)))"

text \<open>The drawn entry is overwritten by the last one and the slice shortened.\<close>

definition swap_remove :: "nat \<Rightarrow> 'b list \<Rightarrow> 'b list" where
  "swap_remove i xs = take (length xs - 1) (xs[i := xs ! (length xs - 1)])"

definition GetAndDelete :: "nat \<Rightarrow> 'a RandByWeight \<Rightarrow> 'a option \<times> 'a RandByWeight" where
  "GetAndDelete x r = (if \<not> Valid r then (None, r)
     else (case draw (Int64N x (rb_max r)) 0 (rb_datas r) of
       None \<Rightarrow> (None, r)
     | Some i \<Rightarrow> (Some (snd (rb_datas r ! i)),
         r\<lparr>rb_max := rb_max r - fst (rb_datas r ! i), rb_datas := swap_remove i (rb_datas r)\<rparr>)))"

section \<open>Without repetition\<close>

definition unique_Add :: "'a \<Rightarrow> 'a list \<Rightarrow> 'a list" where
  "unique_Add v xs = xs @ [v]"

definition unique_Get :: "nat \<Rightarrow> 'a list \<Rightarrow> 'a option \<times> 'a list" where
  "unique_Get x xs = (if xs = [] then (None, xs) else let cur = x mod length xs in (Some (xs ! cur), swap_remove cur xs))"

definition unique_Reset :: "'a list \<Rightarrow> 'a list \<Rightarrow> 'a list" where
  "unique_Reset vals xs = take 0 xs @ vals"

section \<open>In a range\<close>

text \<open>
  The generic functions for an integer type of any width and either signedness: the comparison and the conversion to
  \<^verbatim>\<open>uint64\<close>, which extends the sign, are those of the type.
\<close>

definition to_uint64 :: "bool \<Rightarrow> 'a::len word \<Rightarrow> u64" where
  "to_uint64 sg v = (if sg then scast v else ucast v)"

definition less_of :: "bool \<Rightarrow> 'a::len word \<Rightarrow> 'a word \<Rightarrow> bool" where
  "less_of sg a b = (if sg then a <s b else a < b)"

definition rand_N :: "u64 \<Rightarrow> u64 \<Rightarrow> u64" where
  "rand_N x n = x mod n"

definition RandRange :: "bool \<Rightarrow> u64 \<Rightarrow> 'a::len word \<Rightarrow> 'a word \<Rightarrow> 'a word" where
  "RandRange sg x lo hi = (if lo = hi then lo
     else let (lo, hi) = (if less_of sg hi lo then (hi, lo) else (lo, hi));
              diff = to_uint64 sg hi - to_uint64 sg lo
          in ucast (to_uint64 sg lo + rand_N x diff))"

definition RandRangeInc :: "bool \<Rightarrow> u64 \<Rightarrow> 'a::len word \<Rightarrow> 'a word \<Rightarrow> 'a word" where
  "RandRangeInc sg x lo hi = (if lo = hi then lo
     else let (lo, hi) = (if less_of sg hi lo then (hi, lo) else (lo, hi));
              diff = to_uint64 sg hi - to_uint64 sg lo
          in if diff = - 1 then ucast x else ucast (to_uint64 sg lo + rand_N x (diff + 1)))"

definition Happen :: "bool \<Rightarrow> u64 \<Rightarrow> 'a::len word \<Rightarrow> bool" where
  "Happen sg x v = (if v = 0 \<or> less_of sg v 0 then False
     else let val = to_uint64 sg v in if val \<ge> 10000 then True else rand_N x 10000 < val)"

section \<open>Flags\<close>

definition Flag_Add :: "u64 \<Rightarrow> u64 \<Rightarrow> u64" where "Flag_Add f v = v OR f"
definition Flag_Has :: "u64 \<Rightarrow> u64 \<Rightarrow> bool" where "Flag_Has f v \<longleftrightarrow> v AND f \<noteq> 0"
definition Flag_Del :: "u64 \<Rightarrow> u64 \<Rightarrow> u64" where "Flag_Del f v = v AND NOT f"

lemma flag_laws:
  "f \<noteq> 0 \<Longrightarrow> Flag_Has f (Flag_Add f v)" "\<not> Flag_Has f (Flag_Del f v)"
  "g AND f = 0 \<Longrightarrow> Flag_Has g (Flag_Add f v) = Flag_Has g v" "g AND f = 0 \<Longrightarrow> Flag_Has g (Flag_Del f v) = Flag_Has g v"
proof -
  show "f \<noteq> 0 \<Longrightarrow> Flag_Has f (Flag_Add f v)" by (simp add: Flag_Has_def Flag_Add_def and.commute)
  show "\<not> Flag_Has f (Flag_Del f v)" by (simp add: Flag_Has_def Flag_Del_def and.assoc)
  assume d: "g AND f = 0"
  have bits: "\<not> (bit g n \<and> bit f n)" for n using arg_cong [OF d, of "\<lambda>w. bit w n"] by (simp add: bit_and_iff)
  have "(v OR f) AND g = v AND g" by (rule bit_word_eqI) (use bits in \<open>auto simp: bit_simps\<close>)
  then show "Flag_Has g (Flag_Add f v) = Flag_Has g v" by (simp add: Flag_Has_def Flag_Add_def)
  have "(v AND NOT f) AND g = v AND g" by (rule bit_word_eqI) (use bits in \<open>auto simp: bit_simps\<close>)
  then show "Flag_Has g (Flag_Del f v) = Flag_Has g v" by (simp add: Flag_Has_def Flag_Del_def)
qed

section \<open>Fair draws\<close>

definition weights :: "(int \<times> 'a) list \<Rightarrow> int" where
  "weights ds = sum_list (map fst ds)"

definition weight_of :: "'a \<Rightarrow> (int \<times> 'a) list \<Rightarrow> int" where
  "weight_of v ds = sum_list (map (\<lambda>d. if snd d = v then fst d else 0) ds)"

definition rb_ok :: "'a RandByWeight \<Rightarrow> bool" where
  "rb_ok r \<longleftrightarrow> rb_max r = weights (rb_datas r) \<and> (\<forall>d \<in> set (rb_datas r). 0 < fst d)"

lemma weights_nonneg: "\<forall>d \<in> set ds. 0 < fst d \<Longrightarrow> 0 \<le> weights ds"
  by (induction ds) (auto simp: weights_def)

lemma weight_of_nonneg: "\<forall>d \<in> set ds. 0 < fst d \<Longrightarrow> 0 \<le> weight_of v ds"
  by (induction ds) (auto simp: weight_of_def)

lemma weights_pos: "\<forall>d \<in> set ds. 0 < fst d \<Longrightarrow> 0 < weights ds \<longleftrightarrow> ds \<noteq> []"
  using weights_nonneg [of "tl ds"] by (cases ds) (auto simp: weights_def)

lemma draw_some: "cr \<le> rate \<Longrightarrow> rate < cr + weights ds \<Longrightarrow> \<exists>i < length ds. draw rate cr ds = Some i"
proof (induction ds arbitrary: cr)
  case (Cons d ds)
  show ?case
  proof (cases "rate < cr + fst d")
    case False
    then obtain i where "i < length ds" "draw rate (cr + fst d) ds = Some i"
      using Cons.IH [of "cr + fst d"] Cons.prems by (auto simp: weights_def)
    then show ?thesis using False by auto
  qed auto
qed (simp add: weights_def)

definition drawn :: "int \<Rightarrow> int \<Rightarrow> (int \<times> 'a) list \<Rightarrow> 'a option" where
  "drawn rate cr ds = map_option (\<lambda>i. snd (ds ! i)) (draw rate cr ds)"

lemma drawn_Cons: "drawn rate cr (d # ds) = (if cr + fst d > rate then Some (snd d) else drawn rate (cr + fst d) ds)"
  by (cases "draw rate (cr + fst d) ds") (simp_all add: drawn_def)

text \<open>Of the numbers the source may return, as many lead to a value as its weight says.\<close>

lemma drawn_count:
  assumes "\<forall>d \<in> set ds. 0 < fst d"
  shows "card {x. cr \<le> x \<and> x < cr + weights ds \<and> drawn x cr ds = Some v} = nat (weight_of v ds)"
  using assms
proof (induction ds arbitrary: cr)
  case Nil
  then show ?case by (simp add: drawn_def weights_def weight_of_def)
next
  case (Cons d ds)
  let ?c = "cr + fst d"
  have w: "0 < fst d" "0 \<le> weights ds" "0 \<le> weight_of v ds" using Cons.prems weights_nonneg weight_of_nonneg by auto
  have split: "{x. cr \<le> x \<and> x < cr + weights (d # ds) \<and> drawn x cr (d # ds) = Some v}
      = (if snd d = v then {cr..<?c} else {}) \<union> {x. ?c \<le> x \<and> x < ?c + weights ds \<and> drawn x ?c ds = Some v}"
    using w by (auto simp: drawn_Cons weights_def)
  have "finite {x. ?c \<le> x \<and> x < ?c + weights ds \<and> drawn x ?c ds = Some v}"
    by (rule finite_subset [of _ "{?c..<?c + weights ds}"]) auto
  then have "card {x. cr \<le> x \<and> x < cr + weights (d # ds) \<and> drawn x cr (d # ds) = Some v}
      = (if snd d = v then nat (fst d) else 0) + nat (weight_of v ds)"
    unfolding split using Cons.IH [of ?c] Cons.prems by (subst card_Un_disjoint) auto
  then show ?case using w by (simp add: weight_of_def nat_add_distrib)
qed

lemma mset_swap_remove:
  assumes "i < length xs"
  shows "mset (swap_remove i xs) = mset xs - {#xs ! i#}"
proof -
  let ?n = "length xs - 1" and ?ys = "xs[i := xs ! (length xs - 1)]"
  have "Suc ?n = length ?ys" using assms by simp
  then have "?ys = take ?n ?ys @ [?ys ! ?n]" by (metis lessI order_refl take_Suc_conv_app_nth take_all)
  moreover have "?ys ! ?n = xs ! ?n" using assms by (cases "i = ?n") auto
  ultimately have "mset ?ys = mset (take ?n ?ys @ [xs ! ?n])" by simp
  then show ?thesis using assms by (simp add: swap_remove_def mset_update)
qed

lemma weight_Add_ok: "rb_ok r \<Longrightarrow> rb_ok (weight_Add w v r)"
  by (auto simp: weight_Add_def rb_ok_def weights_def)

definition add_entries :: "(int \<times> 'a) list \<Rightarrow> 'a RandByWeight \<Rightarrow> 'a RandByWeight" where
  "add_entries ds r = fold (\<lambda>(w, v). weight_Add w v) ds r"

lemma add_entries_ok: "rb_ok r \<Longrightarrow> rb_ok (add_entries ds r)"
  unfolding add_entries_def by (induction ds arbitrary: r) (auto simp: weight_Add_ok)

lemma add_entries_datas: "rb_datas (add_entries ds r) = rb_datas r @ filter (\<lambda>d. 0 < fst d) ds"
  unfolding add_entries_def by (induction ds arbitrary: r) (auto simp: weight_Add_def)

lemma weights_mset: "weights ds = \<Sum>\<^sub># (image_mset fst (mset ds))"
  by (induction ds) (auto simp: weights_def)

lemma GetAndDelete_ok:
  assumes ok: "rb_ok r" and ne: "rb_datas r \<noteq> []"
  shows "\<exists>v r'. GetAndDelete x r = (Some v, r') \<and> rb_ok r' \<and> mset (map snd (rb_datas r)) = add_mset v (mset (map snd (rb_datas r')))"
proof -
  let ?ds = "rb_datas r"
  have pos: "0 < rb_max r" using ok ne weights_pos [of ?ds] by (simp add: rb_ok_def)
  obtain i where i: "i < length ?ds" "draw (Int64N x (rb_max r)) 0 ?ds = Some i"
    using draw_some [of 0 "Int64N x (rb_max r)" ?ds] ok pos by (auto simp: Int64N_def rb_ok_def)
  let ?r = "r\<lparr>rb_max := rb_max r - fst (?ds ! i), rb_datas := swap_remove i ?ds\<rparr>"
  have ms: "mset ?ds = add_mset (?ds ! i) (mset (swap_remove i ?ds))" using mset_swap_remove [OF i(1)] i(1) by simp
  have "weights ?ds = fst (?ds ! i) + weights (swap_remove i ?ds)" by (simp add: weights_mset ms)
  moreover have "set (swap_remove i ?ds) \<subseteq> set ?ds" using ms by (metis set_mset_add_mset_insert set_mset_mset subset_insertI)
  ultimately have "rb_ok ?r" using ok by (auto simp: rb_ok_def)
  moreover have "mset (map snd ?ds) = add_mset (snd (?ds ! i)) (mset (map snd (rb_datas ?r)))"
    using ms by simp
  ultimately show ?thesis using i pos ne by (simp add: GetAndDelete_def Valid_def)
qed

text \<open>Draws one after the other; the draws from an empty collection fail.\<close>

fun draws :: "nat list \<Rightarrow> 'a RandByWeight \<Rightarrow> 'a list \<times> 'a RandByWeight" where
  "draws [] r = ([], r)"
| "draws (x # xs) r = (case GetAndDelete x r of (res, r') \<Rightarrow> (case draws xs r' of (vs, r'') \<Rightarrow>
     (case res of None \<Rightarrow> vs | Some v \<Rightarrow> v # vs, r'')))"

lemma draws_ok:
  "rb_ok r \<Longrightarrow> draws xs r = (vs, r') \<Longrightarrow> mset vs + mset (map snd (rb_datas r')) = mset (map snd (rb_datas r))
     \<and> length vs = min (length xs) (length (rb_datas r))"
proof (induction xs arbitrary: r vs)
  case (Cons x xs)
  show ?case
  proof (cases "rb_datas r = []")
    case True
    then have "GetAndDelete x r = (None, r)" by (simp add: GetAndDelete_def Valid_def)
    then show ?thesis using Cons.IH [OF Cons.prems(1)] Cons.prems(2) True by (auto split: prod.splits)
  next
    case False
    obtain v r1 where g: "GetAndDelete x r = (Some v, r1)" "rb_ok r1" "mset (map snd (rb_datas r)) = add_mset v (mset (map snd (rb_datas r1)))"
      using GetAndDelete_ok [OF Cons.prems(1) False] by blast
    obtain ws where ws: "draws xs r1 = (ws, r')" "vs = v # ws" using Cons.prems(2) g(1) by (auto split: prod.splits)
    have "length (rb_datas r) = Suc (length (rb_datas r1))" using arg_cong [OF g(3), of size] by simp
    then show ?thesis using Cons.IH [OF g(2) ws(1)] ws(2) g(3) by simp
  qed
qed simp

text \<open>
  C36. Draws by weight are fair and do not repeat.  After any entries have been added (those without a positive weight do
  not count), every number the source may return leads to a value, and the numbers that lead to a value are as many as
  the sum of its weights.  Drawing and deleting returns each entry at most once: after any draws the values returned and
  those that are left are the values added, and draws fail only when nothing is left.
\<close>

theorem weighted_draws_fair:
  assumes "add_entries ds NewRandByWeight = r" "draws xs r = (vs, r')"
  shows "card {x. x < nat (rb_max r) \<and> weight_Get x r = Some v} = nat (\<Sum>d\<leftarrow>filter (\<lambda>d. 0 < fst d) ds. if snd d = v then fst d else 0)
    \<and> rb_max r = (\<Sum>d\<leftarrow>filter (\<lambda>d. 0 < fst d) ds. fst d)
    \<and> (rb_datas r \<noteq> [] \<longrightarrow> (\<forall>x. weight_Get x r \<noteq> None))
    \<and> mset vs + mset (map snd (rb_datas r')) = mset (map snd (filter (\<lambda>d. 0 < fst d) ds))
    \<and> length vs = min (length xs) (length (filter (\<lambda>d. 0 < fst d) ds))"
proof -
  have ok: "rb_ok r" using add_entries_ok [of NewRandByWeight ds] assms(1) by (simp add: rb_ok_def NewRandByWeight_def weights_def)
  have ds: "rb_datas r = filter (\<lambda>d. 0 < fst d) ds" using add_entries_datas [of ds NewRandByWeight] assms(1) by (simp add: NewRandByWeight_def)
  have valid: "Valid r \<longleftrightarrow> rb_datas r \<noteq> []" using ok weights_pos [of "rb_datas r"] by (auto simp: Valid_def rb_ok_def)
  have get: "weight_Get x r = (if rb_datas r = [] then None else drawn (Int64N x (rb_max r)) 0 (rb_datas r))" for x
    by (simp add: weight_Get_def valid drawn_def)
  have "{x. x < nat (rb_max r) \<and> weight_Get x r = Some v} = nat ` {x. 0 \<le> x \<and> x < 0 + weights (rb_datas r) \<and> drawn x 0 (rb_datas r) = Some v}"
    (is "?A = nat ` ?B")
  proof (intro equalityI subsetI)
    fix x assume "x \<in> ?A"
    then have "int x \<in> ?B" using ok by (auto simp: get Int64N_def rb_ok_def split: if_splits)
    then show "x \<in> nat ` ?B" by (rule rev_image_eqI) simp
  next
    fix x assume "x \<in> nat ` ?B"
    then obtain y where y: "y \<in> ?B" "x = nat y" by blast
    have "rb_datas r \<noteq> []" using y by (auto simp: drawn_def)
    then show "x \<in> ?A" using ok y by (simp add: get Int64N_def rb_ok_def)
  qed
  moreover have "card (nat ` ?B) = card ?B" by (rule card_image) (auto simp: inj_on_def)
  moreover have "card ?B = nat (weight_of v (rb_datas r))" by (rule drawn_count) (use ok in \<open>simp add: rb_ok_def\<close>)
  moreover have "weight_Get x r \<noteq> None" if "rb_datas r \<noteq> []" for x
    using draw_some [of 0 "Int64N x (rb_max r)" "rb_datas r"] ok that valid by (auto simp: get drawn_def Int64N_def rb_ok_def Valid_def)
  ultimately show ?thesis
    using ok draws_ok [OF ok assms(2)] by (simp add: ds weight_of_def rb_ok_def weights_def)
qed

theorem weighted_draws_fair_witness:
  "\<exists>r. add_entries [(3, ''a''), (0, ''b''), (1, ''c'')] NewRandByWeight = r
     \<and> card {x. x < nat (rb_max r) \<and> weight_Get x r = Some ''a''} = 3 \<and> rb_max r = 4 \<and> fst (draws [3, 7, 9] r) = [''c'', ''a'']"
proof -
  let ?ds = "[(3, ''a''), (0, ''b''), (1, ''c'')]"
  have r: "add_entries ?ds NewRandByWeight = \<lparr>rb_datas = [(3, ''a''), (1, ''c'')], rb_max = 4\<rparr>" (is "_ = ?r")
    by (simp add: add_entries_def weight_Add_def NewRandByWeight_def)
  have "fst (draws [3, 7, 9] ?r) = [''c'', ''a'']" by (simp add: GetAndDelete_def Valid_def Int64N_def swap_remove_def)
  moreover obtain vs r' where "draws [3, 7, 9] ?r = (vs, r')" by (metis surj_pair)
  from weighted_draws_fair [OF r this, of "''a''"] have "card {x. x < nat (rb_max ?r) \<and> weight_Get x ?r = Some ''a''} = 3" by simp
  ultimately show ?thesis using r by simp
qed

lemma unique_Get_ok:
  assumes "xs \<noteq> []"
  shows "\<exists>v ys. unique_Get x xs = (Some v, ys) \<and> mset xs = add_mset v (mset ys)"
proof -
  have "x mod length xs < length xs" using assms by simp
  then show ?thesis using assms mset_swap_remove [of "x mod length xs" xs] by (simp add: unique_Get_def Let_def)
qed

section \<open>Ranges\<close>

text \<open>The number a word of the type stands for.\<close>

definition val :: "bool \<Rightarrow> 'a::len word \<Rightarrow> int" where
  "val sg w = (if sg then sint w else uint w)"

lemma less_of_val: "less_of sg a b \<longleftrightarrow> val sg a < val sg b"
  by (simp add: less_of_def val_def word_sless_alt word_less_def)

lemma val_inj: "val sg a = val sg b \<longleftrightarrow> a = b"
  by (auto simp: val_def intro: signed_word_eqI unsigned_word_eqI)

lemma to_uint64_val: "to_uint64 sg w = word_of_int (val sg w)"
  by (simp add: to_uint64_def val_def)

lemma val_bounds:
  fixes w :: "'a::len word"
  shows "(if sg then - (2 ^ (LENGTH('a) - 1)) else 0) \<le> val sg w" "val sg w < (if sg then 2 ^ (LENGTH('a) - 1) else 2 ^ LENGTH('a))"
  using sint_ge [of w] sint_lt [of w] uint_bounded [of w] by (auto simp: val_def)

lemma val_word_of_int:
  fixes p q :: "'a::len word"
  assumes "val sg p \<le> k" "k \<le> val sg q"
  shows "val sg (word_of_int k :: 'a word) = k"
proof (cases sg)
  case True
  have "- (2 ^ (LENGTH('a) - 1)) \<le> k" "k < 2 ^ (LENGTH('a) - 1)" using assms val_bounds [of sg p] val_bounds [of sg q] True by auto
  then show ?thesis using True by (simp add: val_def signed_of_int signed_take_bit_int_eq_self_iff)
next
  case False
  have "0 \<le> k" "k < 2 ^ LENGTH('a)" using assms val_bounds [of sg p] val_bounds [of sg q] False by auto
  then show ?thesis using False by (simp add: val_def uint_word_of_int take_bit_int_eq_self_iff)
qed

lemma val_diff_bound:
  fixes p q :: "'a::len word"
  assumes "LENGTH('a) \<le> 64" "val sg p < val sg q"
  shows "0 < val sg q - val sg p" "val sg q - val sg p < 2 ^ 64"
proof -
  have "(2 :: int) ^ LENGTH('a) \<le> 2 ^ 64" using assms(1) by (intro power_increasing) simp_all
  moreover have "(2 :: int) ^ LENGTH('a) = 2 * 2 ^ (LENGTH('a) - 1)" by (metis Suc_pred' len_gt_0 power_Suc)
  ultimately show "val sg q - val sg p < 2 ^ 64" using val_bounds [of sg p] val_bounds [of sg q] by (auto split: if_splits)
  show "0 < val sg q - val sg p" using assms(2) by simp
qed

lemma uint_diff:
  fixes p q :: "'a::len word"
  assumes "LENGTH('a) \<le> 64" "val sg p < val sg q"
  shows "uint (to_uint64 sg q - to_uint64 sg p) = val sg q - val sg p"
proof -
  have "uint (word_of_int k :: u64) = k" if "0 < k" "k < 2 ^ 64" for k
    using that by (simp add: uint_word_of_int take_bit_int_eq_self_iff)
  moreover have "to_uint64 sg q - to_uint64 sg p = word_of_int (val sg q - val sg p)" by (simp only: to_uint64_val wi_hom_sub)
  ultimately show ?thesis using val_diff_bound [OF assms] by (simp only:)
qed

lemma ucast_of_int: "LENGTH('a) \<le> 64 \<Longrightarrow> (ucast (word_of_int k :: u64) :: 'a::len word) = word_of_int k"
  by (simp add: unsigned_of_int word_of_int_eq_iff)

lemma val_offset:
  fixes p q :: "'a::len word" and n :: u64
  assumes "LENGTH('a) \<le> 64" "val sg p + uint n \<le> val sg q"
  shows "val sg (ucast (to_uint64 sg p + n) :: 'a word) = val sg p + uint n"
proof -
  have "to_uint64 sg p + n = word_of_int (val sg p + uint n)" by (simp add: to_uint64_val wi_hom_add [symmetric])
  then have "(ucast (to_uint64 sg p + n) :: 'a word) = word_of_int (val sg p + uint n)" by (simp only: ucast_of_int [OF assms(1)])
  moreover have "val sg p \<le> val sg p + uint n" by simp
  ultimately show ?thesis using val_word_of_int [of sg p "val sg p + uint n" q] assms(2) by (simp only:)
qed

lemma rand_N_bounds: "n \<noteq> 0 \<Longrightarrow> uint (rand_N x n) < uint n"
proof -
  assume "n \<noteq> 0"
  then have "0 < uint n" using word_neq_0_conv [of n] by (simp add: word_less_def)
  then show ?thesis by (simp add: rand_N_def uint_mod)
qed

lemma rand_N_onto: "0 \<le> k \<Longrightarrow> k < uint n \<Longrightarrow> uint (rand_N (word_of_int k) n) = k"
  using uint_bounded [of n] by (simp add: rand_N_def uint_mod uint_word_of_int take_bit_int_eq_self_iff)

text \<open>Adding a draw below \<open>n\<close> to the lower bound gives each of the \<open>n\<close> numbers from there on.\<close>

lemma range_offset:
  fixes p q :: "'a::len word" and n :: u64
  assumes "LENGTH('a) \<le> 64" "n \<noteq> 0" "val sg p + uint n \<le> val sg q + 1"
  shows "range (\<lambda>x. val sg (ucast (to_uint64 sg p + rand_N x n) :: 'a word)) = {val sg p ..< val sg p + uint n}"
proof -
  have "val sg (ucast (to_uint64 sg p + rand_N x n) :: 'a word) = val sg p + uint (rand_N x n)" for x
    using assms rand_N_bounds [of n x] by (intro val_offset [where q = q]) simp_all
  then have "range (\<lambda>x. val sg (ucast (to_uint64 sg p + rand_N x n) :: 'a word)) = range (\<lambda>x. val sg p + uint (rand_N x n))" by simp
  also have "\<dots> = {val sg p ..< val sg p + uint n}"
  proof (intro subset_antisym subsetI)
    fix k assume "k \<in> {val sg p ..< val sg p + uint n}"
    then have "k = val sg p + uint (rand_N (word_of_int (k - val sg p)) n)" by (subst rand_N_onto) simp_all
    then show "k \<in> range (\<lambda>x. val sg p + uint (rand_N x n))" by (rule range_eqI)
  qed (auto simp: rand_N_bounds [OF assms(2)])
  finally show ?thesis .
qed

text \<open>When the span is that of all the 64-bit numbers, a draw of one of them is a draw from the range.\<close>

lemma range_whole:
  fixes p q :: "'a::len word"
  assumes "LENGTH('a) \<le> 64" "val sg q - val sg p = 2 ^ 64 - 1"
  shows "range (\<lambda>x :: u64. val sg (ucast x :: 'a word)) = {val sg p .. val sg q}"
proof -
  have pow: "(2 :: int) ^ LENGTH('a) \<le> 2 ^ 64" using assms(1) by (intro power_increasing) simp_all
  have twice: "(2 :: int) ^ LENGTH('a) = 2 * 2 ^ (LENGTH('a) - 1)" by (metis Suc_pred' len_gt_0 power_Suc)
  have "val sg p \<le> val sg w \<and> val sg w \<le> val sg q" for w :: "'a word"
    using pow twice assms(2) val_bounds [of sg p] val_bounds [of sg q] val_bounds [of sg w] by (auto split: if_splits)
  moreover have "k \<in> range (\<lambda>x :: u64. val sg (ucast x :: 'a word))" if "val sg p \<le> k" "k \<le> val sg q" for k
    using val_word_of_int [OF that] ucast_of_int [OF assms(1), of k] by (intro range_eqI [of _ _ "word_of_int k"]) simp
  ultimately show ?thesis by auto
qed

lemma uint_Suc64: "d \<noteq> - 1 \<Longrightarrow> uint (d + 1 :: u64) = uint d + 1"
proof -
  assume "d \<noteq> - 1"
  then have "uint d \<noteq> uint (- 1 :: u64)" by (auto dest: unsigned_word_eqI)
  then have "uint d \<noteq> 2 ^ 64 - 1" by (simp add: unsigned_minus_1_eq_mask mask_eq_exp_minus_1)
  moreover have "0 \<le> uint d" "uint d < 2 ^ 64" using uint_bounded [of d] by simp_all
  ultimately show ?thesis by (simp add: uint_word_ariths)
qed

lemma range_below:
  fixes p q :: "'a::len word"
  assumes "LENGTH('a) \<le> 64" "val sg p < val sg q"
  defines "d \<equiv> to_uint64 sg q - to_uint64 sg p"
  shows "range (\<lambda>x. val sg (ucast (to_uint64 sg p + rand_N x d) :: 'a word)) = {val sg p ..< val sg q}"
    "range (\<lambda>x. val sg (if d = - 1 then ucast x else ucast (to_uint64 sg p + rand_N x (d + 1)) :: 'a word)) = {val sg p .. val sg q}"
proof -
  have d: "uint d = val sg q - val sg p" unfolding d_def by (rule uint_diff [OF assms(1,2)])
  have "d \<noteq> 0" using d assms(2) by auto
  then show "range (\<lambda>x. val sg (ucast (to_uint64 sg p + rand_N x d) :: 'a word)) = {val sg p ..< val sg q}"
    using range_offset [OF assms(1), of d sg p q] d by simp
  show "range (\<lambda>x. val sg (if d = - 1 then ucast x else ucast (to_uint64 sg p + rand_N x (d + 1)) :: 'a word)) = {val sg p .. val sg q}"
  proof (cases "d = - 1")
    case True
    then have "uint d = 2 ^ 64 - 1" by (simp add: unsigned_minus_1_eq_mask mask_eq_exp_minus_1)
    with d have "val sg q - val sg p = 2 ^ 64 - 1" by (simp only:)
    then show ?thesis using range_whole [OF assms(1)] True by simp
  next
    case False
    then have "d + 1 \<noteq> 0" by (simp add: add_eq_0_iff2)
    moreover have "uint (d + 1) = uint d + 1" by (rule uint_Suc64 [OF False])
    moreover have "{val sg p ..< val sg q + 1} = {val sg p .. val sg q}" by auto
    ultimately show ?thesis using range_offset [OF assms(1), of "d + 1" sg p q] d False by simp
  qed
qed

text \<open>
  C37. The random ranges are exact.  For every integer type of at most 64 bits, signed or not, and any two different
  bounds in either order, the numbers \<^verbatim>\<open>RandRange\<close> can return are those from the smaller bound up to but not including the
  larger, and the numbers \<^verbatim>\<open>RandRangeInc\<close> can return are those between them with both bounds, also when the distance of
  the bounds does not fit the type, and when the bounds span all 64-bit numbers.
\<close>

theorem rand_range_exact:
  fixes lo hi :: "'a::len word"
  assumes "LENGTH('a) \<le> 64" "lo \<noteq> hi"
  shows "range (\<lambda>x. val sg (RandRange sg x lo hi)) = {min (val sg lo) (val sg hi) ..< max (val sg lo) (val sg hi)}
    \<and> range (\<lambda>x. val sg (RandRangeInc sg x lo hi)) = {min (val sg lo) (val sg hi) .. max (val sg lo) (val sg hi)}"
proof (cases "less_of sg hi lo")
  case True
  then have "val sg hi < val sg lo" by (simp add: less_of_val)
  then show ?thesis using range_below [OF assms(1), of sg hi lo] assms(2) True by (simp add: RandRange_def RandRangeInc_def Let_def)
next
  case False
  then have "val sg lo < val sg hi" using assms(2) val_inj [of sg lo hi] by (auto simp: less_of_val)
  then show ?thesis using range_below [OF assms(1), of sg lo hi] assms(2) False by (simp add: RandRange_def RandRangeInc_def Let_def)
qed

theorem rand_range_exact_witness:
  "range (\<lambda>x. sint (RandRange True x (100 :: 8 word) (- 100))) = {- 100 ..< 100}
   \<and> range (\<lambda>x. sint (RandRangeInc True x (100 :: 8 word) (- 100))) = {- 100 .. 100}"
proof -
  have "val True (100 :: 8 word) = 100" "val True (- 100 :: 8 word) = - 100" by (simp_all add: val_def)
  then show ?thesis using rand_range_exact [of "100 :: 8 word" "- 100" True] by (simp add: val_def)
qed

end
