(* ===== verification/Offline.thy ===== *)
theory Offline
  imports Router Model_Keys
begin

text \<open>
  What is kept for players who are not online, \<^verbatim>\<open>src/internal/share/offline_evt\<close>: events (\<^verbatim>\<open>offline_evt.go\<close>) and messages
  (\<^verbatim>\<open>offline_msg.go\<close>) in lists of Redis.  Redis and protobuf are parameters; the router is that of theory \<^verbatim>\<open>Router\<close>.
\<close>

section \<open>The lists of Redis\<close>

datatype list_cmd = RPush string bytes | LTrim string int int | Expire string nat

text \<open>
  \<^verbatim>\<open>os_list\<close> is what the store holds under a key; the other fields are the calls: a pipeline and \<^verbatim>\<open>LTRIM\<close> say whether they
  succeeded, \<^verbatim>\<open>LRANGE\<close> gives \<^term>\<open>None\<close> on an error.
\<close>

record 'w list_store =
  os_list :: "string \<Rightarrow> 'w \<Rightarrow> bytes list"
  os_LRange :: "string \<Rightarrow> int \<Rightarrow> int \<Rightarrow> 'w \<Rightarrow> bytes list option"
  os_LTrim :: "string \<Rightarrow> int \<Rightarrow> int \<Rightarrow> 'w \<Rightarrow> 'w \<times> bool"
  os_Exec :: "list_cmd list \<Rightarrow> 'w \<Rightarrow> 'w \<times> bool"

text \<open>The part of a list between two indices, both included; a negative index counts from the end.\<close>

definition redis_slice :: "int \<Rightarrow> int \<Rightarrow> 'a list \<Rightarrow> 'a list" where
  "redis_slice start stop xs =
     (let n = int (length xs); a = (if start < 0 then max 0 (n + start) else start); b = (if stop < 0 then n + stop else stop)
      in take (nat (b - a + 1)) (drop (nat a) xs))"

fun list_cmd_do :: "list_cmd \<Rightarrow> (string \<Rightarrow> bytes list) \<Rightarrow> string \<Rightarrow> bytes list" where
  "list_cmd_do (RPush k v) ls = ls(k := ls k @ [v])"
| "list_cmd_do (LTrim k a b) ls = ls(k := redis_slice a b (ls k))"
| "list_cmd_do (Expire k t) ls = ls"

text \<open>The documented behaviour of a store that can be reached.\<close>

definition list_laws :: "'w list_store \<Rightarrow> bool" where
  "list_laws R \<longleftrightarrow>
     (\<forall>k a b w. os_LRange R k a b w = Some (redis_slice a b (os_list R k w))) \<and>
     (\<forall>k a b w. \<exists>w'. os_LTrim R k a b w = (w', True) \<and> (\<forall>k'. os_list R k' w' = list_cmd_do (LTrim k a b) (\<lambda>k. os_list R k w) k')) \<and>
     (\<forall>cs w. \<exists>w'. os_Exec R cs w = (w', True) \<and> (\<forall>k. os_list R k w' = fold list_cmd_do cs (\<lambda>k. os_list R k w) k))"

section \<open>Offline events\<close>

record EvtOffline =
  ev_MsgName :: string
  ev_MsgID :: u32
  ev_Data :: bytes
  ev_RoleID :: u64

text \<open>
  What the code uses of protobuf: the name of a message, \<^verbatim>\<open>Marshal\<close> (\<^term>\<open>None\<close> is an error), the type registry, whose types give a
  new message, \<^verbatim>\<open>Unmarshal\<close> into a message, and both for the generated \<^verbatim>\<open>EvtOffline\<close>.
\<close>

record 'm proto =
  pr_MessageName :: "'m \<Rightarrow> string"
  pr_Marshal :: "'m \<Rightarrow> bytes option"
  pr_New :: "string \<Rightarrow> 'm option"
  pr_Unmarshal :: "bytes \<Rightarrow> 'm \<Rightarrow> 'm option"
  pr_MarshalEvt :: "EvtOffline \<Rightarrow> bytes option"
  pr_UnmarshalEvt :: "bytes \<Rightarrow> EvtOffline option"

definition proto_laws :: "'m proto \<Rightarrow> bool" where
  "proto_laws P \<longleftrightarrow>
     (\<forall>m b. pr_Marshal P m = Some b \<longrightarrow> (\<exists>z. pr_New P (pr_MessageName P m) = Some z \<and> pr_Unmarshal P b z = Some m)) \<and>
     (\<forall>z. pr_Unmarshal P [] z = Some z) \<and>
     (\<forall>e b. pr_MarshalEvt P e = Some b \<longrightarrow> pr_UnmarshalEvt P b = Some e)"

definition MaxEvents :: int where "MaxEvents = 10"

abbreviation Expire_secs :: nat where
  "Expire_secs \<equiv> 24 * 30 * 3600"

definition offlineDataKey :: "int \<Rightarrow> u64 \<Rightarrow> string" where
  "offlineDataKey SrvType roleId = ''role:'' @ itoa (unat roleId) @ '':'' @ Itoa SrvType @ '':offline_evt''"

text \<open>\<^verbatim>\<open>Add\<close> saves an event of a player who is not online; an error is logged and the event dropped.\<close>

definition Add_evt :: "'m proto \<Rightarrow> 'w list_store \<Rightarrow> int \<Rightarrow> u64 \<Rightarrow> 'm \<Rightarrow> 'w \<Rightarrow> 'w" where
  "Add_evt P R SrvType roleId msg w = (case pr_Marshal P msg of None \<Rightarrow> w
   | Some b \<Rightarrow> (case pr_MarshalEvt P \<lparr>ev_MsgName = pr_MessageName P msg, ev_MsgID = 0, ev_Data = b, ev_RoleID = roleId\<rparr> of None \<Rightarrow> w
     | Some dataB \<Rightarrow> let key = offlineDataKey SrvType roleId
         in fst (os_Exec R [RPush key dataB, LTrim key (- MaxEvents) (- 1), Expire key Expire_secs] w)))"

text \<open>
  The handlers of events by message name.  A handler works on the whole state, the store included; a panic in it is caught
  (\<^verbatim>\<open>thread.RunSafe\<close>), so its result is the state it left.
\<close>

type_synonym ('u, 'm, 'w) evt_handlers = "string \<rightharpoonup> ('u \<Rightarrow> 'm \<Rightarrow> 'w \<Rightarrow> 'w)"

definition RegisterHandler :: "'m proto \<Rightarrow> string \<Rightarrow> ('u \<Rightarrow> 'm \<Rightarrow> 'w \<Rightarrow> 'w) option \<Rightarrow> ('u, 'm, 'w) evt_handlers \<Rightarrow> ('u, 'm, 'w) evt_handlers" where
  "RegisterHandler P protoName fn H = (case fn of None \<Rightarrow> H
     | Some fn \<Rightarrow> H(protoName \<mapsto> (\<lambda>u m w. if pr_MessageName P m = protoName then fn u m w else w)))"

text \<open>The body of the loop of \<^verbatim>\<open>Do\<close> for one entry of the list.\<close>

definition do_event :: "'m proto \<Rightarrow> ('u, 'm, 'w) evt_handlers \<Rightarrow> 'u \<Rightarrow> bytes \<Rightarrow> 'w \<Rightarrow> 'w" where
  "do_event P H user v w = (case pr_UnmarshalEvt P v of None \<Rightarrow> w
   | Some op \<Rightarrow> (case pr_New P (ev_MsgName op) of None \<Rightarrow> w
     | Some msg \<Rightarrow> (case (if length (ev_Data op) > 0 then pr_Unmarshal P (ev_Data op) msg else Some msg) of None \<Rightarrow> w
       | Some msg \<Rightarrow> (case H (ev_MsgName op) of None \<Rightarrow> w | Some f \<Rightarrow> f user msg w))))"

definition Do_evts :: "'m proto \<Rightarrow> 'w list_store \<Rightarrow> int \<Rightarrow> ('u, 'm, 'w) evt_handlers \<Rightarrow> ('u \<Rightarrow> u64) \<Rightarrow> 'u \<Rightarrow> 'w \<Rightarrow> 'w" where
  "Do_evts P R SrvType H GetID user w = (let key = offlineDataKey SrvType (GetID user) in
     case os_LRange R key 0 (MaxEvents - 1) w of None \<Rightarrow> w
     | Some ss \<Rightarrow> if ss = [] then w else fst (os_LTrim R key (int (length ss)) (- 1) (fold (do_event P H user) ss w)))"

section \<open>Offline messages\<close>

record NatsMsg =
  nm_MsgID :: u32
  nm_Data :: bytes
  nm_SerID :: int
  nm_SerType :: int
  nm_RoleID :: u64
  nm_SesID :: u64
  nm_Forward :: bool

definition offlineMsgKey :: "int \<Rightarrow> u64 \<Rightarrow> string" where
  "offlineMsgKey SrvType roleId = ''role:'' @ itoa (unat roleId) @ '':'' @ Itoa SrvType @ '':offline_msg''"

definition AddMsg :: "(NatsMsg \<Rightarrow> bytes option) \<Rightarrow> 'w list_store \<Rightarrow> int \<Rightarrow> NatsMsg \<Rightarrow> 'w \<Rightarrow> 'w" where
  "AddMsg marshal R SrvType msg w = (case marshal msg of None \<Rightarrow> w
     | Some dataB \<Rightarrow> let key = offlineMsgKey SrvType (nm_RoleID msg)
         in fst (os_Exec R [RPush key dataB, LTrim key (- MaxEvents) (- 1), Expire key Expire_secs] w))"

text \<open>
  \<^verbatim>\<open>HandleMsg\<close> gives the entries to the router, which works on the whole state; \<open>unmarshal\<close> is that of the generated \<^verbatim>\<open>NatsMsg\<close>,
  \<open>picks\<close> what the pools of the router choose.
\<close>

definition offline_packet :: "'u \<Rightarrow> NatsMsg \<Rightarrow> 'u message" where
  "offline_packet r msg = \<lparr>Head = \<lparr>ActorID = 0, SesID = 0, MsgID = nm_MsgID msg, Flag = 0, FromSer = 0, FromSerID = 0, ToSer = 0, ToSerID = 0\<rparr>,
     Data = nm_Data msg, U = Some r, reply = []\<rparr>"

definition handle_entry :: "'m vt \<Rightarrow> (string \<Rightarrow> 'm \<Rightarrow> 'w \<Rightarrow> 'w \<times> bool) \<Rightarrow> ('w \<Rightarrow> nat option \<times> nat option) \<Rightarrow> (bytes \<Rightarrow> NatsMsg option) \<Rightarrow> 'u
    \<Rightarrow> bytes \<Rightarrow> ('u, 'm, 'w) router \<times> 'w \<Rightarrow> ('u, 'm, 'w) router \<times> 'w" where
  "handle_entry v respond picks unmarshal r entry s = (case unmarshal entry of None \<Rightarrow> s
     | Some msg \<Rightarrow> (case Router_Handle v respond (picks (snd s)) (offline_packet r msg) (fst s) (snd s) of (rt, w, _) \<Rightarrow> (rt, w)))"

definition HandleMsg :: "'m vt \<Rightarrow> (string \<Rightarrow> 'm \<Rightarrow> 'w \<Rightarrow> 'w \<times> bool) \<Rightarrow> ('w \<Rightarrow> nat option \<times> nat option) \<Rightarrow> (bytes \<Rightarrow> NatsMsg option) \<Rightarrow> 'w list_store \<Rightarrow> int
    \<Rightarrow> ('u \<Rightarrow> u64) \<Rightarrow> 'u \<Rightarrow> ('u, 'm, 'w) router \<times> 'w \<Rightarrow> ('u, 'm, 'w) router \<times> 'w" where
  "HandleMsg v respond picks unmarshal R SrvType ID r s = (let key = offlineDataKey SrvType (ID r) in
     case os_LRange R key 0 (MaxEvents - 1) (snd s) of None \<Rightarrow> s
     | Some ss \<Rightarrow> if ss = [] then s
         else (case fold (handle_entry v respond picks unmarshal r) ss s of (rt, w) \<Rightarrow>
           (rt, fst (os_LTrim R key (int (length ss)) (- 1) w))))"

section \<open>Lists of at most ten\<close>

lemma slice_last: "redis_slice (- MaxEvents) (- 1) xs = drop (length xs - 10) xs"
  by (simp add: redis_slice_def MaxEvents_def Let_def nat_diff_distrib' max_def)

lemma slice_first: "redis_slice 0 (MaxEvents - 1) xs = take 10 xs"
  by (simp add: redis_slice_def MaxEvents_def)

lemma slice_rest: "redis_slice (int n) (- 1) xs = drop n xs"
  by (simp add: redis_slice_def Let_def)

lemma drop_last_append: "drop (length (drop (length xs - k) xs @ [x]) - k) (drop (length xs - k) xs @ [x]) = drop (length (xs @ [x]) - k) (xs @ [x])"
  by (cases "k \<le> length xs") (auto simp: Suc_diff_le)

lemma LRange_law: "list_laws R \<Longrightarrow> os_LRange R k 0 (MaxEvents - 1) w = Some (take 10 (os_list R k w))"
  by (simp add: list_laws_def slice_first)

lemma LTrim_law: "list_laws R \<Longrightarrow> os_list R k' (fst (os_LTrim R k (int n) (- 1) w)) = (if k' = k then drop n (os_list R k w) else os_list R k' w)"
proof -
  assume "list_laws R"
  then obtain w' where "os_LTrim R k (int n) (- 1) w = (w', True)" "os_list R k' w' = list_cmd_do (LTrim k (int n) (- 1)) (\<lambda>k. os_list R k w) k'"
    unfolding list_laws_def by blast
  then show ?thesis by (simp add: slice_rest)
qed

text \<open>The pipeline of \<^verbatim>\<open>Add\<close> and \<^verbatim>\<open>AddMsg\<close> appends an entry and keeps the last ten.\<close>

lemma push_law:
  assumes "list_laws R"
  shows "os_list R k' (fst (os_Exec R [RPush k x, LTrim k (- MaxEvents) (- 1), Expire k t] w))
    = (if k' = k then drop (length (os_list R k w @ [x]) - 10) (os_list R k w @ [x]) else os_list R k' w)"
proof -
  let ?cs = "[RPush k x, LTrim k (- MaxEvents) (- 1), Expire k t]"
  obtain w' where "os_Exec R ?cs w = (w', True)" "os_list R k' w' = fold list_cmd_do ?cs (\<lambda>k. os_list R k w) k'"
    using assms unfolding list_laws_def by blast
  then show ?thesis by (simp add: slice_last)
qed

lemma offlineDataKey_inj: "offlineDataKey t a = offlineDataKey t' b \<longleftrightarrow> t = t' \<and> a = b"
proof
  assume eq: "offlineDataKey t a = offlineDataKey t' b"
  have c: "CHR '':'' \<notin> set (itoa n)" for n using not_in_itoa [of "CHR '':''"] by simp
  have "itoa (unat a) @ CHR '':'' # (Itoa t @ '':offline_evt'') = itoa (unat b) @ CHR '':'' # (Itoa t' @ '':offline_evt'')"
    using eq by (simp add: offlineDataKey_def)
  from append_sep_eq [OF c c this] have "itoa (unat a) = itoa (unat b)" "Itoa t = Itoa t'" by simp_all
  then show "t = t' \<and> a = b" using Itoa_inj by (simp add: word_unat_eq_iff)
qed simp

lemma data_key_not_msg_key: "offlineDataKey t a \<noteq> offlineMsgKey t' b"
proof
  assume "offlineDataKey t a = offlineMsgKey t' b"
  then have "last (offlineDataKey t a) = last (offlineMsgKey t' b)" by simp
  then show False by (simp add: offlineDataKey_def offlineMsgKey_def)
qed

section \<open>Events are handled once\<close>

text \<open>The entry an event is saved as, and what the handler of its message does.\<close>

definition evt_entry :: "'m proto \<Rightarrow> u64 \<Rightarrow> 'm \<Rightarrow> bytes option" where
  "evt_entry P roleId msg = Option.bind (pr_Marshal P msg)
     (\<lambda>b. pr_MarshalEvt P \<lparr>ev_MsgName = pr_MessageName P msg, ev_MsgID = 0, ev_Data = b, ev_RoleID = roleId\<rparr>)"

definition evt_handled :: "'m proto \<Rightarrow> ('u, 'm, 'w) evt_handlers \<Rightarrow> 'u \<Rightarrow> 'm \<Rightarrow> 'w \<Rightarrow> 'w" where
  "evt_handled P H user msg w = (case H (pr_MessageName P msg) of None \<Rightarrow> w | Some f \<Rightarrow> f user msg w)"

text \<open>The events saved for a role among those added, in their order.\<close>

definition evts_for :: "'m proto \<Rightarrow> u64 \<Rightarrow> (u64 \<times> 'm) list \<Rightarrow> 'm list" where
  "evts_for P i adds = filter (\<lambda>m. evt_entry P i m \<noteq> None) (map snd (filter (\<lambda>a. fst a = i) adds))"

abbreviation last_ten :: "'a list \<Rightarrow> 'a list" where
  "last_ten xs \<equiv> drop (length xs - 10) xs"

lemma Add_evt_list:
  assumes "list_laws R"
  shows "os_list R (offlineDataKey t i) (Add_evt P R t j m w)
    = (let l = os_list R (offlineDataKey t i) w in if i = j then (case evt_entry P i m of None \<Rightarrow> l | Some x \<Rightarrow> last_ten (l @ [x])) else l)"
  by (simp add: Add_evt_def evt_entry_def push_law [OF assms] Let_def offlineDataKey_inj split: option.split)

lemma adds_list:
  assumes "list_laws R" "os_list R (offlineDataKey t i) w = []"
  shows "os_list R (offlineDataKey t i) (fold (\<lambda>(j, m). Add_evt P R t j m) adds w) = last_ten (map (\<lambda>m. the (evt_entry P i m)) (evts_for P i adds))"
proof (induction adds rule: rev_induct)
  case Nil
  show ?case using assms(2) by (simp add: evts_for_def)
next
  case (snoc a adds)
  obtain j m where a: "a = (j, m)" by (cases a)
  let ?w = "fold (\<lambda>(j, m). Add_evt P R t j m) adds w" and ?ys = "map (\<lambda>m. the (evt_entry P i m)) (evts_for P i adds)"
  have step: "os_list R (offlineDataKey t i) (Add_evt P R t j m ?w)
      = (if i = j then (case evt_entry P i m of None \<Rightarrow> last_ten ?ys | Some x \<Rightarrow> last_ten (last_ten ?ys @ [x])) else last_ten ?ys)"
    unfolding Add_evt_list [OF assms(1)] snoc.IH Let_def by (rule refl)
  have "\<dots> = last_ten (map (\<lambda>m. the (evt_entry P i m)) (evts_for P i (adds @ [a])))"
    unfolding drop_last_append by (auto simp: a evts_for_def split: option.split)
  then show ?case using step by (simp only: a fold_append fold.simps comp_apply id_apply prod.case)
qed

lemma do_event_entry:
  assumes "proto_laws P" "evt_entry P i m = Some x"
  shows "do_event P H u x w = evt_handled P H u m w"
proof -
  obtain b where b: "pr_Marshal P m = Some b" "pr_MarshalEvt P \<lparr>ev_MsgName = pr_MessageName P m, ev_MsgID = 0, ev_Data = b, ev_RoleID = i\<rparr> = Some x"
    using assms(2) by (auto simp: evt_entry_def split: bind_splits)
  obtain z where z: "pr_New P (pr_MessageName P m) = Some z" "pr_Unmarshal P b z = Some m"
    using assms(1) b(1) unfolding proto_laws_def by blast
  have "pr_UnmarshalEvt P x = Some \<lparr>ev_MsgName = pr_MessageName P m, ev_MsgID = 0, ev_Data = b, ev_RoleID = i\<rparr>"
    using assms(1) b(2) by (simp add: proto_laws_def)
  moreover have "(if length b > 0 then pr_Unmarshal P b z else Some z) = Some m"
    using z(2) assms(1) by (auto simp: proto_laws_def)
  ultimately show ?thesis using z by (cases "b = []") (simp_all add: do_event_def evt_handled_def)
qed

lemma do_events_entries:
  assumes "proto_laws P" "\<forall>m \<in> set ms. evt_entry P i m \<noteq> None"
  shows "fold (do_event P H u) (map (\<lambda>m. the (evt_entry P i m)) ms) w = fold (evt_handled P H u) ms w"
  using assms(2) by (induction ms arbitrary: w) (auto simp: do_event_entry [OF assms(1)])

lemma evts_keep:
  assumes "\<forall>name f m w. H name = Some f \<longrightarrow> os_list R k (f u m w) = os_list R k w"
  shows "os_list R k (fold (evt_handled P H u) ms w) = os_list R k w"
  by (induction ms arbitrary: w) (auto simp: evt_handled_def assms split: option.split)


text \<open>A store of lists with a log beside it, and messages of one byte.\<close>

definition demo_lists :: "((string \<Rightarrow> bytes list) \<times> byte list) list_store" where
  "demo_lists = \<lparr>os_list = \<lambda>k w. fst w k, os_LRange = \<lambda>k a b w. Some (redis_slice a b (fst w k)),
     os_LTrim = \<lambda>k a b w. ((list_cmd_do (LTrim k a b) (fst w), snd w), True),
     os_Exec = \<lambda>cs w. ((fold list_cmd_do cs (fst w), snd w), True)\<rparr>"

lemma demo_list_laws: "list_laws demo_lists"
  by (simp add: list_laws_def demo_lists_def)

definition demo_proto :: "byte proto" where
  "demo_proto = \<lparr>pr_MessageName = \<lambda>_. ''M'', pr_Marshal = \<lambda>m. Some [m], pr_New = \<lambda>n. if n = ''M'' then Some 0 else None,
     pr_Unmarshal = \<lambda>b z. Some (if b = [] then z else hd b),
     pr_MarshalEvt = \<lambda>e. if e = \<lparr>ev_MsgName = ''M'', ev_MsgID = 0, ev_Data = ev_Data e, ev_RoleID = 7\<rparr> then Some (ev_Data e) else None,
     pr_UnmarshalEvt = \<lambda>b. Some \<lparr>ev_MsgName = ''M'', ev_MsgID = 0, ev_Data = b, ev_RoleID = 7\<rparr>\<rparr>"

lemma demo_proto_laws: "proto_laws demo_proto"
  by (auto simp: proto_laws_def demo_proto_def split: if_splits)

definition demo_handlers :: "(u64, byte, (string \<Rightarrow> bytes list) \<times> byte list) evt_handlers" where
  "demo_handlers = RegisterHandler demo_proto ''M'' (Some (\<lambda>u m w. (fst w, snd w @ [m]))) Map.empty"


section \<open>Messages are not handled\<close>

lemma AddMsg_list:
  assumes "list_laws R"
  shows "os_list R (offlineDataKey t i) (fold (AddMsg marshal R t) msgs w) = os_list R (offlineDataKey t i) w"
proof (induction msgs arbitrary: w)
  case (Cons m msgs)
  have "os_list R (offlineDataKey t i) (AddMsg marshal R t m w) = os_list R (offlineDataKey t i) w"
    by (simp add: AddMsg_def push_law [OF assms] Let_def data_key_not_msg_key split: option.split)
  then show ?case using Cons.IH by simp
qed simp

lemma handle_unreadable:
  "\<forall>x \<in> set xs. unmarshal x = None \<Longrightarrow> fold (handle_entry v respond picks unmarshal r) xs s = s"
  by (induction xs) (simp_all add: handle_entry_def)

text \<open>
  C39. Offline messages are never handled.  \<^verbatim>\<open>HandleMsg\<close> reads the list of the events, not that of the messages: after any
  messages have been added with \<^verbatim>\<open>AddMsg\<close> for a player without events, it gives none of them to the router and leaves them
  in their list, where the last ones stay.  Events that wait in the list it reads, and do not parse as messages, it removes
  without handling them.
\<close>

theorem offline_messages_never_handled:
  fixes r :: 'u and rt :: "('u, 'm, 'w) router"
  assumes "list_laws R" "os_list R (offlineDataKey t (ID r)) w = []" "fold (AddMsg marshal R t) (msgs @ [msg]) w = w1" "marshal msg = Some x"
  shows "HandleMsg v respond picks unmarshal R t ID r (rt, w1) = (rt, w1)
    \<and> x \<in> set (os_list R (offlineMsgKey t (nm_RoleID msg)) w1)
    \<and> (\<forall>w2. (\<forall>e \<in> set (os_list R (offlineDataKey t (ID r)) w2). unmarshal e = None) \<longrightarrow>
        fst (HandleMsg v respond picks unmarshal R t ID r (rt, w2)) = rt
        \<and> os_list R (offlineDataKey t (ID r)) (snd (HandleMsg v respond picks unmarshal R t ID r (rt, w2))) = drop 10 (os_list R (offlineDataKey t (ID r)) w2))"
proof -
  let ?k = "offlineDataKey t (ID r)"
  have "os_list R ?k w1 = []" using AddMsg_list [OF assms(1), of t "ID r" marshal "msgs @ [msg]" w] assms(2,3) by simp
  then have "HandleMsg v respond picks unmarshal R t ID r (rt, w1) = (rt, w1)" by (simp add: HandleMsg_def LRange_law [OF assms(1)])
  moreover have "x \<in> set (os_list R (offlineMsgKey t (nm_RoleID msg)) w1)"
    using assms(3,4) by (auto simp: AddMsg_def Let_def push_law [OF assms(1)])
  moreover have "HandleMsg v respond picks unmarshal R t ID r (rt, w2)
      = (rt, if os_list R ?k w2 = [] then w2 else fst (os_LTrim R ?k (int (length (take 10 (os_list R ?k w2)))) (- 1) w2))"
    if "\<forall>e \<in> set (os_list R ?k w2). unmarshal e = None" for w2
  proof -
    have "\<forall>e \<in> set (take 10 (os_list R ?k w2)). unmarshal e = None" using that by (auto dest: in_set_takeD)
    from handle_unreadable [OF this, of v respond picks r "(rt, w2)"] show ?thesis
      unfolding HandleMsg_def Let_def by (simp add: LRange_law [OF assms(1)])
  qed
  ultimately show ?thesis by (auto simp: LTrim_law [OF assms(1)] min_def)
qed

text \<open>One message is added for player 7, and nothing is handled, with a router that has no handlers and a reader that accepts all.\<close>

theorem offline_messages_never_handled_witness:
  "\<exists>w1. fold (AddMsg (\<lambda>m. Some (nm_Data m)) demo_lists 2)
       [\<lparr>nm_MsgID = 3, nm_Data = [1], nm_SerID = 0, nm_SerType = 0, nm_RoleID = 7, nm_SesID = 0, nm_Forward = False\<rparr>] (\<lambda>_. [], []) = w1
     \<and> (\<forall>v :: byte vt. HandleMsg v (\<lambda>_ _ w. (w, False)) (\<lambda>_. (None, None))
          (\<lambda>b. Some \<lparr>nm_MsgID = 3, nm_Data = b, nm_SerID = 0, nm_SerType = 0, nm_RoleID = 7, nm_SesID = 0, nm_Forward = False\<rparr>)
          demo_lists 2 id 7 (NewMsgRouter 10, w1) = (NewMsgRouter 10, w1))
     \<and> [1] \<in> set (fst w1 (offlineMsgKey 2 7))"
proof -
  let ?m = "\<lparr>nm_MsgID = 3, nm_Data = [1], nm_SerID = 0, nm_SerType = 0, nm_RoleID = 7, nm_SesID = 0, nm_Forward = False\<rparr>"
  obtain w1 where w1: "fold (AddMsg (\<lambda>m. Some (nm_Data m)) demo_lists 2) ([] @ [?m]) (\<lambda>_. [], []) = w1" by simp
  have none: "os_list demo_lists (offlineDataKey 2 (id 7)) (\<lambda>_. [], []) = []" by (simp add: demo_lists_def)
  have bytes: "Some (nm_Data ?m) = Some [1]" by simp
  note never = offline_messages_never_handled [where ID = id and marshal = "\<lambda>m. Some (nm_Data m)" and msg = ?m, OF demo_list_laws none w1 bytes]
  have "[1] \<in> set (os_list demo_lists (offlineMsgKey 2 7) w1)" using conjunct1 [OF conjunct2 [OF never]] by simp
  then have "[1] \<in> set (fst w1 (offlineMsgKey 2 7))" by (simp add: demo_lists_def)
  then show ?thesis using conjunct1 [OF never] w1 by auto
qed

section \<open>An event added while others are handled\<close>

text \<open>
  When the list is full, an event that is added between the read and the removal pushes out one that has been read, and
  the removal, which counts the entries read, takes the new one: it is lost.
\<close>

lemma event_added_meanwhile_is_lost:
  assumes "list_laws R" "length (os_list R (offlineDataKey t (GetID u)) w) = 10" "evt_entry P (GetID u) m = Some x"
    and "\<And>w. os_list R (offlineDataKey t (GetID u)) (fold (do_event P H u) ss w) = os_list R (offlineDataKey t (GetID u)) (Add_evt P R t (GetID u) m w)"
    and "ss = os_list R (offlineDataKey t (GetID u)) w"
  shows "os_list R (offlineDataKey t (GetID u)) (Do_evts P R t H GetID u w) = []"
proof -
  let ?k = "offlineDataKey t (GetID u)"
  have "Do_evts P R t H GetID u w = fst (os_LTrim R ?k 10 (- 1) (fold (do_event P H u) ss w))"
    using assms(2,5) by (auto simp: Do_evts_def Let_def LRange_law [OF assms(1)])
  moreover have "length (os_list R ?k (fold (do_event P H u) ss w)) = 10"
    using assms(2,3) by (simp add: assms(4) Add_evt_list [OF assms(1)])
  ultimately show ?thesis using LTrim_law [OF assms(1), of ?k ?k 10] by simp
qed

end
