(* ===== verification/Crypt.thy ===== *)
theory Crypt
  imports Base
begin

unbundle bit_operations_syntax

text \<open>
  Encryption of messages, \<^verbatim>\<open>src/pkg/crypt/gaes\<close>, and key exchange, \<^verbatim>\<open>src/pkg/crypt/dh\<close>.  The block cipher AES is a parameter; block
  chaining of \<^verbatim>\<open>crypto/cipher\<close> and the capacity of slices are written out.  \<^term>\<open>None\<close> is a panic.
\<close>

section \<open>Slices and block chaining\<close>

text \<open>
  A slice is an array and a length.  \<^verbatim>\<open>append\<close> writes into the array when it has room, and otherwise copies to a new one;
  the result says which, by giving the array of the caller afterwards.
\<close>

definition go_append :: "'a list \<Rightarrow> nat \<Rightarrow> 'a list \<Rightarrow> 'a list \<times> bool" where
  "go_append arr l xs =
     (if l + length xs \<le> length arr then (take l arr @ xs @ drop (l + length xs) arr, True) else (take l arr @ xs, False))"

text \<open>A block cipher, and the modes of \<^verbatim>\<open>NewCBCEncrypter\<close> and \<^verbatim>\<open>NewCBCDecrypter\<close>, which keep the last ciphertext block as \<open>iv\<close>.\<close>

record block =
  bk_BlockSize :: nat
  bk_Encrypt :: "bytes \<Rightarrow> bytes"
  bk_Decrypt :: "bytes \<Rightarrow> bytes"

record blockMode =
  bm_block :: block
  bm_iv :: bytes
  bm_decrypt :: bool

definition xor_bytes :: "bytes \<Rightarrow> bytes \<Rightarrow> bytes" where
  "xor_bytes xs ys = map2 (XOR) xs ys"

fun cbc_encrypt :: "block \<Rightarrow> nat \<Rightarrow> bytes \<Rightarrow> bytes \<Rightarrow> bytes \<times> bytes" where
  "cbc_encrypt b 0 iv src = ([], iv)"
| "cbc_encrypt b (Suc n) iv src = (let c = bk_Encrypt b (xor_bytes (take (bk_BlockSize b) src) iv);
     (rest, iv') = cbc_encrypt b n c (drop (bk_BlockSize b) src) in (c @ rest, iv'))"

fun cbc_decrypt :: "block \<Rightarrow> nat \<Rightarrow> bytes \<Rightarrow> bytes \<Rightarrow> bytes \<times> bytes" where
  "cbc_decrypt b 0 iv src = ([], iv)"
| "cbc_decrypt b (Suc n) iv src = (let c = take (bk_BlockSize b) src;
     (rest, iv') = cbc_decrypt b n c (drop (bk_BlockSize b) src) in (xor_bytes (bk_Decrypt b c) iv @ rest, iv'))"

definition NewCBC :: "bool \<Rightarrow> block \<Rightarrow> bytes \<Rightarrow> blockMode option" where
  "NewCBC dec b iv = (if length iv \<noteq> bk_BlockSize b then None else Some \<lparr>bm_block = b, bm_iv = iv, bm_decrypt = dec\<rparr>)"

definition CryptBlocks :: "bytes \<Rightarrow> blockMode \<Rightarrow> (bytes \<times> blockMode) option" where
  "CryptBlocks src m = (let b = bm_block m; n = length src div bk_BlockSize b in
     if length src mod bk_BlockSize b \<noteq> 0 then None
     else let (dst, iv) = (if bm_decrypt m then cbc_decrypt else cbc_encrypt) b n (bm_iv m) src in Some (dst, m\<lparr>bm_iv := iv\<rparr>))"

section \<open>Padding\<close>

datatype crypt_err = Err_empty | Err_pad_length | Err_pad_bytes | Err_cipher_length | Err_key | Err_iv

definition PKCS7Padding :: "bytes \<Rightarrow> nat \<Rightarrow> nat \<Rightarrow> bytes \<times> nat \<times> bool" where
  "PKCS7Padding arr l blockSize = (let padding = blockSize - l mod blockSize; padtext = replicate padding (word_of_nat padding);
     (arr', shared) = go_append arr l padtext in (arr', l + padding, shared))"

definition PKCS7UnPadding :: "bytes \<Rightarrow> crypt_err + bytes" where
  "PKCS7UnPadding plaintext = (if plaintext = [] then Inl Err_empty
     else let unpadding = unat (last plaintext) in
       if unpadding > length plaintext \<or> unpadding = 0 then Inl Err_pad_length
       else let padStart = length plaintext - unpadding in
         if list_ex (\<lambda>c. c \<noteq> word_of_nat unpadding) (drop padStart plaintext) then Inl Err_pad_bytes
         else Inr (take padStart plaintext))"

section \<open>A stream of messages\<close>

text \<open>
  \<^verbatim>\<open>EnCrypt\<close> of the slice of length \<open>l\<close> of the array \<open>arr\<close>: the ciphertext, the array of the caller afterwards, and the mode.  The
  blocks are encrypted in place, which changes the array of the caller when the padding was appended there.
\<close>

definition EnCrypt :: "bytes \<Rightarrow> nat \<Rightarrow> blockMode \<Rightarrow> (bytes \<times> bytes \<times> blockMode) option" where
  "EnCrypt arr l m = (case PKCS7Padding arr l (bk_BlockSize (bm_block m)) of (arr', n, shared) \<Rightarrow>
     (case CryptBlocks (take n arr') m of None \<Rightarrow> None
      | Some (dst, m') \<Rightarrow> Some (dst, if shared then dst @ drop n arr' else arr, m')))"

definition DeCrypt :: "bytes \<Rightarrow> blockMode \<Rightarrow> ((crypt_err + bytes) \<times> blockMode) option" where
  "DeCrypt src m = (case CryptBlocks src m of None \<Rightarrow> None | Some (dst, m') \<Rightarrow> Some (PKCS7UnPadding dst, m'))"

section \<open>Single messages\<close>

text \<open>The global key, vector and cipher; \<open>NewCipher\<close> gives \<^term>\<open>None\<close> for a key of a wrong length.\<close>

record crypt_state =
  cs_aesKey :: bytes
  cs_aesIV :: bytes
  cs_globalBlock :: "block option"

definition crypt_Init :: "(bytes \<Rightarrow> block option) \<Rightarrow> bytes \<Rightarrow> bytes \<Rightarrow> crypt_state \<Rightarrow> crypt_err option \<times> crypt_state" where
  "crypt_Init NewCipher key iv s =
     (let s = (if key \<noteq> [] then s\<lparr>cs_aesKey := key\<rparr> else s); s = (if iv \<noteq> [] then s\<lparr>cs_aesIV := iv\<rparr> else s) in
      case NewCipher (cs_aesKey s) of None \<Rightarrow> (Some Err_key, s)
      | Some b \<Rightarrow> if length (cs_aesIV s) \<noteq> bk_BlockSize b then (Some Err_iv, s) else (None, s\<lparr>cs_globalBlock := Some b\<rparr>))"

definition getBlock :: "(bytes \<Rightarrow> block option) \<Rightarrow> crypt_state \<Rightarrow> block option \<times> crypt_state" where
  "getBlock NewCipher s = (case cs_globalBlock s of Some b \<Rightarrow> (Some b, s)
     | None \<Rightarrow> let b = NewCipher (cs_aesKey s) in (b, s\<lparr>cs_globalBlock := b\<rparr>))"

definition EnCryptOnce :: "(bytes \<Rightarrow> block option) \<Rightarrow> bytes \<Rightarrow> nat \<Rightarrow> crypt_state \<Rightarrow> (bytes \<times> crypt_state) option" where
  "EnCryptOnce NewCipher arr l s = (if l = 0 then Some ([], s)
     else case getBlock NewCipher s of (None, s) \<Rightarrow> None
     | (Some b, s) \<Rightarrow> (case PKCS7Padding arr l (bk_BlockSize b) of (arr', n, shared) \<Rightarrow>
         Option.bind (NewCBC False b (cs_aesIV s)) (\<lambda>m. map_option (\<lambda>(dst, m'). (dst, s)) (CryptBlocks (take n arr') m))))"

definition DeCryptOnce :: "(bytes \<Rightarrow> block option) \<Rightarrow> bytes \<Rightarrow> crypt_state \<Rightarrow> ((crypt_err + bytes) \<times> crypt_state) option" where
  "DeCryptOnce NewCipher src s = (case getBlock NewCipher s of (None, s) \<Rightarrow> None
     | (Some b, s) \<Rightarrow> if length src = 0 \<or> length src mod bk_BlockSize b \<noteq> 0 then Some (Inl Err_cipher_length, s)
         else Option.bind (NewCBC True b (cs_aesIV s)) (\<lambda>m. map_option (\<lambda>(dst, m'). (PKCS7UnPadding dst, s)) (CryptBlocks src m)))"

section \<open>Key exchange\<close>

abbreviation dh_g :: int where
  "dh_g \<equiv> 2"

abbreviation dh_p :: int where
  "dh_p \<equiv> 987123654"

text \<open>The private key is the number the random source returns.\<close>

definition Exchange :: "nat \<Rightarrow> nat \<times> int" where
  "Exchange privateKey = (privateKey, dh_g ^ privateKey mod dh_p)"

definition GetKey :: "nat \<Rightarrow> int \<Rightarrow> int" where
  "GetKey privateKey publicKey = publicKey ^ privateKey mod dh_p"

lemma exchanged_keys_agree: "GetKey (fst (Exchange a)) (snd (Exchange b)) = GetKey (fst (Exchange b)) (snd (Exchange a))"
  by (simp add: GetKey_def Exchange_def power_mod power_mult [symmetric] mult.commute)

section \<open>What is decrypted is what was encrypted\<close>

text \<open>The documented behaviour of AES: blocks of 16 bytes, and decryption inverts encryption.\<close>

definition block_laws :: "block \<Rightarrow> bool" where
  "block_laws b \<longleftrightarrow> bk_BlockSize b = 16
     \<and> (\<forall>x. length x = 16 \<longrightarrow> length (bk_Encrypt b x) = 16 \<and> length (bk_Decrypt b x) = 16 \<and> bk_Decrypt b (bk_Encrypt b x) = x)"

lemma length_xor_bytes [simp]: "length (xor_bytes xs ys) = min (length xs) (length ys)"
  by (simp add: xor_bytes_def)

lemma xor_bytes_twice: "length xs = length ys \<Longrightarrow> xor_bytes (xor_bytes xs ys) ys = xs"
  by (induction xs ys rule: list_induct2) (simp_all add: xor_bytes_def xor.assoc)

lemma cbc_roundtrip:
  assumes "block_laws b"
  shows "length iv = 16 \<Longrightarrow> length src = n * 16 \<Longrightarrow> cbc_encrypt b n iv src = (dst, iv')
    \<Longrightarrow> length dst = n * 16 \<and> length iv' = 16 \<and> cbc_decrypt b n iv dst = (src, iv')"
proof (induction n arbitrary: iv src dst)
  case (Suc n)
  have size: "bk_BlockSize b = 16" using assms by (simp add: block_laws_def)
  let ?x = "xor_bytes (take 16 src) iv" and ?c = "bk_Encrypt b (xor_bytes (take 16 src) iv)"
  have "length ?x = 16" using Suc.prems by simp
  then have c: "length ?c = 16" "bk_Decrypt b ?c = ?x" using assms by (simp_all add: block_laws_def)
  obtain rest where rest: "cbc_encrypt b n ?c (drop 16 src) = (rest, iv')" "dst = ?c @ rest"
    using Suc.prems(3) size by (auto simp: Let_def split: prod.splits)
  have ih: "length rest = n * 16 \<and> length iv' = 16 \<and> cbc_decrypt b n ?c rest = (drop 16 src, iv')"
    using Suc.IH [OF c(1) _ rest(1)] Suc.prems(2) by simp
  have "xor_bytes ?x iv = take 16 src" using Suc.prems(1,2) by (intro xor_bytes_twice) simp
  then have "xor_bytes (bk_Decrypt b ?c) iv @ drop 16 src = src" by (simp add: c(2))
  then show ?case using ih c(1) rest(2) size by (simp add: Let_def)
qed simp

lemma unpad_pad:
  assumes "0 < k" "k < 256"
  shows "PKCS7UnPadding (xs @ replicate k (word_of_nat k)) = Inr xs"
proof -
  have "unat (word_of_nat k :: byte) = k" using assms(2) by (simp add: unat_of_nat)
  then show ?thesis using assms(1) by (simp add: PKCS7UnPadding_def Let_def list_ex_iff)
qed

lemma padding_facts:
  assumes "PKCS7Padding arr l 16 = (arr', n, shared)" "l \<le> length arr"
  shows "take n arr' = take l arr @ replicate (16 - l mod 16) (word_of_nat (16 - l mod 16))" "n = l + (16 - l mod 16)" "n mod 16 = 0"
    "shared \<longleftrightarrow> n \<le> length arr" "shared \<Longrightarrow> drop n arr' = drop n arr"
proof -
  let ?k = "16 - l mod 16"
  show n: "n = l + ?k" using assms(1) by (auto simp: PKCS7Padding_def Let_def split: prod.splits)
  have "l + ?k = (l div 16 + 1) * 16" by presburger
  then show "n mod 16 = 0" using n by simp
  show "shared \<longleftrightarrow> n \<le> length arr" "take n arr' = take l arr @ replicate ?k (word_of_nat ?k)" "shared \<Longrightarrow> drop n arr' = drop n arr"
    using assms n by (auto simp: PKCS7Padding_def go_append_def Let_def split: if_splits)
qed

lemma crypt_blocks_roundtrip:
  assumes "block_laws b" "length iv = 16" "length src mod 16 = 0"
  shows "\<exists>dst iv'. CryptBlocks src \<lparr>bm_block = b, bm_iv = iv, bm_decrypt = False\<rparr> = Some (dst, \<lparr>bm_block = b, bm_iv = iv', bm_decrypt = False\<rparr>)
    \<and> CryptBlocks dst \<lparr>bm_block = b, bm_iv = iv, bm_decrypt = True\<rparr> = Some (src, \<lparr>bm_block = b, bm_iv = iv', bm_decrypt = True\<rparr>)
    \<and> length dst = length src \<and> length iv' = 16"
proof -
  obtain dst iv' where enc: "cbc_encrypt b (length src div 16) iv src = (dst, iv')" by (metis surj_pair)
  have len: "length src = length src div 16 * 16" using assms(3) by (metis add.right_neutral div_mult_mod_eq)
  from cbc_roundtrip [OF assms(1,2) len enc] len have "length dst = length src" "length iv' = 16" "cbc_decrypt b (length src div 16) iv dst = (src, iv')" by simp_all
  moreover have "bk_BlockSize b = 16" using assms(1) by (simp add: block_laws_def)
  ultimately show ?thesis using enc assms(3) by (simp add: CryptBlocks_def Let_def)
qed

text \<open>One message: what is returned, the array of the caller, and what the other side gets.\<close>

lemma EnCrypt_DeCrypt:
  assumes "block_laws b" "length iv = 16" "l \<le> length arr"
  shows "\<exists>dst iv'. EnCrypt arr l \<lparr>bm_block = b, bm_iv = iv, bm_decrypt = False\<rparr>
      = Some (dst, if length dst \<le> length arr then dst @ drop (length dst) arr else arr, \<lparr>bm_block = b, bm_iv = iv', bm_decrypt = False\<rparr>)
    \<and> DeCrypt dst \<lparr>bm_block = b, bm_iv = iv, bm_decrypt = True\<rparr> = Some (Inr (take l arr), \<lparr>bm_block = b, bm_iv = iv', bm_decrypt = True\<rparr>)
    \<and> length dst = l + (16 - l mod 16) \<and> length iv' = 16"
proof -
  have size: "bk_BlockSize b = 16" using assms(1) by (simp add: block_laws_def)
  obtain arr' n shared where pad: "PKCS7Padding arr l 16 = (arr', n, shared)" by (metis prod_cases3)
  note facts = padding_facts [OF pad assms(3)]
  have len: "length (take n arr') = n" using facts(1,2) assms(3) by simp
  then have "length (take n arr') mod 16 = 0" using facts(3) by simp
  from crypt_blocks_roundtrip [OF assms(1,2) this] obtain dst iv' where
    d: "CryptBlocks (take n arr') \<lparr>bm_block = b, bm_iv = iv, bm_decrypt = False\<rparr> = Some (dst, \<lparr>bm_block = b, bm_iv = iv', bm_decrypt = False\<rparr>)"
      "CryptBlocks dst \<lparr>bm_block = b, bm_iv = iv, bm_decrypt = True\<rparr> = Some (take n arr', \<lparr>bm_block = b, bm_iv = iv', bm_decrypt = True\<rparr>)"
      "length dst = n" "length iv' = 16" using len by auto
  have "0 < 16 - l mod 16" "16 - l mod 16 < 256" by simp_all
  then have "PKCS7UnPadding (take n arr') = Inr (take l arr)" unfolding facts(1) by (rule unpad_pad)
  then have "DeCrypt dst \<lparr>bm_block = b, bm_iv = iv, bm_decrypt = True\<rparr> = Some (Inr (take l arr), \<lparr>bm_block = b, bm_iv = iv', bm_decrypt = True\<rparr>)"
    by (simp add: DeCrypt_def d(2))
  moreover have "EnCrypt arr l \<lparr>bm_block = b, bm_iv = iv, bm_decrypt = False\<rparr>
      = Some (dst, if n \<le> length arr then dst @ drop n arr else arr, \<lparr>bm_block = b, bm_iv = iv', bm_decrypt = False\<rparr>)"
    using facts(4,5) by (simp add: EnCrypt_def size pad d(1))
  ultimately show ?thesis using d(3,4) facts(2) by auto
qed

text \<open>The messages of a connection, encrypted and decrypted one after the other with a mode on each side.\<close>

fun encrypt_all :: "(bytes \<times> nat) list \<Rightarrow> blockMode \<Rightarrow> bytes list option" where
  "encrypt_all [] m = Some []"
| "encrypt_all ((arr, l) # ms) m = Option.bind (EnCrypt arr l m) (\<lambda>(dst, arr', m'). map_option ((#) dst) (encrypt_all ms m'))"

fun decrypt_all :: "bytes list \<Rightarrow> blockMode \<Rightarrow> (crypt_err + bytes) list option" where
  "decrypt_all [] m = Some []"
| "decrypt_all (c # cs) m = Option.bind (DeCrypt c m) (\<lambda>(res, m'). map_option ((#) res) (decrypt_all cs m'))"

lemma stream_roundtrip:
  assumes "block_laws b"
  shows "length iv = 16 \<Longrightarrow> \<forall>(arr, l) \<in> set ms. l \<le> length arr \<Longrightarrow>
    \<exists>cs. encrypt_all ms \<lparr>bm_block = b, bm_iv = iv, bm_decrypt = False\<rparr> = Some cs
      \<and> decrypt_all cs \<lparr>bm_block = b, bm_iv = iv, bm_decrypt = True\<rparr> = Some (map (\<lambda>(arr, l). Inr (take l arr)) ms)"
proof (induction ms arbitrary: iv)
  case (Cons x ms)
  obtain arr l where x: "x = (arr, l)" by (cases x)
  then have l: "l \<le> length arr" using Cons.prems(2) by simp
  obtain dst iv' where d: "EnCrypt arr l \<lparr>bm_block = b, bm_iv = iv, bm_decrypt = False\<rparr>
      = Some (dst, if length dst \<le> length arr then dst @ drop (length dst) arr else arr, \<lparr>bm_block = b, bm_iv = iv', bm_decrypt = False\<rparr>)"
      "DeCrypt dst \<lparr>bm_block = b, bm_iv = iv, bm_decrypt = True\<rparr> = Some (Inr (take l arr), \<lparr>bm_block = b, bm_iv = iv', bm_decrypt = True\<rparr>)" "length iv' = 16"
    using EnCrypt_DeCrypt [OF assms Cons.prems(1) l] by blast
  obtain cs where "encrypt_all ms \<lparr>bm_block = b, bm_iv = iv', bm_decrypt = False\<rparr> = Some cs"
      "decrypt_all cs \<lparr>bm_block = b, bm_iv = iv', bm_decrypt = True\<rparr> = Some (map (\<lambda>(arr, l). Inr (take l arr)) ms)"
    using Cons.IH [OF d(3)] Cons.prems(2) by auto
  then show ?case using d by (intro exI [of _ "dst # cs"]) (simp add: x)
qed simp

lemma getBlock_Init:
  assumes "crypt_Init NewCipher key iv s0 = (None, s)"
  shows "\<exists>b. NewCipher (cs_aesKey s) = Some b \<and> length (cs_aesIV s) = bk_BlockSize b \<and> getBlock NewCipher s = (Some b, s)"
  using assms by (auto simp: crypt_Init_def getBlock_def Let_def split: option.splits if_splits)

lemma once_roundtrip:
  assumes init: "crypt_Init NewCipher key iv s0 = (None, s)" and laws: "\<And>k b. NewCipher k = Some b \<Longrightarrow> block_laws b" and l: "0 < l" "l \<le> length arr"
  shows "\<exists>dst. EnCryptOnce NewCipher arr l s = Some (dst, s) \<and> DeCryptOnce NewCipher dst s = Some (Inr (take l arr), s)"
proof -
  obtain b where b: "NewCipher (cs_aesKey s) = Some b" "length (cs_aesIV s) = bk_BlockSize b" "getBlock NewCipher s = (Some b, s)"
    using getBlock_Init [OF init] by blast
  have size: "bk_BlockSize b = 16" using laws [OF b(1)] by (simp add: block_laws_def)
  let ?e = "\<lparr>bm_block = b, bm_iv = cs_aesIV s, bm_decrypt = False\<rparr>" and ?d = "\<lparr>bm_block = b, bm_iv = cs_aesIV s, bm_decrypt = True\<rparr>"
  have new: "NewCBC False b (cs_aesIV s) = Some ?e" "NewCBC True b (cs_aesIV s) = Some ?d" using b(2) by (simp_all add: NewCBC_def)
  have iv: "length (cs_aesIV s) = 16" using b(2) size by simp
  obtain dst x y z where d: "EnCrypt arr l ?e = Some (dst, x, y)" "DeCrypt dst ?d = Some (Inr (take l arr), z)" "length dst = l + (16 - l mod 16)"
    using EnCrypt_DeCrypt [OF laws [OF b(1)] iv l(2)] by blast
  obtain arr' n shared where pad: "PKCS7Padding arr l 16 = (arr', n, shared)" by (metis prod_cases3)
  have "length dst = n" "n mod 16 = 0" using padding_facts(2,3) [OF pad l(2)] d(3) by simp_all
  moreover have "CryptBlocks (take n arr') ?e = Some (dst, y)" using d(1) by (auto simp: EnCrypt_def size pad split: option.splits)
  moreover obtain pt where "CryptBlocks dst ?d = Some (pt, z)" "PKCS7UnPadding pt = Inr (take l arr)"
    using d(2) by (auto simp: DeCrypt_def split: option.splits)
  moreover have "dst \<noteq> []" using d(3) l(1) by auto
  ultimately show ?thesis using l(1) by (simp add: EnCryptOnce_def DeCryptOnce_def b(3) size pad new)
qed

text \<open>
  C40. What is decrypted is what was encrypted.  With a cipher that behaves as documented, any sequence of messages
  encrypted with one mode and decrypted with one on the other side comes back unchanged and in order, whatever their lengths;
  \<^verbatim>\<open>EnCrypt\<close> leaves the array of the caller alone only when it has no room for the padding, and otherwise overwrites the
  message in it with the ciphertext.  After a successful \<^verbatim>\<open>Init\<close> each message is decrypted by \<^verbatim>\<open>DeCryptOnce\<close> to what
  \<^verbatim>\<open>EnCryptOnce\<close> was given, except the empty one, for which \<^verbatim>\<open>EnCryptOnce\<close> returns what \<^verbatim>\<open>DeCryptOnce\<close> refuses.
\<close>

theorem encryption_roundtrip:
  assumes laws: "\<forall>k b. NewCipher k = Some b \<longrightarrow> block_laws b" and init: "crypt_Init NewCipher key iv s0 = (None, s)"
    and b: "NewCipher k = Some b" "length v = 16" and ms: "\<forall>(arr, l) \<in> set ms. l \<le> length arr"
  shows "(\<exists>cs. encrypt_all ms \<lparr>bm_block = b, bm_iv = v, bm_decrypt = False\<rparr> = Some cs
      \<and> decrypt_all cs \<lparr>bm_block = b, bm_iv = v, bm_decrypt = True\<rparr> = Some (map (\<lambda>(arr, l). Inr (take l arr)) ms))
    \<and> (\<forall>(arr, l) \<in> set ms. \<exists>dst m. EnCrypt arr l \<lparr>bm_block = b, bm_iv = v, bm_decrypt = False\<rparr>
        = Some (dst, if length dst \<le> length arr then dst @ drop (length dst) arr else arr, m))
    \<and> (\<forall>(arr, l) \<in> set ms. \<exists>dst. EnCryptOnce NewCipher arr l s = Some (dst, s)
        \<and> DeCryptOnce NewCipher dst s = Some (if l = 0 then Inl Err_cipher_length else Inr (take l arr), s))"
proof -
  have law: "block_laws b" using laws b(1) by blast
  have "\<exists>dst m. EnCrypt arr l \<lparr>bm_block = b, bm_iv = v, bm_decrypt = False\<rparr>
      = Some (dst, if length dst \<le> length arr then dst @ drop (length dst) arr else arr, m)" if "(arr, l) \<in> set ms" for arr l
    using EnCrypt_DeCrypt [OF law b(2), of l arr] ms that by blast
  moreover have "\<exists>dst. EnCryptOnce NewCipher arr l s = Some (dst, s)
      \<and> DeCryptOnce NewCipher dst s = Some (if l = 0 then Inl Err_cipher_length else Inr (take l arr), s)" if "(arr, l) \<in> set ms" for arr l
  proof (cases "l = 0")
    case True
    then show ?thesis using getBlock_Init [OF init] by (auto simp: EnCryptOnce_def DeCryptOnce_def)
  next
    case False
    then show ?thesis using once_roundtrip [OF init, of l arr] laws ms that by auto
  qed
  ultimately show ?thesis using stream_roundtrip [OF law b(2) ms] by blast
qed

text \<open>A cipher that reverses its block, and messages of 3 and 16 bytes, the first in an array of 20.\<close>

definition demo_cipher :: "bytes \<Rightarrow> block option" where
  "demo_cipher k = (if length k \<in> {16, 24, 32} then Some \<lparr>bk_BlockSize = 16, bk_Encrypt = rev, bk_Decrypt = rev\<rparr> else None)"

theorem encryption_roundtrip_witness:
  "\<exists>s cs. crypt_Init demo_cipher (replicate 16 7) (replicate 16 9) \<lparr>cs_aesKey = [], cs_aesIV = [], cs_globalBlock = None\<rparr> = (None, s)
     \<and> encrypt_all [(replicate 20 1, 3), (replicate 16 2, 16)] \<lparr>bm_block = the (demo_cipher (replicate 16 7)), bm_iv = replicate 16 9, bm_decrypt = False\<rparr> = Some cs
     \<and> decrypt_all cs \<lparr>bm_block = the (demo_cipher (replicate 16 7)), bm_iv = replicate 16 9, bm_decrypt = True\<rparr>
        = Some [Inr [1, 1, 1], Inr (replicate 16 2)]"
proof -
  let ?b = "\<lparr>bk_BlockSize = 16, bk_Encrypt = rev, bk_Decrypt = rev\<rparr>" and ?ms = "[(replicate 20 1, 3), (replicate 16 2, 16)] :: (bytes \<times> nat) list"
  have laws: "\<forall>k b. demo_cipher k = Some b \<longrightarrow> block_laws b" by (auto simp: demo_cipher_def block_laws_def split: if_splits)
  have b: "demo_cipher (replicate 16 7) = Some ?b" by (simp add: demo_cipher_def)
  obtain s where s: "crypt_Init demo_cipher (replicate 16 7) (replicate 16 9) \<lparr>cs_aesKey = [], cs_aesIV = [], cs_globalBlock = None\<rparr> = (None, s)"
    by (simp add: crypt_Init_def demo_cipher_def Let_def)
  have "length (replicate 16 (9 :: byte)) = 16" "\<forall>(arr, l) \<in> set ?ms. l \<le> length arr" by simp_all
  from conjunct1 [OF encryption_roundtrip [OF laws s b this]] obtain cs where
    "encrypt_all ?ms \<lparr>bm_block = ?b, bm_iv = replicate 16 9, bm_decrypt = False\<rparr> = Some cs"
    "decrypt_all cs \<lparr>bm_block = ?b, bm_iv = replicate 16 9, bm_decrypt = True\<rparr> = Some (map (\<lambda>(arr, l). Inr (take l arr)) ?ms)" by blast
  moreover have "map (\<lambda>(arr, l). Inr (take l arr)) ?ms = [Inr [1, 1, 1], Inr (replicate 16 2)]" by (simp add: numeral_eq_Suc)
  ultimately show ?thesis using s b by (metis option.sel)
qed

end
