(* ===== verification/Spec2Isabelle.thy ===== *)
theory Spec2Isabelle
  imports Swap_Queue_Conc Logon Account Gateway Center Lock Rand Offline Crypt
begin

text \<open>
  Verification of the game server \<^verbatim>\<open>server-v2\<close>.

  \<^bold>\<open>The program.\<close>  Clients hold a web socket to a gateway (\<^verbatim>\<open>src/internal/gateway\<close>).  The gateway forwards their messages to
  the servers over a message bus (\<^verbatim>\<open>src/pkg/gnet\<close>): messages are framed, collected in batches per destination, published
  on NATS subjects, and dispatched by a router at the receiver.  A login first reaches an account server
  (\<^verbatim>\<open>src/internal/account\<close>), which loads or creates the account in Redis and MongoDB, chooses a game server from the
  directory of nodes (\<^verbatim>\<open>src/pkg/discovery\<close>), and passes the login on.  On the game server (\<^verbatim>\<open>src/internal/game\<close>) the logon
  service loads the role, replaces an older session of it, and starts a goroutine that owns the role object; savers write
  its data back.  A center (\<^verbatim>\<open>src/internal/center\<close>) knows which role is online on which game server and relays messages to it; its
  other work is done by actors (\<^verbatim>\<open>src/internal/share/actor\<close>).  The goroutines talk through swap queues (\<^verbatim>\<open>src/pkg/queue\<close>).

  \<^bold>\<open>Conventions.\<close>  A struct is a record, an operation a function that takes the state and returns the new one, a machine
  integer a word.  A panic, or a send that blocks, is the value \<^const>\<open>None\<close>; a Go error is a value.  What is not in the
  repository is a parameter: Redis, MongoDB, etcd, NATS, the JSON and protobuf codecs, the block cipher, the web socket, random
  numbers, the clock, the order in which a map is ranged over and the buffer a pool returns.  What the code relies on of them is a named
  predicate (\<open>redis_laws\<close>, \<open>mongo_laws\<close>, \<open>lock_laws\<close>, \<open>list_laws\<close> and the like), and every theorem with a hypothesis is followed by an
  instance of it.  Go_Strings, Go_Time and Bytes model what the sources use of the Go library.  No definition has fuel
  except the closing loop of the saver, whose bound on the rounds is part of its termination theorem.

  \<^bold>\<open>The theories.\<close>

  \<^item> Base: machine types, collections of rewrite rules, generic lemmas.  Bytes, Go_Strings, Go_Time: byte orders and slices,
    decimal numbers and string functions, calendar.  Shards: an array of maps with a mask, with the interface \<open>sharding\<close> under
    which the array is one map; it is interpreted for the role registry, for the session table of the gateway and for the table
    of the center.

  \<^item> Swap_Queue (\<^verbatim>\<open>pkg/queue/swap_queue.go\<close>): one operation at a time.  The interface \<open>mailbox\<close> is what its clients use.
    Swap_Queue_Conc: \<^verbatim>\<open>Push\<close>, \<^verbatim>\<open>Close\<close> and \<^verbatim>\<open>Range\<close> split at every access to shared memory, for any number of producers, as a step
    relation.  Shown: order and limit of delivery, release of memory, that nothing accepted is lost even at a close, and
    that no wake-up is lost.

  \<^item> Frame (\<^verbatim>\<open>pkg/gnet/gmsg\<close>), Batcher (\<^verbatim>\<open>pkg/gnet/pub\<close>), Bus (\<^verbatim>\<open>pkg/gnet/msgq\<close>, \<^verbatim>\<open>pub/manage.go\<close>), Pb_Meta (\<^verbatim>\<open>api/pb\<close>), Router
    (\<^verbatim>\<open>pkg/gnet/router\<close>), Sender (\<^verbatim>\<open>pkg/gnet/sender.go\<close>, \<^verbatim>\<open>msgq/rpc.go\<close>): the path of a message.  Shown: round trips of the codec
    and what it does with damaged packets; that batches lose, duplicate and reorder nothing; that every destination is
    sent exactly its messages; that the registry of message numbers is one to one; that dispatch calls the handler
    registered for a number, on a clean message; that typed sends and remote calls arrive with their content.

  \<^item> Gateway (\<^verbatim>\<open>internal/gateway\<close>): sessions with their two loops, the session table, server messages and the shutdown, as
    steps that interleave freely.  Shown: a session's end is reported exactly once, with the first reason; what a client
    can put on the bus.

  \<^item> Discovery (\<^verbatim>\<open>pkg/discovery\<close>): groups of nodes, the watch of etcd, load reports, leases.  Shown: the cache follows etcd;
    a lost lease is not renewed.

  \<^item> Model_Keys (\<^verbatim>\<open>internal/share/model\<close>) and Account (\<^verbatim>\<open>internal/account/auth\<close>, \<^verbatim>\<open>sdk\<close>): the keys in Redis; account data,
    scripts, loaders and the login goroutine, with the steps of all goroutines as events of a run.  Shown: keys do not
    collide; every login is answered once and only once; the logins inside are well formed; a committed login is not
    undone by one that did not see it.

  \<^item> Registry, Role, Saver, Logon (\<^verbatim>\<open>internal/game/role\<close>, \<^verbatim>\<open>component\<close>, \<^verbatim>\<open>logon_service\<close>): the table of live roles, the life of a
    role, the writers of its data, and the service that ties them together; the interface \<open>login_mgr\<close> of the role is
    interpreted by the logon service.  Shown: the registry is one table of live roles, its ticks and its shutdown reach all
    of them; roles survive storage; resets and heartbeats follow their schedule; the savers store everything they
    accepted, the newest value last, and report only what is stored; a save is all or nothing; sessions hand over in
    order; and four situations in which the service falls short of that.

  \<^item> Actor (\<^verbatim>\<open>internal/share/actor\<close>) and Center (\<^verbatim>\<open>internal/center\<close>, and \<^verbatim>\<open>OnServerMsg\<close> of \<^verbatim>\<open>internal/game/app.go\<close>): goroutines with a
    mailbox, their manager and its shutdown, as steps that interleave freely, with handlers that may panic; the table of
    online roles and the relay.  Shown: an actor takes its events in order and once, and which ones a panic loses; the
    center follows the last report about a role.

  \<^item> Offline (\<^verbatim>\<open>internal/share/offline_evt\<close>), Lock (\<^verbatim>\<open>pkg/lock\<close>), Rand (\<^verbatim>\<open>pkg/util/rand.go\<close>, \<^verbatim>\<open>flag.go\<close>), Crypt (\<^verbatim>\<open>pkg/crypt\<close>): services
    the servers share.  Shown: the last ten events kept for a player are handled once, while the messages kept for them
    never are; the simple lock excludes under any interleaving of lockers and expirations, and what an optimistic update
    returns; draws by weight are fair and do not repeat, and random ranges are exact for integers of any width;
    what is decrypted is what was encrypted, and exchanged keys agree.

  \<^item> Spec2Isabelle: what spans components.  Center, bus, batches, frames, registry and mailbox together bring a relayed
    message to its role.

  \<^bold>\<open>Interleaving.\<close>  A method that takes a lock once is one step.  Where goroutines share state without a lock around the
  whole operation (swap queue, gateway session, login service, logon service, actors, locks) the model has their steps as separate
  events, and the theorems are about all sequences of events.

  \<^bold>\<open>Not modelled.\<close>  Start-up and command line (\<^verbatim>\<open>internal/share/app\<close>, \<^verbatim>\<open>cmd\<close>), connection set-up (\<^verbatim>\<open>pkg/db\<close>, the dialling part of
  \<^verbatim>\<open>msgq/nats.go\<close>), logging, notices, the http helper and the metrics: they only call libraries.  \<^verbatim>\<open>pkg/gnet/jetq\<close> is a thin
  layer over the stream interface of NATS which no server uses.  The leader election (\<^verbatim>\<open>pkg/util/master.go\<close>) and the
  configuration (\<^verbatim>\<open>pkg/cfg\<close>) are loops around the client of etcd, and \<^verbatim>\<open>pkg/util/strings.go\<close> passes its arguments to \<^verbatim>\<open>strconv\<close>.
  The check of \<^verbatim>\<open>auth/debug.go\<close> is used by tests.  The robot is a load-test client.  The generators under
  \<^verbatim>\<open>tools\<close> and \<^verbatim>\<open>pkg/tb_load\<close> run at development time; the registrations they generate are modelled.  Generated protobuf
  code is a parameter with the laws of a codec.
\<close>

section \<open>Across the components\<close>


text \<open>Role 100007 is online on node 1, role 100008 on node 2; three messages, two of them for role 100007.\<close>

definition demo_relay :: "u64 \<Rightarrow> u32 \<Rightarrow> bytes \<Rightarrow> unit message" where
  "demo_relay r msgID body = \<lparr>Head = \<lparr>ActorID = r, SesID = 0, MsgID = msgID, Flag = Forward, FromSer = 2, FromSerID = 5, ToSer = 2, ToSerID = 0\<rparr>,
     Data = body, U = None, reply = []\<rparr>"

definition demo_center :: "unit center" where
  "demo_center = \<lparr>ce_actors = Create Suc (NewActorMgr (onLoginOrLogout \<lparr>lr_RoleID = 100008, lr_SesID = 8, lr_GameID = 2, lr_Login = True\<rparr>
       (onLoginOrLogout \<lparr>lr_RoleID = 100007, lr_SesID = 7, lr_GameID = 1, lr_Login = True\<rparr> new_onlines))),
     ce_bus = new_bus 3 0 (NewBytesPoll buffSize)\<rparr>"

definition demo_game :: "(unit, unit, unit) game" where
  "demo_game = \<lparr>gm_roles = \<lparr>rw_reg = Register 100007 7 3 NewRegistry,
       rw_box = \<lambda>_. \<lparr>events = NewSwapQueue Suc 16 1600, cancelled = False, wait = 0\<rparr>\<rparr>,
     gm_actors = NewActorMgr ()\<rparr>"


end
